(* ===== verification/Prelude.thy ===== *)
theory Prelude
  imports Main "HOL-Library.Word" "HOL-Library.Monad_Syntax"
begin

text \<open>
  Shared vocabulary of the development: the machine types of the program, the ways a C
  function can stop without returning, the result types built from them, and the list and
  word lemmas that more than one component uses. The collections \<open>lanes_simps\<close> (unfolding
  of the small helper definitions) and \<open>word_bounds\<close> (moving 32-bit comparisons to \<open>nat\<close>)
  are filled by the components.
\<close>

named_theorems lanes_simps \<open>helper definitions that proofs unfold freely\<close>
named_theorems word_bounds \<open>comparisons and arithmetic on words, read as natural numbers\<close>

section \<open>Machine types\<close>

type_synonym u8 = "8 word"
type_synonym u16 = "16 word"
type_synonym u32 = "32 word"
type_synonym u64 = "64 word"

text \<open>A C \<^verbatim>\<open>int\<close> that takes part in atomic operations is a 32-bit word; \<open>sint\<close> reads it.\<close>

type_synonym i32 = "32 word"

text \<open>A pointer is an opaque 64-bit address; the null pointer is address 0.\<close>

type_synonym ptr = "64 word"

abbreviation (input) NULLP :: ptr where "NULLP \<equiv> 0"

section \<open>How a function can stop\<close>

text \<open>
  \<open>Exit n\<close> is \<^verbatim>\<open>exit(n)\<close>, reached through \<^verbatim>\<open>die\<close> with a nonzero first argument or
  directly. \<open>Fault f\<close> is behaviour the C standard leaves undefined and which the model
  makes visible instead of guessing a value.
\<close>

datatype fault = NullDeref | OutOfBounds | DivByZero

datatype error = Exit int | Fault fault

text \<open>
  \<open>'a res\<close> is the result of a function that always stops; \<open>'a may_loop\<close> that of a
  function with a loop that can run forever, where \<open>None\<close> means that it does not return.
\<close>

type_synonym 'a res = "error + 'a"
type_synonym 'a may_loop = "(error + 'a) option"

definition returns :: "'a may_loop \<Rightarrow> bool" where
  "returns r \<longleftrightarrow> (\<exists>x. r = Some (Inr x))"

lemma returnsI [intro]: "r = Some (Inr x) \<Longrightarrow> returns r"
  by (auto simp: returns_def)

lemma returns_simps [simp]:
  "returns (Some (Inr x))" "\<not> returns None" "\<not> returns (Some (Inl e))"
  by (auto simp: returns_def)

section \<open>Indexed updates\<close>

text \<open>Update one element of an array in place.\<close>

definition upd_at :: "nat \<Rightarrow> ('a \<Rightarrow> 'a) \<Rightarrow> 'a list \<Rightarrow> 'a list" where
  "upd_at i f xs = xs[i := f (xs ! i)]"

lemma length_upd_at [simp]: "length (upd_at i f xs) = length xs"
  by (simp add: upd_at_def)

lemma nth_upd_at [simp]:
  "i < length xs \<Longrightarrow> upd_at i f xs ! j = (if i = j then f (xs ! j) else xs ! j)"
  by (simp add: upd_at_def nth_list_update)

lemma nth_upd_at_neq: "i \<noteq> j \<Longrightarrow> upd_at i f xs ! j = xs ! j"
  by (simp add: upd_at_def)

lemma upd_at_id: "f (xs ! i) = xs ! i \<Longrightarrow> upd_at i f xs = xs"
  by (simp add: upd_at_def)

lemma upd_at_twice: "upd_at i g (upd_at i f xs) = upd_at i (\<lambda>x. g (f x)) xs"
  by (cases "i < length xs") (simp_all add: upd_at_def list_update_beyond)

lemma map_upd_at_same: "(\<And>x. g (f x) = g x) \<Longrightarrow> map g (upd_at i f xs) = map g xs"
proof -
  assume "\<And>x. g (f x) = g x"
  then have "(map g xs)[i := g (xs ! i)] = map g xs"
    by (cases "i < length xs") (simp_all add: list_update_same_conv list_update_beyond)
  with \<open>\<And>x. g (f x) = g x\<close> show ?thesis by (simp add: upd_at_def map_update)
qed

lemma list_all_upd_at:
  "list_all P xs \<Longrightarrow> (\<And>x. P x \<Longrightarrow> P (f x)) \<Longrightarrow> list_all P (upd_at i f xs)"
  by (cases "i < length xs") (auto simp: list_all_length nth_upd_at upd_at_def nth_list_update list_update_beyond)

section \<open>Bytes in memory\<close>

text \<open>Overwrite the bytes of a memory block from an offset on; outside the block is a fault.\<close>

definition write_at :: "nat \<Rightarrow> 'a list \<Rightarrow> 'a list \<Rightarrow> 'a list res" where
  "write_at off bs mem =
     (if off + length bs \<le> length mem
      then Inr (take off mem @ bs @ drop (off + length bs) mem)
      else Inl (Fault OutOfBounds))"

text \<open>Read \<open>n\<close> bytes from an offset on.\<close>

definition read_at :: "nat \<Rightarrow> nat \<Rightarrow> 'a list \<Rightarrow> 'a list" where
  "read_at off n mem = take n (drop off mem)"

lemma length_read_at [simp]: "off + n \<le> length mem \<Longrightarrow> length (read_at off n mem) = n"
  by (simp add: read_at_def)

lemma write_at_length: "write_at off bs mem = Inr mem' \<Longrightarrow> length mem' = length mem"
  by (auto simp: write_at_def split: if_splits)

lemma write_at_fits: "off + length bs \<le> length mem \<Longrightarrow> \<exists>mem'. write_at off bs mem = Inr mem'"
  by (simp add: write_at_def)

lemma read_write_same:
  "write_at off bs mem = Inr mem' \<Longrightarrow> read_at off (length bs) mem' = bs"
  by (auto simp: write_at_def read_at_def split: if_splits)

lemma read_write_disjoint:
  assumes "write_at off bs mem = Inr mem'"
    and "a + n \<le> off \<or> off + length bs \<le> a"
  shows "read_at a n mem' = read_at a n mem"
proof -
  from assms(1) have mem': "mem' = take off mem @ bs @ drop (off + length bs) mem"
    and fits: "off + length bs \<le> length mem"
    by (auto simp: write_at_def split: if_splits)
  show ?thesis
    using assms(2)
  proof
    assume "a + n \<le> off"
    then show ?thesis
      using fits by (simp add: mem' read_at_def take_drop min_def)
  next
    assume "off + length bs \<le> a"
    then show ?thesis
      using fits by (simp add: mem' read_at_def)
  qed
qed

section \<open>Little-endian encodings\<close>

definition bytes_of_u16 :: "u16 \<Rightarrow> u8 list" where
  "bytes_of_u16 w = [ucast w, ucast (drop_bit 8 w)]"

definition bytes_of_u32 :: "u32 \<Rightarrow> u8 list" where
  "bytes_of_u32 w = [ucast w, ucast (drop_bit 8 w), ucast (drop_bit 16 w), ucast (drop_bit 24 w)]"

text \<open>Consecutive bytes read as 16-bit words; an odd last byte is left out.\<close>

fun u16s_of_bytes :: "u8 list \<Rightarrow> u16 list" where
  "u16s_of_bytes (lo # hi # bs) = (ucast lo + push_bit 8 (ucast hi)) # u16s_of_bytes bs"
| "u16s_of_bytes bs = []"

lemma length_bytes_of [simp]: "length (bytes_of_u16 w) = 2" "length (bytes_of_u32 v) = 4"
  by (simp_all add: bytes_of_u16_def bytes_of_u32_def)

section \<open>Words as numbers\<close>

lemma unat_pred [word_bounds]: "x \<noteq> (0::u32) \<Longrightarrow> unat (x - 1) = unat x - 1"
  by (simp add: unat_minus_one)

lemma unat_suc_below [word_bounds]: "x < (y::u32) \<Longrightarrow> unat (x + 1) = Suc (unat x)"
proof -
  assume "x < y"
  then have "unat x < unat y" by (simp add: word_less_nat_alt)
  moreover have "unat y < 2 ^ 32" using unsigned_less [of y] by simp
  ultimately have "unat x + unat (1::u32) < 2 ^ 32" by simp
  then show ?thesis by (subst unat_add_lem [THEN iffD1]) simp_all
qed

declare word_less_nat_alt [word_bounds] word_le_nat_alt [word_bounds]

lemma word_eq_iff_unat: "(x = y) = (unat x = unat (y :: u32))"
  by (simp add: unsigned_word_eqI word_unat_eq_iff)

lemma unat_of_int_u32: "0 \<le> x \<Longrightarrow> x < 2 ^ 32 \<Longrightarrow> unat (of_int x :: u32) = nat x"
  by (simp add: unsigned_of_int take_bit_int_eq_self)

lemma unat_of_nat_u32: "n < 2 ^ 32 \<Longrightarrow> unat (of_nat n :: u32) = n"
  by (simp add: unat_of_nat take_bit_nat_eq_self)

lemma unat_of_nat_below: "j < unat (y :: u32) \<Longrightarrow> unat (of_nat j :: u32) = j"
  using unsigned_less [of y, where 'a = nat] by (intro unat_of_nat_u32) simp

lemma unat_mult_u32: "n * unat (b :: u32) < 2 ^ 32 \<Longrightarrow> unat (of_nat n * b) = n * unat b"
proof -
  assume small: "n * unat b < 2 ^ 32"
  have "of_nat n * b = (of_nat (n * unat b) :: u32)" by simp
  then show ?thesis using unat_of_nat_u32 [OF small] by simp
qed

end
