(* ===== verification/Klist.thy ===== *)
theory Klist
  imports Prelude
begin

text \<open>
  The intrusive doubly linked list of \<^verbatim>\<open>list.h\<close>: a heap of nodes addressed by pointers,
  one definition per list operation, each a composition of the reads and writes of the C
  function in their order. Reading or writing through a pointer that is not mapped is
  \<open>None\<close>. The predicate \<open>cyc\<close> describes a well-formed circular list; \<open>klist h hd xs\<close> one
  seen from its head. The last part states the head-insert interface its clients use.
\<close>

section \<open>Heap and node access\<close>

record node =
  nxt :: ptr
  prv :: ptr

type_synonym heap = "ptr \<rightharpoonup> node"

definition get_next :: "heap \<Rightarrow> ptr \<Rightarrow> ptr option" where
  "get_next h p = map_option nxt (h p)"

definition get_prev :: "heap \<Rightarrow> ptr \<Rightarrow> ptr option" where
  "get_prev h p = map_option prv (h p)"

definition set_next :: "heap \<Rightarrow> ptr \<Rightarrow> ptr \<Rightarrow> heap option" where
  "set_next h p v = (case h p of None \<Rightarrow> None | Some n \<Rightarrow> Some (h(p \<mapsto> n\<lparr>nxt := v\<rparr>)))"

definition set_prev :: "heap \<Rightarrow> ptr \<Rightarrow> ptr \<Rightarrow> heap option" where
  "set_prev h p v = (case h p of None \<Rightarrow> None | Some n \<Rightarrow> Some (h(p \<mapsto> n\<lparr>prv := v\<rparr>)))"

section \<open>The operations of list.h\<close>

definition INIT_LIST_HEAD :: "heap \<Rightarrow> ptr \<Rightarrow> heap option" where
  "INIT_LIST_HEAD h p = do { h1 \<leftarrow> set_next h p p; set_prev h1 p p }"

text \<open>\<open>insert_between\<close> is \<^verbatim>\<open>__list_add\<close>, \<open>unlink_between\<close> is \<^verbatim>\<open>__list_del\<close>.\<close>

definition insert_between :: "heap \<Rightarrow> ptr \<Rightarrow> ptr \<Rightarrow> ptr \<Rightarrow> heap option" where
  "insert_between h new prev next = do {
     h1 \<leftarrow> set_prev h next new;
     h2 \<leftarrow> set_next h1 new next;
     h3 \<leftarrow> set_prev h2 new prev;
     set_next h3 prev new }"

definition list_add :: "heap \<Rightarrow> ptr \<Rightarrow> ptr \<Rightarrow> heap option" where
  "list_add h new head = do { n \<leftarrow> get_next h head; insert_between h new head n }"

definition list_add_tail :: "heap \<Rightarrow> ptr \<Rightarrow> ptr \<Rightarrow> heap option" where
  "list_add_tail h new head = do { p \<leftarrow> get_prev h head; insert_between h new p head }"

definition unlink_between :: "heap \<Rightarrow> ptr \<Rightarrow> ptr \<Rightarrow> heap option" where
  "unlink_between h prev next = do { h1 \<leftarrow> set_prev h next prev; set_next h1 prev next }"

definition list_del :: "heap \<Rightarrow> ptr \<Rightarrow> heap option" where
  "list_del h entry = do {
     p \<leftarrow> get_prev h entry;
     n \<leftarrow> get_next h entry;
     h1 \<leftarrow> unlink_between h p n;
     h2 \<leftarrow> set_next h1 entry NULLP;
     set_prev h2 entry NULLP }"

definition list_del_init :: "heap \<Rightarrow> ptr \<Rightarrow> heap option" where
  "list_del_init h entry = do {
     p \<leftarrow> get_prev h entry;
     n \<leftarrow> get_next h entry;
     h1 \<leftarrow> unlink_between h p n;
     INIT_LIST_HEAD h1 entry }"

definition list_move :: "heap \<Rightarrow> ptr \<Rightarrow> ptr \<Rightarrow> heap option" where
  "list_move h l head = do {
     p \<leftarrow> get_prev h l;
     n \<leftarrow> get_next h l;
     h1 \<leftarrow> unlink_between h p n;
     list_add h1 l head }"

definition list_move_tail :: "heap \<Rightarrow> ptr \<Rightarrow> ptr \<Rightarrow> heap option" where
  "list_move_tail h l head = do {
     p \<leftarrow> get_prev h l;
     n \<leftarrow> get_next h l;
     h1 \<leftarrow> unlink_between h p n;
     list_add_tail h1 l head }"

definition list_empty :: "heap \<Rightarrow> ptr \<Rightarrow> bool option" where
  "list_empty h head = do { n \<leftarrow> get_next h head; Some (n = head) }"

definition splice_after :: "heap \<Rightarrow> ptr \<Rightarrow> ptr \<Rightarrow> heap option" where
  "splice_after h l head = do {
     first \<leftarrow> get_next h l;
     last \<leftarrow> get_prev h l;
     at \<leftarrow> get_next h head;
     h1 \<leftarrow> set_prev h first head;
     h2 \<leftarrow> set_next h1 head first;
     h3 \<leftarrow> set_next h2 last at;
     set_prev h3 at last }"

definition list_splice :: "heap \<Rightarrow> ptr \<Rightarrow> ptr \<Rightarrow> heap option" where
  "list_splice h l head = do {
     e \<leftarrow> list_empty h l;
     if \<not> e then splice_after h l head else Some h }"

definition list_splice_init :: "heap \<Rightarrow> ptr \<Rightarrow> ptr \<Rightarrow> heap option" where
  "list_splice_init h l head = do {
     e \<leftarrow> list_empty h l;
     if \<not> e then do { h1 \<leftarrow> splice_after h l head; INIT_LIST_HEAD h1 l } else Some h }"

text \<open>
  \<open>list_entry\<close> subtracts the member's offset from the member's address. The traversal
  macros return the nodes their body is run on; \<open>list_for_each_safe\<close> threads a body that
  may change the heap.
\<close>

definition list_entry :: "ptr \<Rightarrow> ptr \<Rightarrow> ptr" where
  "list_entry p member_offset = p - member_offset"

partial_function (option) walk_next :: "heap \<Rightarrow> ptr \<Rightarrow> ptr \<Rightarrow> ptr list option" where
  "walk_next h pos head =
     (if pos = head then Some []
      else do { n \<leftarrow> get_next h pos; r \<leftarrow> walk_next h n head; Some (pos # r) })"

definition list_for_each :: "heap \<Rightarrow> ptr \<Rightarrow> ptr list option" where
  "list_for_each h head = do { n \<leftarrow> get_next h head; walk_next h n head }"

partial_function (option) walk_prev :: "heap \<Rightarrow> ptr \<Rightarrow> ptr \<Rightarrow> ptr list option" where
  "walk_prev h pos head =
     (if pos = head then Some []
      else do { p \<leftarrow> get_prev h pos; r \<leftarrow> walk_prev h p head; Some (pos # r) })"

definition list_for_each_prev :: "heap \<Rightarrow> ptr \<Rightarrow> ptr list option" where
  "list_for_each_prev h head = do { p \<leftarrow> get_prev h head; walk_prev h p head }"

partial_function (option) walk_safe ::
  "(heap \<Rightarrow> ptr \<Rightarrow> heap option) \<Rightarrow> heap \<Rightarrow> ptr \<Rightarrow> ptr \<Rightarrow> ptr \<Rightarrow> heap option" where
  "walk_safe body h pos n head =
     (if pos = head then Some h
      else do { h1 \<leftarrow> body h pos; n1 \<leftarrow> get_next h1 n; walk_safe body h1 n n1 head })"

definition list_for_each_safe ::
  "(heap \<Rightarrow> ptr \<Rightarrow> heap option) \<Rightarrow> heap \<Rightarrow> ptr \<Rightarrow> heap option" where
  "list_for_each_safe body h head = do {
     pos \<leftarrow> get_next h head; n \<leftarrow> get_next h pos; walk_safe body h pos n head }"

text \<open>
  The entry macros walk over the structures that contain the nodes; \<open>off\<close> is the member's
  offset in them.
\<close>

partial_function (option) walk_entry :: "heap \<Rightarrow> ptr \<Rightarrow> ptr \<Rightarrow> ptr \<Rightarrow> ptr list option" where
  "walk_entry h off pos head =
     (if pos + off = head then Some []
      else do { n \<leftarrow> get_next h (pos + off); r \<leftarrow> walk_entry h off (list_entry n off) head; Some (pos # r) })"

definition list_for_each_entry :: "heap \<Rightarrow> ptr \<Rightarrow> ptr \<Rightarrow> ptr list option" where
  "list_for_each_entry h off head = do { n \<leftarrow> get_next h head; walk_entry h off (list_entry n off) head }"

partial_function (option) walk_entry_safe ::
  "(heap \<Rightarrow> ptr \<Rightarrow> heap option) \<Rightarrow> heap \<Rightarrow> ptr \<Rightarrow> ptr \<Rightarrow> ptr \<Rightarrow> ptr \<Rightarrow> heap option" where
  "walk_entry_safe body h off pos n head =
     (if pos + off = head then Some h
      else do {
        h1 \<leftarrow> body h pos;
        n1 \<leftarrow> get_next h1 (n + off);
        walk_entry_safe body h1 off n (list_entry n1 off) head })"

definition list_for_each_entry_safe ::
  "(heap \<Rightarrow> ptr \<Rightarrow> heap option) \<Rightarrow> heap \<Rightarrow> ptr \<Rightarrow> ptr \<Rightarrow> heap option" where
  "list_for_each_entry_safe body h off head = do {
     p \<leftarrow> get_next h head;
     n \<leftarrow> get_next h (list_entry p off + off);
     walk_entry_safe body h off (list_entry p off) (list_entry n off) head }"

section \<open>Reads after writes\<close>

text \<open>Every write succeeds exactly on a mapped pointer, and changes one field of one node.\<close>

lemma set_next_mapped [simp]: "set_next h p v = None \<longleftrightarrow> h p = None"
  by (simp add: set_next_def split: option.splits)

lemma set_prev_mapped [simp]: "set_prev h p v = None \<longleftrightarrow> h p = None"
  by (simp add: set_prev_def split: option.splits)

lemma set_next_effect:
  "set_next h p v = Some h' \<Longrightarrow>
     dom h' = dom h \<and> (\<forall>q. get_next h' q = (if q = p then Some v else get_next h q)) \<and>
     (\<forall>q. get_prev h' q = get_prev h q)"
  by (auto simp: set_next_def get_next_def get_prev_def split: option.splits if_splits)

lemma set_prev_effect:
  "set_prev h p v = Some h' \<Longrightarrow>
     dom h' = dom h \<and> (\<forall>q. get_prev h' q = (if q = p then Some v else get_prev h q)) \<and>
     (\<forall>q. get_next h' q = get_next h q)"
  by (auto simp: set_prev_def get_next_def get_prev_def split: option.splits if_splits)

lemma get_next_None [simp]: "get_next h p = None \<longleftrightarrow> p \<notin> dom h"
  by (auto simp: get_next_def)

lemma get_prev_None [simp]: "get_prev h p = None \<longleftrightarrow> p \<notin> dom h"
  by (auto simp: get_prev_def)

text \<open>
  The four-write insertion and the two-write unlinking, as one effect each; the later
  write wins where two of the arguments are the same node.
\<close>

lemma insert_between_effect:
  assumes "new \<in> dom h" "p \<in> dom h" "n \<in> dom h"
  obtains h' where "insert_between h new p n = Some h'" and "dom h' = dom h"
    and "\<And>q. get_next h' q = (if q = p then Some new else if q = new then Some n else get_next h q)"
    and "\<And>q. get_prev h' q = (if q = new then Some p else if q = n then Some new else get_prev h q)"
proof -
  from assms obtain h1 where h1: "set_prev h n new = Some h1"
    by (cases "set_prev h n new") auto
  note e1 = set_prev_effect [OF h1]
  with assms obtain h2 where h2: "set_next h1 new n = Some h2"
    by (cases "set_next h1 new n") auto
  note e2 = set_next_effect [OF h2]
  with e1 assms obtain h3 where h3: "set_prev h2 new p = Some h3"
    by (cases "set_prev h2 new p") auto
  note e3 = set_prev_effect [OF h3]
  with e1 e2 assms obtain h4 where h4: "set_next h3 p new = Some h4"
    by (cases "set_next h3 p new") auto
  note e4 = set_next_effect [OF h4]
  show ?thesis
    by (rule that [of h4]) (use e1 e2 e3 e4 in \<open>simp_all add: insert_between_def h1 h2 h3 h4\<close>)
qed

lemma unlink_between_effect:
  assumes "p \<in> dom h" "n \<in> dom h"
  obtains h' where "unlink_between h p n = Some h'" and "dom h' = dom h"
    and "\<And>q. get_next h' q = (if q = p then Some n else get_next h q)"
    and "\<And>q. get_prev h' q = (if q = n then Some p else get_prev h q)"
proof -
  from assms obtain h1 where h1: "set_prev h n p = Some h1"
    by (cases "set_prev h n p") auto
  note e1 = set_prev_effect [OF h1]
  with assms obtain h2 where h2: "set_next h1 p n = Some h2"
    by (cases "set_next h1 p n") auto
  note e2 = set_next_effect [OF h2]
  show ?thesis
    by (rule that [of h2]) (use e1 e2 in \<open>simp_all add: unlink_between_def h1 h2\<close>)
qed

lemma store_node_effect:
  assumes "p \<in> dom h"
  obtains h' where "do { h1 \<leftarrow> set_next h p a; set_prev h1 p b } = Some h'" and "dom h' = dom h"
    and "\<And>q. get_next h' q = (if q = p then Some a else get_next h q)"
    and "\<And>q. get_prev h' q = (if q = p then Some b else get_prev h q)"
proof -
  from assms obtain h1 where h1: "set_next h p a = Some h1"
    by (cases "set_next h p a") auto
  note e1 = set_next_effect [OF h1]
  with assms obtain h2 where h2: "set_prev h1 p b = Some h2"
    by (cases "set_prev h1 p b") auto
  note e2 = set_prev_effect [OF h2]
  show ?thesis
    by (rule that [of h2]) (use e1 e2 in \<open>simp_all add: h1 h2\<close>)
qed

section \<open>Well-formed circular lists\<close>

definition linked :: "heap \<Rightarrow> ptr \<Rightarrow> ptr \<Rightarrow> bool" where
  "linked h a b \<longleftrightarrow> get_next h a = Some b \<and> get_prev h b = Some a"

fun chain :: "heap \<Rightarrow> ptr list \<Rightarrow> bool" where
  "chain h [] = True"
| "chain h [a] = True"
| "chain h (a # b # c) = (linked h a b \<and> chain h (b # c))"

definition cyc :: "heap \<Rightarrow> ptr list \<Rightarrow> bool" where
  "cyc h c \<longleftrightarrow> c \<noteq> [] \<and> distinct c \<and> chain h (c @ [hd c])"

definition klist :: "heap \<Rightarrow> ptr \<Rightarrow> ptr list \<Rightarrow> bool" where
  "klist h head xs \<longleftrightarrow> cyc h (head # xs)"

lemma chain_append:
  "chain h (as @ b # cs) \<longleftrightarrow> chain h (as @ [b]) \<and> chain h (b # cs)"
proof (induction as)
  case Nil
  then show ?case by simp
next
  case (Cons a as)
  then show ?case by (cases as) auto
qed

lemma chain_frame:
  assumes "\<forall>a \<in> set (butlast ps). get_next h' a = get_next h a"
    and "\<forall>b \<in> set (tl ps). get_prev h' b = get_prev h b"
  shows "chain h' ps = chain h ps"
  using assms
proof (induction ps rule: chain.induct [of _ h])
  case (3 h a b c)
  have "chain h' (b # c) = chain h (b # c)"
    by (rule "3.IH") (use "3.prems" in \<open>cases c; auto\<close>)+
  with "3.prems" show ?case by (auto simp: linked_def)
qed auto

lemma cyc_rotate: "cyc h (a # as) \<longleftrightarrow> cyc h (as @ [a])"
proof (cases as)
  case Nil
  then show ?thesis by simp
next
  case (Cons b bs)
  have "chain h ((a # as) @ [a]) \<longleftrightarrow> linked h a b \<and> chain h (as @ [a])"
    by (simp add: Cons)
  moreover have "chain h ((as @ [a]) @ [b]) \<longleftrightarrow> chain h (as @ [a]) \<and> linked h a b"
    using chain_append [of h as a "[b]"] by simp
  ultimately show ?thesis by (auto simp: cyc_def Cons)
qed

lemma cyc_ends:
  assumes "cyc h c"
  shows "linked h (last c) (hd c)"
proof -
  from assms have c: "c = butlast c @ [last c]" by (simp add: cyc_def)
  from assms have "chain h (butlast c @ last c # [hd c])"
    by (metis append.assoc append_Cons append_Nil c cyc_def)
  then show ?thesis using chain_append [of h "butlast c" "last c" "[hd c]"] by simp
qed

lemma linked_dom: "linked h a b \<Longrightarrow> a \<in> dom h \<and> b \<in> dom h"
  by (metis get_next_None get_prev_None linked_def option.distinct(1))

lemma chain_dom: "chain h (as @ [x]) \<Longrightarrow> set as \<subseteq> dom h"
proof (induction as)
  case (Cons a as)
  then show ?case by (cases as) (auto dest: linked_dom)
qed simp

lemma cyc_dom: "cyc h c \<Longrightarrow> set c \<subseteq> dom h"
  by (auto simp: cyc_def dest: chain_dom)

lemma cyc_frame:
  assumes "\<forall>a \<in> set c. get_next h' a = get_next h a \<and> get_prev h' a = get_prev h a"
  shows "cyc h' c = cyc h c"
proof (cases c)
  case (Cons a as)
  have "chain h' (c @ [hd c]) = chain h (c @ [hd c])"
    by (rule chain_frame) (use assms Cons in auto)
  then show ?thesis by (simp add: cyc_def)
qed (simp add: cyc_def)

text \<open>\<open>unchanged S h h'\<close>: the same nodes are mapped and those outside \<open>S\<close> are as before.\<close>

definition unchanged :: "ptr set \<Rightarrow> heap \<Rightarrow> heap \<Rightarrow> bool" where
  "unchanged S h h' \<longleftrightarrow> dom h' = dom h \<and> (\<forall>q. q \<notin> S \<longrightarrow> h' q = h q)"

lemma unchangedI:
  assumes "dom h' = dom h"
    and "\<And>q. q \<notin> S \<Longrightarrow> get_next h' q = get_next h q"
    and "\<And>q. q \<notin> S \<Longrightarrow> get_prev h' q = get_prev h q"
  shows "unchanged S h h'"
proof -
  have "\<forall>q. q \<notin> S \<longrightarrow> h' q = h q"
  proof (intro allI impI)
    fix q assume q: "q \<notin> S"
    from assms(1) have "h' q = None \<longleftrightarrow> h q = None" by (metis domIff)
    moreover have "map_option nxt (h' q) = map_option nxt (h q)"
      using assms(2) [OF q] by (simp add: get_next_def)
    moreover have "map_option prv (h' q) = map_option prv (h q)"
      using assms(3) [OF q] by (simp add: get_prev_def)
    ultimately show "h' q = h q"
      by (cases "h q"; cases "h' q") (simp_all add: node.equality)
  qed
  with assms(1) show ?thesis by (simp add: unchanged_def)
qed

lemma unchanged_trans: "unchanged S h h' \<Longrightarrow> unchanged T h' h'' \<Longrightarrow> S \<union> T \<subseteq> U \<Longrightarrow> unchanged U h h''"
  by (simp add: unchanged_def) (metis UnCI subsetD)

lemma unchanged_refl [simp]: "unchanged S h h"
  by (simp add: unchanged_def)

lemma unchanged_cyc: "unchanged S h h' \<Longrightarrow> set c \<inter> S = {} \<Longrightarrow> cyc h' c = cyc h c"
  by (rule cyc_frame) (auto simp: unchanged_def get_next_def get_prev_def)

lemma chain_snoc: "c \<noteq> [] \<Longrightarrow> chain h (c @ [x]) \<longleftrightarrow> chain h c \<and> linked h (last c) x"
  using chain_append [of h "butlast c" "last c" "[x]"]
  by (metis append.assoc append_Cons append_Nil append_butlast_last_id chain.simps(2,3))

lemma chain_init: "cyc h c \<Longrightarrow> chain h c"
  by (auto simp: cyc_def chain_snoc)

lemma chain_close:
  "c \<noteq> [] \<Longrightarrow> chain h c \<Longrightarrow> linked h (last c) x \<Longrightarrow> chain h (c @ [x])"
  by (simp add: chain_snoc)

lemma last_notin_butlast: "distinct c \<Longrightarrow> c \<noteq> [] \<Longrightarrow> last c \<notin> set (butlast c)"
  by (metis append_butlast_last_id distinct_append disjoint_iff list.set_intros(1))

lemma hd_notin_tl: "distinct c \<Longrightarrow> c \<noteq> [] \<Longrightarrow> hd c \<notin> set (tl c)"
  by (cases c) auto

lemma set_tl_butlast: "x \<in> set (tl c) \<Longrightarrow> x \<in> set c" "x \<in> set (butlast c) \<Longrightarrow> x \<in> set c"
  by (cases c; auto) (auto dest: in_set_butlastD)

section \<open>Insertion, removal and splicing on circular lists\<close>

lemma insert_cyc:
  assumes cyc: "cyc h c" and new: "new \<in> dom h" "new \<notin> set c"
  obtains h' where "insert_between h new (last c) (hd c) = Some h'"
    and "cyc h' (c @ [new])" and "unchanged (insert new (set c)) h h'"
proof -
  from cyc have c: "c \<noteq> []" "distinct c" by (auto simp: cyc_def)
  then have ends: "last c \<in> set c" "hd c \<in> set c" by auto
  with cyc_dom [OF cyc] have "last c \<in> dom h" "hd c \<in> dom h" by auto
  then obtain h' where h': "insert_between h new (last c) (hd c) = Some h'"
    and d: "dom h' = dom h"
    and gn: "\<And>q. get_next h' q = (if q = last c then Some new else if q = new then Some (hd c) else get_next h q)"
    and gp: "\<And>q. get_prev h' q = (if q = new then Some (last c) else if q = hd c then Some new else get_prev h q)"
    by (rule insert_between_effect [OF new(1)]) blast
  have "chain h' c = chain h c"
    by (rule chain_frame)
      (use c new(2) in \<open>auto simp: gn gp last_notin_butlast hd_notin_tl dest: set_tl_butlast\<close>)
  then have "chain h' c" using chain_init [OF cyc] by simp
  moreover have "linked h' (last c) new" and "linked h' new (hd c)"
    using ends new(2) by (auto simp: linked_def gn gp)
  ultimately have "chain h' ((c @ [new]) @ [hd c])"
    using c by (intro chain_close) auto
  with c new(2) have "cyc h' (c @ [new])" by (simp add: cyc_def)
  moreover have "unchanged (insert new (set c)) h h'"
    by (rule unchangedI) (use d ends in \<open>auto simp: gn gp\<close>)
  ultimately show ?thesis using h' that by blast
qed

lemma unlink_cyc:
  assumes cyc: "cyc h (x # c)" and c: "c \<noteq> []"
  obtains h' where "get_prev h x = Some (last c)" and "get_next h x = Some (hd c)"
    and "unlink_between h (last c) (hd c) = Some h'"
    and "cyc h' c" and "unchanged (set c) h h'"
proof -
  from cyc have dist: "distinct (x # c)" by (simp add: cyc_def)
  have "linked h (last c) x" using cyc_ends [OF cyc] c by simp
  moreover have "linked h x (hd c)" using cyc c by (cases c) (auto simp: cyc_def)
  ultimately have at_x: "get_prev h x = Some (last c)" "get_next h x = Some (hd c)"
    by (auto simp: linked_def)
  from c have ends: "last c \<in> set c" "hd c \<in> set c" by auto
  with cyc_dom [OF cyc] have "last c \<in> dom h" "hd c \<in> dom h" by auto
  then obtain h' where h': "unlink_between h (last c) (hd c) = Some h'"
    and d: "dom h' = dom h"
    and gn: "\<And>q. get_next h' q = (if q = last c then Some (hd c) else get_next h q)"
    and gp: "\<And>q. get_prev h' q = (if q = hd c then Some (last c) else get_prev h q)"
    by (rule unlink_between_effect) auto
  have "chain h c" using chain_init [OF cyc] c by (cases c) auto
  moreover have "chain h' c = chain h c"
    by (rule chain_frame)
      (use c dist in \<open>auto simp: gn gp last_notin_butlast hd_notin_tl dest: set_tl_butlast\<close>)
  ultimately have "chain h' (c @ [hd c])"
    using c by (intro chain_close) (auto simp: linked_def gn gp)
  with c dist have "cyc h' c" by (simp add: cyc_def)
  moreover have "unchanged (set c) h h'"
    by (rule unchangedI) (use d ends in \<open>auto simp: gn gp\<close>)
  ultimately show ?thesis using at_x h' that by blast
qed

lemma cyc_swap: "cyc h (as @ bs) = cyc h (bs @ as)"
proof (induction as arbitrary: bs)
  case (Cons a as)
  show ?case using Cons.IH [of "bs @ [a]"] cyc_rotate [of h a "as @ bs"] by simp
qed simp

lemma klist_dom: "klist h head xs \<Longrightarrow> insert head (set xs) \<subseteq> dom h"
  by (auto simp: klist_def dest!: cyc_dom)

lemma klist_distinct: "klist h head xs \<Longrightarrow> distinct (head # xs)"
  by (simp add: klist_def cyc_def)

lemma klist_frame:
  "unchanged S h h' \<Longrightarrow> insert head (set xs) \<inter> S = {} \<Longrightarrow> klist h' head xs = klist h head xs"
  unfolding klist_def by (rule unchanged_cyc) simp_all

lemma klist_head_next: "klist h head xs \<Longrightarrow> get_next h head = Some (hd (xs @ [head]))"
  using cyc_ends [of h "xs @ [head]"] cyc_rotate [of h head xs] by (simp add: klist_def linked_def)

lemma klist_head_prev: "klist h head xs \<Longrightarrow> get_prev h head = Some (last (head # xs))"
  using cyc_ends [of h "head # xs"] by (simp add: klist_def linked_def)

lemma klist_unlink:
  assumes "klist h head (as @ x # bs)"
  obtains p n h1 where "get_prev h x = Some p" and "get_next h x = Some n"
    and "unlink_between h p n = Some h1" and "klist h1 head (as @ bs)"
    and "unchanged (insert head (set (as @ bs))) h h1"
proof -
  have "cyc h (x # (bs @ head # as))"
    using assms cyc_swap [of h "head # as" "x # bs"] by (simp add: klist_def)
  then obtain h1 where h1: "get_prev h x = Some (last (bs @ head # as))"
      "get_next h x = Some (hd (bs @ head # as))"
      "unlink_between h (last (bs @ head # as)) (hd (bs @ head # as)) = Some h1"
      "cyc h1 (bs @ head # as)" "unchanged (set (bs @ head # as)) h h1"
    by (rule unlink_cyc) auto
  have "klist h1 head (as @ bs)"
    using h1(4) cyc_swap [of h1 "head # as" bs] by (simp add: klist_def)
  moreover have "set (bs @ head # as) = insert head (set (as @ bs))" by auto
  ultimately show ?thesis using h1(1,2,3,5) that by metis
qed

text \<open>The correctness of each operation, on lists seen from their heads.\<close>

text \<open>\<^verbatim>\<open>list_add\<close> on a well-formed list succeeds, puts the new entry right after the head
  and writes to no node outside the list and the new entry.\<close>

lemma list_add_front:
  assumes "klist h head xs" and "new \<in> dom h" and "new \<notin> insert head (set xs)"
  shows "\<exists>h'. list_add h new head = Some h' \<and> klist h' head (new # xs) \<and>
           unchanged (insert new (insert head (set xs))) h h'"
proof -
  from assms(1) have "cyc h (xs @ [head])" by (simp add: klist_def cyc_rotate)
  with assms(2,3) obtain h' where
    h': "insert_between h new head (hd (xs @ [head])) = Some h'"
    and "cyc h' ((xs @ [head]) @ [new])" and u: "unchanged (insert new (set (xs @ [head]))) h h'"
    using insert_cyc [of h "xs @ [head]" new] by auto
  then have "klist h' head (new # xs)"
    using cyc_rotate [of h' head "new # xs"] cyc_rotate [of h' new "xs @ [head]"]
    by (simp add: klist_def)
  moreover have "insert new (set (xs @ [head])) = insert new (insert head (set xs))" by auto
  ultimately show ?thesis
    using u h' by (auto simp: list_add_def klist_head_next [OF assms(1)])
qed

text \<open>\<^verbatim>\<open>list_add_tail\<close> on a well-formed list succeeds, puts the new entry last and
  writes to no node outside the list and the new entry.\<close>

lemma list_add_tail_back:
  assumes "klist h head xs" and "new \<in> dom h" and "new \<notin> insert head (set xs)"
  shows "\<exists>h'. list_add_tail h new head = Some h' \<and> klist h' head (xs @ [new]) \<and>
           unchanged (insert new (insert head (set xs))) h h'"
proof -
  from assms obtain h' where "insert_between h new (last (head # xs)) head = Some h'"
    and "cyc h' ((head # xs) @ [new])" and "unchanged (insert new (set (head # xs))) h h'"
    using insert_cyc [of h "head # xs" new] by (auto simp: klist_def)
  then show ?thesis
    by (auto simp: list_add_tail_def klist_head_prev [OF assms(1)] klist_def)
qed

text \<open>\<^verbatim>\<open>list_del\<close> removes exactly the given entry, keeps the order of the others, and
  leaves null pointers in the removed entry.\<close>

lemma list_del_removes:
  assumes "klist h head (as @ x # bs)"
  shows "\<exists>h'. list_del h x = Some h' \<and> klist h' head (as @ bs) \<and>
           h' x = Some \<lparr>nxt = NULLP, prv = NULLP\<rparr> \<and>
           unchanged (insert x (insert head (set (as @ bs)))) h h'"
proof -
  from klist_distinct [OF assms] have x: "x \<notin> insert head (set (as @ bs))" by auto
  from assms obtain p n h1 where
    h1: "get_prev h x = Some p" "get_next h x = Some n" "unlink_between h p n = Some h1"
    and k1: "klist h1 head (as @ bs)" and u1: "unchanged (insert head (set (as @ bs))) h h1"
    by (rule klist_unlink)
  from klist_dom [OF assms] u1 have "x \<in> dom h1" by (auto simp: unchanged_def)
  then obtain h2 where
    h2: "do { h1 \<leftarrow> set_next h1 x NULLP; set_prev h1 x NULLP } = Some h2" and "dom h2 = dom h1"
    and gn: "\<And>q. get_next h2 q = (if q = x then Some NULLP else get_next h1 q)"
    and gp: "\<And>q. get_prev h2 q = (if q = x then Some NULLP else get_prev h1 q)"
    by (rule store_node_effect) blast
  then have u2: "unchanged {x} h1 h2" by (intro unchangedI) auto
  have "klist h2 head (as @ bs)" using k1 klist_frame [OF u2] x by simp
  moreover have "h2 x = Some \<lparr>nxt = NULLP, prv = NULLP\<rparr>"
    using gn [of x] gp [of x] by (auto simp: get_next_def get_prev_def)
  moreover have "unchanged (insert x (insert head (set (as @ bs)))) h h2"
    by (rule unchanged_trans [OF u1 u2]) auto
  ultimately show ?thesis using h1 h2 by (simp add: list_del_def)
qed

lemma list_del_init_removes:
  assumes "klist h head (as @ x # bs)"
  shows "\<exists>h'. list_del_init h x = Some h' \<and> klist h' head (as @ bs) \<and> klist h' x [] \<and>
           unchanged (insert x (insert head (set (as @ bs)))) h h'"
proof -
  from klist_distinct [OF assms] have x: "x \<notin> insert head (set (as @ bs))" by auto
  from assms obtain p n h1 where
    h1: "get_prev h x = Some p" "get_next h x = Some n" "unlink_between h p n = Some h1"
    and k1: "klist h1 head (as @ bs)" and u1: "unchanged (insert head (set (as @ bs))) h h1"
    by (rule klist_unlink)
  from klist_dom [OF assms] u1 have "x \<in> dom h1" by (auto simp: unchanged_def)
  then obtain h2 where h2: "INIT_LIST_HEAD h1 x = Some h2" and "dom h2 = dom h1"
    and gn: "\<And>q. get_next h2 q = (if q = x then Some x else get_next h1 q)"
    and gp: "\<And>q. get_prev h2 q = (if q = x then Some x else get_prev h1 q)"
    unfolding INIT_LIST_HEAD_def by (rule store_node_effect) blast
  then have u2: "unchanged {x} h1 h2" by (intro unchangedI) auto
  have "klist h2 head (as @ bs)" using k1 klist_frame [OF u2] x by simp
  moreover have "klist h2 x []" by (simp add: klist_def cyc_def linked_def gn gp)
  moreover have "unchanged (insert x (insert head (set (as @ bs)))) h h2"
    by (rule unchanged_trans [OF u1 u2]) auto
  ultimately show ?thesis using h1 h2 by (simp add: list_del_init_def)
qed

lemma INIT_LIST_HEAD_empty:
  assumes "head \<in> dom h"
  shows "\<exists>h'. INIT_LIST_HEAD h head = Some h' \<and> klist h' head [] \<and> unchanged {head} h h'"
proof -
  from assms obtain h' where h': "INIT_LIST_HEAD h head = Some h'" and d: "dom h' = dom h"
    and gn: "\<And>q. get_next h' q = (if q = head then Some head else get_next h q)"
    and gp: "\<And>q. get_prev h' q = (if q = head then Some head else get_prev h q)"
    unfolding INIT_LIST_HEAD_def by (rule store_node_effect) blast
  have "unchanged {head} h h'" by (rule unchangedI) (use d gn gp in auto)
  moreover have "klist h' head []" by (simp add: klist_def cyc_def linked_def gn gp)
  ultimately show ?thesis using h' by blast
qed

lemma list_empty_iff: "klist h head xs \<Longrightarrow> list_empty h head = Some (xs = [])"
  by (cases xs) (auto simp: list_empty_def klist_head_next dest: klist_distinct)

text \<open>
  \<^verbatim>\<open>list_move\<close> and \<^verbatim>\<open>list_move_tail\<close> take an entry out of its list and put it at the
  front, or at the back, of another list; the rest of both lists keeps its order.
\<close>

lemma list_move_between:
  assumes "klist h src (as @ x # bs)" and "klist h dst ys"
    and "set (src # as @ x # bs) \<inter> set (dst # ys) = {}"
  shows "\<exists>h'. list_move h x dst = Some h' \<and> klist h' src (as @ bs) \<and> klist h' dst (x # ys)"
    and "\<exists>h'. list_move_tail h x dst = Some h' \<and> klist h' src (as @ bs) \<and> klist h' dst (ys @ [x])"
proof -
  from klist_distinct [OF assms(1)] have x: "x \<notin> insert src (set (as @ bs))" by auto
  from assms(1) obtain p n h1 where
    h1: "get_prev h x = Some p" "get_next h x = Some n" "unlink_between h p n = Some h1"
    and k1: "klist h1 src (as @ bs)" and u1: "unchanged (insert src (set (as @ bs))) h h1"
    by (rule klist_unlink)
  have d1: "klist h1 dst ys" by (subst klist_frame [OF u1]) (use assms(2,3) in auto)
  from klist_dom [OF assms(1)] u1 have xd: "x \<in> dom h1" by (auto simp: unchanged_def)
  have xn: "x \<notin> insert dst (set ys)" using assms(3) by auto
  have keep: "klist h2 src (as @ bs)" if "unchanged (insert x (insert dst (set ys))) h1 h2" for h2
    using k1 klist_frame [OF that] x assms(3) by auto
  show "\<exists>h'. list_move h x dst = Some h' \<and> klist h' src (as @ bs) \<and> klist h' dst (x # ys)"
    using list_add_front [OF d1 xd xn] keep h1 by (auto simp: list_move_def)
  show "\<exists>h'. list_move_tail h x dst = Some h' \<and> klist h' src (as @ bs) \<and> klist h' dst (ys @ [x])"
    using list_add_tail_back [OF d1 xd xn] keep h1 by (auto simp: list_move_tail_def)
qed

lemma list_move_within:
  assumes "klist h head (as @ x # bs)"
  shows "\<exists>h'. list_move h x head = Some h' \<and> klist h' head (x # as @ bs)"
    and "\<exists>h'. list_move_tail h x head = Some h' \<and> klist h' head ((as @ bs) @ [x])"
proof -
  from klist_distinct [OF assms] have x: "x \<notin> insert head (set (as @ bs))" by auto
  from assms obtain p n h1 where
    h1: "get_prev h x = Some p" "get_next h x = Some n" "unlink_between h p n = Some h1"
    and k1: "klist h1 head (as @ bs)" and u1: "unchanged (insert head (set (as @ bs))) h h1"
    by (rule klist_unlink)
  from klist_dom [OF assms] u1 have xd: "x \<in> dom h1" by (auto simp: unchanged_def)
  show "\<exists>h'. list_move h x head = Some h' \<and> klist h' head (x # as @ bs)"
    using list_add_front [OF k1 xd x] h1 by (auto simp: list_move_def)
  show "\<exists>h'. list_move_tail h x head = Some h' \<and> klist h' head ((as @ bs) @ [x])"
    using list_add_tail_back [OF k1 xd x] h1 by (auto simp: list_move_tail_def)
qed

lemma splice_after_effect:
  assumes "get_next h l = Some first" "get_prev h l = Some final" "get_next h head = Some at"
    and "first \<in> dom h" "final \<in> dom h" "at \<in> dom h" and "final \<noteq> head" "first \<noteq> at"
  obtains h' where "splice_after h l head = Some h'" and "dom h' = dom h"
    and "\<And>q. get_next h' q = (if q = final then Some at else if q = head then Some first else get_next h q)"
    and "\<And>q. get_prev h' q = (if q = at then Some final else if q = first then Some head else get_prev h q)"
proof -
  obtain h1 where h1: "set_prev h first head = Some h1"
    using assms by (cases "set_prev h first head") auto
  note e1 = set_prev_effect [OF h1]
  have "head \<in> dom h" using assms(3) by (metis get_next_None option.distinct(1))
  then obtain h2 where h2: "set_next h1 head first = Some h2"
    using e1 by (cases "set_next h1 head first") auto
  note e2 = set_next_effect [OF h2]
  obtain h3 where h3: "set_next h2 final at = Some h3"
    using assms e1 e2 by (cases "set_next h2 final at") auto
  note e3 = set_next_effect [OF h3]
  obtain h4 where h4: "set_prev h3 at final = Some h4"
    using assms e1 e2 e3 by (cases "set_prev h3 at final") auto
  note e4 = set_prev_effect [OF h4]
  show ?thesis
    by (rule that [of h4])
      (use assms e1 e2 e3 e4 in \<open>simp_all add: splice_after_def h1 h2 h3 h4\<close>)
qed

lemma splice_cyc:
  assumes src: "klist h l ys" "ys \<noteq> []" and dst: "klist h head xs"
    and disj: "set (l # ys) \<inter> set (head # xs) = {}"
  shows "\<exists>h'. splice_after h l head = Some h' \<and> klist h' head (ys @ xs) \<and>
           unchanged (set ys \<union> insert head (set xs)) h h'"
proof -
  let ?at = "hd (xs @ [head])"
  have mem: "hd ys \<in> set ys" "last ys \<in> set ys" "?at \<in> insert head (set xs)"
    using src(2) by (auto simp: hd_append)
  have dist: "distinct (l # ys)" "distinct (head # xs)"
    using klist_distinct [OF src(1)] klist_distinct [OF dst] by simp_all
  have gets: "get_next h l = Some (hd ys)" "get_prev h l = Some (last ys)"
      "get_next h head = Some ?at"
    using klist_head_next [OF src(1)] klist_head_prev [OF src(1)] klist_head_next [OF dst] src(2)
    by simp_all
  have doms: "hd ys \<in> dom h" "last ys \<in> dom h" "?at \<in> dom h"
    using mem klist_dom [OF src(1)] klist_dom [OF dst] by blast+
  have neq: "last ys \<noteq> head" "hd ys \<noteq> ?at" using mem disj by auto
  obtain h' where h': "splice_after h l head = Some h'" and d: "dom h' = dom h"
    and gn: "\<And>q. get_next h' q = (if q = last ys then Some ?at else if q = head then Some (hd ys) else get_next h q)"
    and gp: "\<And>q. get_prev h' q = (if q = ?at then Some (last ys) else if q = hd ys then Some head else get_prev h q)"
    by (rule splice_after_effect [OF gets doms(1,2,3) neq]) blast
  have off: "?at \<notin> set ys" "hd ys \<notin> set (xs @ [head])" "head \<notin> set ys" "last ys \<notin> set xs"
    using mem disj by auto
  have "chain h' ys = chain h ys"
    by (rule chain_frame) (use src(2) dist(1) off
        in \<open>auto simp: gn gp last_notin_butlast hd_notin_tl dest: set_tl_butlast\<close>)
  then have "chain h' ys"
    using chain_init [of h "l # ys"] src by (cases ys) (auto simp: klist_def)
  then have ys: "chain h' (ys @ [?at])"
    by (intro chain_close) (use src(2) off in \<open>auto simp: linked_def gn gp\<close>)
  have "\<forall>q \<in> set (tl (xs @ [head])). q \<noteq> ?at \<and> q \<noteq> hd ys"
    using hd_notin_tl [of "xs @ [head]"] dist(2) off(2) set_tl_butlast(1) by fastforce
  then have "chain h' (xs @ [head]) = chain h (xs @ [head])"
    by (intro chain_frame) (use dist(2) off in \<open>auto simp: gn gp\<close>)
  then have xs: "chain h' (xs @ [head])"
    using chain_init [of h "xs @ [head]"] cyc_rotate [of h head xs] dst by (simp add: klist_def)
  have "chain h' (ys @ xs @ [head])"
    using chain_append [of h' ys ?at "tl (xs @ [head])"] ys xs by (cases xs) auto
  moreover have "linked h' head (hd ys)" using src(2) off mem by (auto simp: linked_def gn gp)
  ultimately have "klist h' head (ys @ xs)"
    using dist disj src(2) by (cases ys) (auto simp: klist_def cyc_def)
  moreover have "unchanged (set ys \<union> insert head (set xs)) h h'"
    by (rule unchangedI) (use d mem in \<open>auto simp: gn gp\<close>)
  ultimately show ?thesis using h' by blast
qed

text \<open>
  \<^verbatim>\<open>list_splice_init\<close> moves all entries of one list, in their order, to the front of
  another and leaves the first list empty; an empty first list changes nothing else.
\<close>

lemma list_splice_init_joins:
  assumes src: "klist h l ys" and dst: "klist h head xs"
    and disj: "set (l # ys) \<inter> set (head # xs) = {}"
  shows "\<exists>h'. list_splice_init h l head = Some h' \<and> klist h' head (ys @ xs) \<and> klist h' l []"
proof (cases "ys = []")
  case True
  then show ?thesis using assms by (simp add: list_splice_init_def list_empty_iff [OF src])
next
  case False
  from splice_cyc [OF src False dst disj] obtain h1 where
    h1: "splice_after h l head = Some h1" and k1: "klist h1 head (ys @ xs)"
    and u1: "unchanged (set ys \<union> insert head (set xs)) h h1" by blast
  from klist_dom [OF src] u1 have "l \<in> dom h1" by (auto simp: unchanged_def)
  then obtain h2 where h2: "INIT_LIST_HEAD h1 l = Some h2" "klist h2 l []" and u2: "unchanged {l} h1 h2"
    using INIT_LIST_HEAD_empty by blast
  have "klist h2 head (ys @ xs)"
    using k1 klist_frame [OF u2] disj klist_distinct [OF src] by auto
  with False h1 h2 show ?thesis by (simp add: list_splice_init_def list_empty_iff [OF src])
qed

lemma list_splice_joins:
  assumes "klist h l ys" and "klist h head xs" and "set (l # ys) \<inter> set (head # xs) = {}"
  shows "\<exists>h'. list_splice h l head = Some h' \<and> klist h' head (ys @ xs)"
  using splice_cyc [OF assms(1) _ assms(2,3)] assms(2)
  by (cases "ys = []") (auto simp: list_splice_def list_empty_iff [OF assms(1)])

section \<open>Traversal\<close>

declare walk_next.simps [code] walk_prev.simps [code] walk_safe.simps [code]

lemma walk_next_head [simp]: "walk_next h head head = Some []"
  by (simp add: walk_next.simps)

lemma walk_prev_head [simp]: "walk_prev h head head = Some []"
  by (simp add: walk_prev.simps)

lemma walk_safe_head [simp]: "walk_safe body h head n head = Some h"
  by (simp add: walk_safe.simps)

lemma walk_next_step:
  "pos \<noteq> head \<Longrightarrow> walk_next h pos head =
     do { n \<leftarrow> get_next h pos; r \<leftarrow> walk_next h n head; Some (pos # r) }"
  by (simp add: walk_next.simps [of h pos])

lemma walk_prev_step:
  "pos \<noteq> head \<Longrightarrow> walk_prev h pos head =
     do { p \<leftarrow> get_prev h pos; r \<leftarrow> walk_prev h p head; Some (pos # r) }"
  by (simp add: walk_prev.simps [of h pos])

lemma walk_safe_step:
  "pos \<noteq> head \<Longrightarrow> walk_safe body h pos n head =
     do { h1 \<leftarrow> body h pos; n1 \<leftarrow> get_next h1 n; walk_safe body h1 n n1 head }"
  by (simp add: walk_safe.simps [of body h pos])

lemma walk_next_chain:
  "chain h (as @ [head]) \<Longrightarrow> head \<notin> set as \<Longrightarrow> walk_next h (hd (as @ [head])) head = Some as"
proof (induction as)
  case (Cons a as)
  then have "get_next h a = Some (hd (as @ [head]))" and "chain h (as @ [head])"
    by (cases as; simp add: linked_def)+
  with Cons show ?case by (auto simp: walk_next_step)
qed simp

lemma walk_prev_chain:
  "chain h (head # as) \<Longrightarrow> head \<notin> set as \<Longrightarrow> walk_prev h (last (head # as)) head = Some (rev as)"
proof (induction as rule: rev_induct)
  case (snoc a as)
  then have "chain h (head # as)" and "linked h (last (head # as)) a"
    using chain_snoc [of "head # as" h a] by simp_all
  with snoc show ?case by (auto simp: walk_prev_step linked_def)
qed simp

text \<open>
  on a well-formed list \<^verbatim>\<open>list_for_each\<close> and \<^verbatim>\<open>list_for_each_prev\<close> stop and visit
  every entry once, the first in list order and the second in reverse order.
\<close>

lemma traversal_visits_all:
  assumes "klist h head xs"
  shows "list_for_each h head = Some xs" and "list_for_each_prev h head = Some (rev xs)"
proof -
  have "chain h (xs @ [head])" and "chain h (head # xs)"
    using assms chain_init [of h "xs @ [head]"] chain_init [of h "head # xs"] cyc_rotate [of h head xs]
    by (simp_all add: klist_def)
  moreover have "head \<notin> set xs" using klist_distinct [OF assms] by simp
  ultimately show "list_for_each h head = Some xs" and "list_for_each_prev h head = Some (rev xs)"
    using walk_next_chain walk_prev_chain
    by (simp_all add: list_for_each_def list_for_each_prev_def klist_head_next [OF assms]
        klist_head_prev [OF assms])
qed

lemma klist_next_of_first:
  "klist h head (x # xs) \<Longrightarrow> get_next h x = Some (hd (xs @ [head]))"
  by (cases xs) (auto simp: klist_def cyc_def linked_def)

lemma walk_safe_del:
  assumes "klist h head xs" and "get_next h (hd (xs @ [head])) = Some n"
  shows "\<exists>h'. walk_safe list_del h (hd (xs @ [head])) n head = Some h' \<and> klist h' head [] \<and>
           (\<forall>x \<in> set xs. h' x = Some \<lparr>nxt = NULLP, prv = NULLP\<rparr>) \<and>
           unchanged (insert head (set xs)) h h'"
  using assms
proof (induction xs arbitrary: h n)
  case Nil
  then show ?case by simp
next
  case (Cons x xs)
  from klist_distinct [OF Cons.prems(1)] have x: "x \<noteq> head" "x \<notin> set xs" by auto
  from list_del_removes [of h head "[]" x xs] Cons.prems(1) obtain h1 where
    h1: "list_del h x = Some h1" "klist h1 head xs" "h1 x = Some \<lparr>nxt = NULLP, prv = NULLP\<rparr>"
    and u1: "unchanged (insert x (insert head (set xs))) h h1" by auto
  have n: "n = hd (xs @ [head])"
    using klist_next_of_first [OF Cons.prems(1)] Cons.prems(2) by simp
  from klist_dom [OF h1(2)] have "hd (xs @ [head]) \<in> dom h1" by (cases xs) auto
  then obtain n1 where n1: "get_next h1 n = Some n1" by (auto simp: n get_next_def)
  from Cons.IH [OF h1(2)] n1 obtain h' where
    h': "walk_safe list_del h1 (hd (xs @ [head])) n1 head = Some h'" "klist h' head []"
      "\<forall>y \<in> set xs. h' y = Some \<lparr>nxt = NULLP, prv = NULLP\<rparr>"
    and u2: "unchanged (insert head (set xs)) h1 h'" by (auto simp: n)
  have "h' x = h1 x" using u2 x by (simp add: unchanged_def)
  moreover have "unchanged (insert head (set (x # xs))) h h'"
    by (rule unchanged_trans [OF u1 u2]) auto
  moreover have "walk_safe list_del h x n head = Some h'"
    using h1(1) h'(1) n1 x(1) by (simp add: walk_safe_step n)
  ultimately show ?case using h' h1(3) by auto
qed

text \<open>
  \<^verbatim>\<open>list_for_each_safe\<close> with a body that deletes the current entry visits every entry,
  never follows a pointer of a deleted one, and ends with an empty list.
\<close>

lemma for_each_safe_deletes_all:
  assumes "klist h head xs"
  shows "\<exists>h'. list_for_each_safe list_del h head = Some h' \<and> klist h' head [] \<and>
           (\<forall>x \<in> set xs. h' x = Some \<lparr>nxt = NULLP, prv = NULLP\<rparr>) \<and>
           unchanged (insert head (set xs)) h h'"
proof -
  from klist_dom [OF assms] have "hd (xs @ [head]) \<in> dom h" by (cases xs) auto
  then obtain n where n: "get_next h (hd (xs @ [head])) = Some n" by (auto simp: get_next_def)
  then show ?thesis
    using walk_safe_del [OF assms n]
    by (simp add: list_for_each_safe_def klist_head_next [OF assms])
qed

lemma list_entry_member [simp]: "list_entry (p + off) off = p"
  by (simp add: list_entry_def)

text \<open>The entry macros are the node macros seen through \<open>list_entry\<close>.\<close>

lemma list_entry_plus [simp]: "list_entry p off + off = p"
  by (simp add: list_entry_def)

lemma walk_entry_head [simp]: "walk_entry h off (list_entry head off) head = Some []"
  by (simp add: walk_entry.simps)

lemma walk_entry_chain:
  "chain h (as @ [head]) \<Longrightarrow> head \<notin> set as \<Longrightarrow>
     walk_entry h off (list_entry (hd (as @ [head])) off) head = Some (map (\<lambda>p. list_entry p off) as)"
proof (induction as)
  case (Cons a as)
  then have "get_next h a = Some (hd (as @ [head]))" and "chain h (as @ [head])"
    by (cases as; simp add: linked_def)+
  with Cons show ?case by (auto simp: walk_entry.simps [of h off "list_entry a off"])
qed simp

lemma list_for_each_entry_visits:
  assumes "klist h head xs"
  shows "list_for_each_entry h off head = Some (map (\<lambda>p. list_entry p off) xs)"
proof -
  have "chain h (xs @ [head])"
    using assms chain_init [of h "xs @ [head]"] cyc_rotate [of h head xs] by (simp add: klist_def)
  moreover have "head \<notin> set xs" using klist_distinct [OF assms] by simp
  ultimately show ?thesis
    using walk_entry_chain by (simp add: list_for_each_entry_def klist_head_next [OF assms])
qed

lemma walk_entry_safe_sound:
  "walk_entry_safe body h off pos n head = Some r \<Longrightarrow>
     walk_safe (\<lambda>h p. body h (list_entry p off)) h (pos + off) (n + off) head = Some r"
proof (erule walk_entry_safe.raw_induct
    [where P = "\<lambda>body h off pos n head r.
       walk_safe (\<lambda>h p. body h (list_entry p off)) h (pos + off) (n + off) head = Some r", rotated])
  fix walk body h off pos n head r
  assume IH: "\<And>body h off pos n head r. walk body h off pos n head = Some r \<Longrightarrow>
      walk_safe (\<lambda>h p. body h (list_entry p off)) h (pos + off) (n + off) head = Some r"
    and step: "(if pos + off = head then Some h
      else do { h1 \<leftarrow> body h pos; n1 \<leftarrow> get_next h1 (n + off); walk body h1 off n (list_entry n1 off) head })
      = Some r"
  show "walk_safe (\<lambda>h p. body h (list_entry p off)) h (pos + off) (n + off) head = Some r"
  proof (cases "pos + off = head")
    case False
    with step obtain h1 n1 where "body h pos = Some h1" "get_next h1 (n + off) = Some n1"
      "walk body h1 off n (list_entry n1 off) head = Some r"
      by (auto split: Option.bind_splits)
    with False IH [of body h1 off n "list_entry n1 off" head r] show ?thesis
      by (simp add: walk_safe_step)
  qed (use step in simp)
qed

lemma walk_entry_safe_complete:
  "walk_safe (\<lambda>h p. body h (list_entry p off)) h pos n head = Some r \<Longrightarrow>
     walk_entry_safe body h off (list_entry pos off) (list_entry n off) head = Some r"
proof -
  have "walk_safe b h pos n head = Some r \<Longrightarrow> b = (\<lambda>h p. body h (list_entry p off)) \<longrightarrow>
      walk_entry_safe body h off (list_entry pos off) (list_entry n off) head = Some r" for b
  proof (erule walk_safe.raw_induct
      [where P = "\<lambda>b h pos n head r. b = (\<lambda>h p. body h (list_entry p off)) \<longrightarrow>
         walk_entry_safe body h off (list_entry pos off) (list_entry n off) head = Some r", rotated])
    fix walk b h pos n head r
    assume IH: "\<And>b h pos n head r. walk b h pos n head = Some r \<Longrightarrow>
        b = (\<lambda>h p. body h (list_entry p off)) \<longrightarrow>
        walk_entry_safe body h off (list_entry pos off) (list_entry n off) head = Some r"
      and step: "(if pos = head then Some h
        else do { h1 \<leftarrow> b h pos; n1 \<leftarrow> get_next h1 n; walk b h1 n n1 head }) = Some r"
    show "b = (\<lambda>h p. body h (list_entry p off)) \<longrightarrow>
        walk_entry_safe body h off (list_entry pos off) (list_entry n off) head = Some r"
    proof (cases "pos = head")
      case True
      with step show ?thesis by (simp add: walk_entry_safe.simps)
    next
      case False
      with step obtain h1 n1 where "b h pos = Some h1" "get_next h1 n = Some n1" "walk b h1 n n1 head = Some r"
        by (auto split: Option.bind_splits)
      with False IH [of b h1 n n1 head r] show ?thesis
        by (auto simp: walk_entry_safe.simps [of body h off "list_entry pos off"])
    qed
  qed
  then show "walk_safe (\<lambda>h p. body h (list_entry p off)) h pos n head = Some r \<Longrightarrow>
      walk_entry_safe body h off (list_entry pos off) (list_entry n off) head = Some r" by blast
qed

section \<open>The head-insert interface\<close>

text \<open>
  What the peer list and the thread list need of \<^verbatim>\<open>list.h\<close>: adding at the front, and the
  two traversals. The laws are stated over an abstraction to HOL lists.
\<close>

fun add_all :: "('s \<Rightarrow> 'a \<Rightarrow> 's option) \<Rightarrow> 's \<Rightarrow> 'a list \<Rightarrow> 's option" where
  "add_all add s [] = Some s"
| "add_all add s (x # xs) = do { s1 \<leftarrow> add s x; add_all add s1 xs }"

locale front_list =
  fixes repr :: "'s \<Rightarrow> 'a list \<Rightarrow> bool"
    and add :: "'s \<Rightarrow> 'a \<Rightarrow> 's option"
    and forward :: "'s \<Rightarrow> 'a list option"
    and backward :: "'s \<Rightarrow> 'a list option"
    and usable :: "'s \<Rightarrow> 'a \<Rightarrow> bool"
  assumes add_law: "repr s xs \<Longrightarrow> usable s x \<Longrightarrow> x \<notin> set xs \<Longrightarrow>
      \<exists>s'. add s x = Some s' \<and> repr s' (x # xs) \<and> (\<forall>y. usable s' y = usable s y)"
    and forward_law: "repr s xs \<Longrightarrow> forward s = Some xs"
    and backward_law: "repr s xs \<Longrightarrow> backward s = Some (rev xs)"
begin

lemma add_all_repr:
  assumes "repr s xs" and "distinct ys" and "set ys \<inter> set xs = {}" and "\<forall>y \<in> set ys. usable s y"
  shows "\<exists>s'. add_all add s ys = Some s' \<and> repr s' (rev ys @ xs)"
  using assms
proof (induction ys arbitrary: s xs)
  case (Cons y ys)
  from add_law [of s xs y] Cons.prems obtain s1 where
    "add s y = Some s1" "repr s1 (y # xs)" "\<forall>z. usable s1 z = usable s z" by auto
  with Cons.IH [of s1 "y # xs"] Cons.prems show ?case by auto
qed simp

lemma add_all_order:
  assumes "repr s []" and "distinct ys" and "\<forall>y \<in> set ys. usable s y"
  shows "\<exists>s'. add_all add s ys = Some s' \<and> backward s' = Some ys \<and> forward s' = Some (rev ys)"
  using add_all_repr [of s "[]" ys] assms backward_law forward_law by fastforce

end

interpretation klist_front: front_list
  "\<lambda>h xs. klist h head xs" "\<lambda>h x. list_add h x head" "\<lambda>h. list_for_each h head"
  "\<lambda>h. list_for_each_prev h head" "\<lambda>h x. x \<in> dom h \<and> x \<noteq> head" for head
proof (unfold_locales)
  fix h xs x
  assume k: "klist h head xs" and "x \<in> dom h \<and> x \<noteq> head" and "x \<notin> set xs"
  then have x: "x \<in> dom h" "x \<notin> insert head (set xs)" by auto
  from list_add_front [OF k x] show "\<exists>h'. list_add h x head = Some h' \<and> klist h' head (x # xs) \<and>
      (\<forall>y. (y \<in> dom h' \<and> y \<noteq> head) = (y \<in> dom h \<and> y \<noteq> head))"
    by (auto simp: unchanged_def)
qed (simp_all add: traversal_visits_all)


section \<open>Properties\<close>

text \<open>
  A heap with a list of two entries at 1, a list of one entry at 10, and an unlinked node.
\<close>

definition sample_heap :: heap where
  "sample_heap = [1 \<mapsto> \<lparr>nxt = 2, prv = 3\<rparr>, 2 \<mapsto> \<lparr>nxt = 3, prv = 1\<rparr>, 3 \<mapsto> \<lparr>nxt = 1, prv = 2\<rparr>,
     10 \<mapsto> \<lparr>nxt = 11, prv = 11\<rparr>, 11 \<mapsto> \<lparr>nxt = 10, prv = 10\<rparr>, 20 \<mapsto> \<lparr>nxt = 0, prv = 0\<rparr>]"

lemma sample_lists [simp]:
  "klist sample_heap 1 [2, 3]" "klist sample_heap 10 [11]" "20 \<in> dom sample_heap"
  by (simp_all add: sample_heap_def klist_def cyc_def linked_def get_next_def get_prev_def)

text \<open>
  C34: \<^verbatim>\<open>list_add\<close> puts a new entry right after the head, \<^verbatim>\<open>list_add_tail\<close> right before it; both
  succeed on every well-formed list, keep it well formed and touch no other node.
\<close>

theorem list_insert_correct:
  assumes "klist h head xs" and "new \<in> dom h" and "new \<notin> insert head (set xs)"
  shows "(\<exists>h'. list_add h new head = Some h' \<and> klist h' head (new # xs) \<and>
            unchanged (insert new (insert head (set xs))) h h') \<and>
         (\<exists>h'. list_add_tail h new head = Some h' \<and> klist h' head (xs @ [new]) \<and>
            unchanged (insert new (insert head (set xs))) h h')"
  using list_add_front [OF assms] list_add_tail_back [OF assms] by blast

theorem list_insert_correct_witness:
  "(\<exists>h'. list_add sample_heap 20 1 = Some h' \<and> klist h' 1 [20, 2, 3]) \<and>
   (\<exists>h'. list_add_tail sample_heap 20 1 = Some h' \<and> klist h' 1 [2, 3, 20])"
  using list_insert_correct [of sample_heap 1 "[2, 3]" 20] by auto

text \<open>
  \<^verbatim>\<open>list_del\<close> and \<^verbatim>\<open>list_del_init\<close> take exactly the given entry out of the list it is in and
  keep the order of the others; the removed node holds null pointers after the first and is
  an empty list of its own after the second.
\<close>

theorem list_del_correct:
  assumes "klist h head (as @ x # bs)"
  shows "(\<exists>h'. list_del h x = Some h' \<and> klist h' head (as @ bs) \<and>
            h' x = Some \<lparr>nxt = NULLP, prv = NULLP\<rparr> \<and>
            unchanged (insert x (insert head (set (as @ bs)))) h h') \<and>
         (\<exists>h'. list_del_init h x = Some h' \<and> klist h' head (as @ bs) \<and> klist h' x [] \<and>
            unchanged (insert x (insert head (set (as @ bs)))) h h')"
  using list_del_removes [OF assms] list_del_init_removes [OF assms] by blast

theorem list_del_correct_witness:
  "(\<exists>h'. list_del sample_heap 2 = Some h' \<and> klist h' 1 [3]) \<and>
   (\<exists>h'. list_del_init sample_heap 2 = Some h' \<and> klist h' 1 [3] \<and> klist h' 2 [])"
  using list_del_correct [of sample_heap 1 "[]" 2 "[3]"] by auto

text \<open>
  \<^verbatim>\<open>list_move\<close> and \<^verbatim>\<open>list_move_tail\<close> take an entry out of its list and put it at the front,
  or at the back, of another list; both lists stay well formed.
\<close>

theorem list_move_correct:
  assumes "klist h src (as @ x # bs)" and "klist h dst ys"
    and "set (src # as @ x # bs) \<inter> set (dst # ys) = {}"
  shows "(\<exists>h'. list_move h x dst = Some h' \<and> klist h' src (as @ bs) \<and> klist h' dst (x # ys)) \<and>
         (\<exists>h'. list_move_tail h x dst = Some h' \<and> klist h' src (as @ bs) \<and> klist h' dst (ys @ [x]))"
  using list_move_between [OF assms] by blast

theorem list_move_correct_witness:
  "(\<exists>h'. list_move sample_heap 2 10 = Some h' \<and> klist h' 1 [3] \<and> klist h' 10 [2, 11]) \<and>
   (\<exists>h'. list_move_tail sample_heap 2 10 = Some h' \<and> klist h' 1 [3] \<and> klist h' 10 [11, 2])"
  using list_move_correct [of sample_heap 1 "[]" 2 "[3]" 10 "[11]"] by simp

text \<open>
  \<^verbatim>\<open>list_splice\<close> and \<^verbatim>\<open>list_splice_init\<close> put all entries of one list, in their order, in
  front of those of another; the second one leaves the emptied list well formed.
\<close>

theorem list_splice_correct:
  assumes "klist h l ys" and "klist h head xs" and "set (l # ys) \<inter> set (head # xs) = {}"
  shows "(\<exists>h'. list_splice h l head = Some h' \<and> klist h' head (ys @ xs)) \<and>
         (\<exists>h'. list_splice_init h l head = Some h' \<and> klist h' head (ys @ xs) \<and> klist h' l [])"
  using list_splice_joins [OF assms] list_splice_init_joins [OF assms] by blast

theorem list_splice_correct_witness:
  "(\<exists>h'. list_splice sample_heap 1 10 = Some h' \<and> klist h' 10 [2, 3, 11]) \<and>
   (\<exists>h'. list_splice_init sample_heap 1 10 = Some h' \<and> klist h' 10 [2, 3, 11] \<and> klist h' 1 [])"
  using list_splice_correct [of sample_heap 1 "[2, 3]" 10 "[11]"] by simp

text \<open>
  C35: on a well-formed list the traversal macros stop and visit every entry exactly once,
  \<^verbatim>\<open>list_for_each\<close> and \<^verbatim>\<open>list_for_each_entry\<close> in list order, \<^verbatim>\<open>list_for_each_prev\<close> in reverse.
\<close>

theorem list_traversal_correct:
  assumes "klist h head xs"
  shows "list_for_each h head = Some xs \<and> list_for_each_prev h head = Some (rev xs) \<and>
         list_for_each_entry h off head = Some (map (\<lambda>p. list_entry p off) xs)"
  using traversal_visits_all [OF assms] list_for_each_entry_visits [OF assms] by simp

theorem list_traversal_correct_witness:
  "list_for_each sample_heap 1 = Some [2, 3] \<and> list_for_each_prev sample_heap 1 = Some [3, 2] \<and>
   list_for_each_entry sample_heap 0 1 = Some [2, 3]"
  using list_traversal_correct [of sample_heap 1 "[2, 3]" 0] by (simp add: list_entry_def)

text \<open>
  \<^verbatim>\<open>list_for_each_safe\<close> with a body that deletes the current entry visits every entry,
  never follows a pointer of a deleted one, and ends with an empty list.
\<close>

theorem list_for_each_safe_deletes:
  assumes "klist h head xs"
  shows "\<exists>h'. list_for_each_safe list_del h head = Some h' \<and> klist h' head [] \<and>
           (\<forall>x \<in> set xs. h' x = Some \<lparr>nxt = NULLP, prv = NULLP\<rparr>) \<and>
           unchanged (insert head (set xs)) h h'"
  by (rule for_each_safe_deletes_all [OF assms])

theorem list_for_each_safe_deletes_witness:
  "\<exists>h'. list_for_each_safe list_del sample_heap 1 = Some h' \<and> klist h' 1 [] \<and>
     h' 2 = Some \<lparr>nxt = 0, prv = 0\<rparr>"
  using list_for_each_safe_deletes [of sample_heap 1 "[2, 3]"] by auto

text \<open>
  \<^verbatim>\<open>list_for_each_entry_safe\<close> is \<^verbatim>\<open>list_for_each_safe\<close> with the body run on the structure
  around each node: for every body, heap and offset the two stop together with the same heap.
\<close>

theorem list_for_each_entry_safe_eq:
  "list_for_each_entry_safe body h off head = list_for_each_safe (\<lambda>h p. body h (list_entry p off)) h head"
proof -
  have "walk_entry_safe body h off (list_entry p off) (list_entry n off) head =
      walk_safe (\<lambda>h p. body h (list_entry p off)) h p n head" for p n
    using walk_entry_safe_sound [of body h off "list_entry p off" "list_entry n off" head]
      walk_entry_safe_complete [of body off h p n head] by (metis list_entry_plus not_None_eq)
  then show ?thesis by (simp add: list_for_each_entry_safe_def list_for_each_safe_def)
qed

end
