(* ===== verification/Process.thy ===== *)
theory Process
  imports Klist
begin

text \<open>
  The process around the traffic: messages and fatal errors (\<^verbatim>\<open>die\<close>, \<^verbatim>\<open>debug\<close>), the command
  line, signals, and the thread list of \<^verbatim>\<open>util.c\<close>. What \<^verbatim>\<open>getopt\<close> finds, the addresses
  \<^verbatim>\<open>malloc\<close> gives and what was in that memory are parameters.
\<close>

section \<open>Settings and messages\<close>

record settings =
  config_file :: string
  cpu_available :: int
  dbg :: int
  run :: int
  running :: int

datatype message = Perror string | Stdout string

text \<open>\<^verbatim>\<open>debug\<close> prints when the global level is at least the message's.\<close>

definition debug_msg :: "settings \<Rightarrow> int \<Rightarrow> string \<Rightarrow> message list" where
  "debug_msg g level s = (if level \<le> dbg g then [Stdout s] else [])"

definition colour :: string where "colour = [CHR 27] @ ''[1;31m''"

text \<open>
  The message \<^verbatim>\<open>die\<close> builds: at most 244 characters of the formatted text after the colour
  sequence. It ends the process when its first argument is not 0.
\<close>

definition die_text :: "string \<Rightarrow> string" where
  "die_text why = colour @ take 244 why"

definition die :: "settings \<Rightarrow> int \<Rightarrow> string \<Rightarrow> message list \<times> unit res" where
  "die g really why =
     (if really \<noteq> 0 then (Perror (die_text why) # debug_msg g 4 (die_text why), Inl (Exit really))
      else (debug_msg g 4 (die_text why) @ [Perror (die_text why)], Inr ()))"

section \<open>Signals\<close>

definition SIGKILL :: int where "SIGKILL = 9"
definition SIGSEGV :: int where "SIGSEGV = 11"
definition SIGTERM :: int where "SIGTERM = 15"
definition SIGCHLD :: int where "SIGCHLD = 17"
definition SIGTTOU :: int where "SIGTTOU = 22"
definition SIGPROF :: int where "SIGPROF = 27"

lemmas signals = SIGKILL_def SIGSEGV_def SIGTERM_def SIGCHLD_def SIGTTOU_def SIGPROF_def

definition signal_handler :: "int \<Rightarrow> settings \<Rightarrow> message list \<times> settings res" where
  "signal_handler sig g =
     (if sig = SIGSEGV then
        (fst (die g 0xDEAD (''Of all the things I've lost I miss my mind the most.'' @ [CHR 7, CHR 10])), Inl (Exit 0xDEAD))
      else if sig = SIGKILL then (fst (die g 0xDEAD (''KILLED !!!'' @ [CHR 10])), Inl (Exit 0xDEAD))
      else if sig = SIGCHLD then ([Stdout (''Child process exited.'' @ [CHR 10])], Inr g)
      else if sig = SIGTERM then
        (debug_msg g 0 (''SIGTERM received. Termination signal will be sent to all threads.'' @ [CHR 10]), Inr (g\<lparr>run := 0\<rparr>))
      else if sig = SIGTTOU \<or> sig = SIGPROF then ([], Inr g)
      else (fst (die g 1 (''Houston We have a problem!!'' @ [CHR 10])), Inl (Exit 1)))"

section \<open>The command line\<close>

text \<open>\<^verbatim>\<open>atoi\<close>: blanks, a sign, digits up to the first other character.\<close>

definition is_space :: "char \<Rightarrow> bool" where
  "is_space c \<longleftrightarrow> of_char c \<in> {9, 10, 11, 12, 13, 32 :: nat}"

definition digit :: "char \<Rightarrow> int option" where
  "digit c = (let n = of_char c in if 48 \<le> n \<and> n \<le> 57 then Some (n - 48) else None)"

fun digits :: "int \<Rightarrow> string \<Rightarrow> int" where
  "digits acc [] = acc"
| "digits acc (c # cs) = (case digit c of None \<Rightarrow> acc | Some d \<Rightarrow> digits (10 * acc + d) cs)"

definition atoi :: "string \<Rightarrow> int" where
  "atoi s = (case dropWhile is_space s of
     [] \<Rightarrow> 0
   | c # cs \<Rightarrow> if c = CHR ''-'' then - digits 0 cs else if c = CHR ''+'' then digits 0 cs else digits 0 (c # cs))"

text \<open>What the calls of \<^verbatim>\<open>getopt\<close> return, in order, until it returns -1.\<close>

datatype opt = DebugLevel string | ConfigPath string | MissingArg | Help | Unknown

fun opt_loop :: "settings \<Rightarrow> opt list \<Rightarrow> int \<Rightarrow> (int \<times> settings) res" where
  "opt_loop g [] d = Inr (d, g)"
| "opt_loop g (DebugLevel s # os) d = opt_loop g os (atoi s)"
| "opt_loop g (ConfigPath s # os) d = opt_loop (g\<lparr>config_file := take 255 s\<rparr>) os d"
| "opt_loop g (MissingArg # os) d = Inl (Exit 1)"
| "opt_loop g (Help # os) d = opt_loop g os d"
| "opt_loop g (Unknown # os) d = Inl (Exit 1)"

definition parse_args :: "opt list \<Rightarrow> settings \<Rightarrow> settings res" where
  "parse_args os g =
     (case opt_loop g os 4 of
        Inl e \<Rightarrow> Inl e
      | Inr (d, g1) \<Rightarrow>
          (let g2 = g1\<lparr>dbg := d\<rparr> in if length (config_file g2) < 1 then Inl (Exit 1) else Inr g2))"

section \<open>The thread list\<close>

definition job_SUP :: int where "job_SUP = 100"
definition job_IO :: int where "job_IO = 200"
definition job_LBR :: int where "job_LBR = 300"

lemmas jobs = job_SUP_def job_IO_def job_LBR_def

text \<open>The offset of \<open>TL\<close> in \<^verbatim>\<open>struct thread_management\<close>.\<close>

definition TL_offset :: ptr where "TL_offset = 32"

record thread_management =
  tm_job :: int
  tm_id :: int

text \<open>
  The counters, the heap of list nodes with the address of \<^verbatim>\<open>MTL.TL\<close>, the structures, and the
  calls made to the thread library.
\<close>

datatype thread_call = Create int | Join int

record threads =
  gtc :: int
  supc :: int
  ioc :: int
  lbrc :: int
  nodes :: heap
  MTL :: ptr
  tms :: "ptr \<rightharpoonup> thread_management"
  calls :: "thread_call list"

definition of_list_op :: "heap option \<Rightarrow> threads \<Rightarrow> threads res" where
  "of_list_op r t = (case r of None \<Rightarrow> Inl (Fault NullDeref) | Some h \<Rightarrow> Inr (t\<lparr>nodes := h\<rparr>))"

definition init_thread_list :: "threads \<Rightarrow> threads res" where
  "init_thread_list t = of_list_op (INIT_LIST_HEAD (nodes t) (MTL t)) t"

definition add_to_thread_list :: "ptr \<Rightarrow> threads \<Rightarrow> threads res" where
  "add_to_thread_list tm t = of_list_op (list_add (nodes t) (tm + TL_offset) (MTL t)) t"

text \<open>
  \<open>new_thread\<close> with the address \<open>tm\<close> of the structure allocated, whose list node holds \<open>junk\<close>.
  The thread is created before the job is looked at, and a supervisor is waited for before it
  enters the list.
\<close>

definition new_thread :: "ptr \<Rightarrow> node \<Rightarrow> int \<Rightarrow> threads \<Rightarrow> threads res" where
  "new_thread tm junk job t =
     (let t1 = t\<lparr>nodes := (nodes t)(tm + TL_offset \<mapsto> junk),
                 tms := (tms t)(tm \<mapsto> \<lparr>tm_job = job, tm_id = gtc t\<rparr>),
                 gtc := gtc t + 1, calls := calls t @ [Create (gtc t)]\<rparr>
      in if job = job_SUP then add_to_thread_list tm (t1\<lparr>supc := supc t + 1, calls := calls t1 @ [Join (gtc t)]\<rparr>)
         else if job = job_IO then add_to_thread_list tm (t1\<lparr>ioc := ioc t + 1\<rparr>)
         else if job = job_LBR then add_to_thread_list tm (t1\<lparr>lbrc := lbrc t + 1\<rparr>)
         else Inl (Exit 1))"

text \<open>Several threads, each with the address of its structure.\<close>

fun new_threads :: "(ptr \<times> node \<times> int) list \<Rightarrow> threads \<Rightarrow> threads res" where
  "new_threads [] t = Inr t"
| "new_threads ((tm, junk, job) # rest) t =
     (case new_thread tm junk job t of Inl e \<Rightarrow> Inl e | Inr t1 \<Rightarrow> new_threads rest t1)"

section \<open>The peer list\<close>

text \<open>The offset of \<open>PL\<close> in \<^verbatim>\<open>struct peer_context\<close>.\<close>

definition PL_offset :: ptr where "PL_offset = 17616"

definition init_peer_list :: "heap \<Rightarrow> ptr \<Rightarrow> heap option" where
  "init_peer_list h MPL = INIT_LIST_HEAD h MPL"

definition add_to_peer_list :: "ptr \<Rightarrow> heap \<Rightarrow> ptr \<Rightarrow> heap option" where
  "add_to_peer_list pc h MPL = list_add h (pc + PL_offset) MPL"

text \<open>The peers in the order \<^verbatim>\<open>peer_list_dump\<close> prints them.\<close>

definition peer_list_dump :: "heap \<Rightarrow> ptr \<Rightarrow> ptr list option" where
  "peer_list_dump h MPL =
     map_option (\<lambda>ps. filter (\<lambda>p. p \<noteq> NULLP) (map (\<lambda>p. list_entry p PL_offset) ps)) (list_for_each h MPL)"

text \<open>The peers in the order both passes of \<^verbatim>\<open>enumerate_interfaces\<close> visit them.\<close>

definition peers_in_setup_order :: "heap \<Rightarrow> ptr \<Rightarrow> ptr list option" where
  "peers_in_setup_order h MPL =
     map_option (\<lambda>ps. map (\<lambda>p. list_entry p PL_offset) ps) (list_for_each_prev h MPL)"

fun add_peers :: "ptr list \<Rightarrow> heap \<Rightarrow> ptr \<Rightarrow> heap option" where
  "add_peers [] h MPL = Some h"
| "add_peers (pc # pcs) h MPL = do { h1 \<leftarrow> add_to_peer_list pc h MPL; add_peers pcs h1 MPL }"


section \<open>Lemmas\<close>

lemma opt_loop_result:
  "opt_loop g os d =
    (if MissingArg \<in> set os \<or> Unknown \<in> set os then Inl (Exit 1)
     else Inr (last (d # [atoi s. DebugLevel s \<leftarrow> os]),
       g\<lparr>config_file := last (config_file g # [take 255 s. ConfigPath s \<leftarrow> os])\<rparr>))"
  by (induction g os d rule: opt_loop.induct) auto

text \<open>The list nodes of the threads, and what a sequence of starts needs of its addresses.\<close>

definition tl_node :: "ptr \<Rightarrow> ptr" where "tl_node tm = tm + TL_offset"

definition threads_ok :: "threads \<Rightarrow> ptr list \<Rightarrow> bool" where
  "threads_ok t tml \<longleftrightarrow> klist (nodes t) (MTL t) (map tl_node tml) \<and> gtc t = supc t + ioc t + lbrc t"

lemma tl_node_inj [simp]: "tl_node a = tl_node b \<longleftrightarrow> a = b"
  by (simp add: tl_node_def)

lemma new_thread_ok:
  assumes "threads_ok t tml" and "tl_node tm \<noteq> MTL t" and "tm \<notin> set tml" and "job \<in> {job_SUP, job_IO, job_LBR}"
  shows "\<exists>t'. new_thread tm junk job t = Inr t' \<and> threads_ok t' (tm # tml) \<and> MTL t' = MTL t \<and>
    gtc t' = gtc t + 1 \<and> dom (nodes t) \<subseteq> dom (nodes t') \<and> tms t' = (tms t)(tm \<mapsto> \<lparr>tm_job = job, tm_id = gtc t\<rparr>)"
proof -
  let ?h = "(nodes t)(tm + TL_offset \<mapsto> junk)"
  have fresh: "tl_node tm \<notin> insert (MTL t) (set (map tl_node tml))" using assms(2,3) by auto
  have "klist ?h (MTL t) (map tl_node tml)"
  proof -
    have "cyc ?h (MTL t # map tl_node tml) = cyc (nodes t) (MTL t # map tl_node tml)"
      by (rule cyc_frame) (use fresh in \<open>auto simp: tl_node_def get_next_def get_prev_def\<close>)
    then show ?thesis using assms(1) by (simp add: threads_ok_def klist_def)
  qed
  from list_add_front [OF this _ fresh] obtain h' where
    "list_add ?h (tl_node tm) (MTL t) = Some h'" "klist h' (MTL t) (tl_node tm # map tl_node tml)" "dom h' = dom ?h"
    by (auto simp: tl_node_def unchanged_def)
  then show ?thesis
    using assms(1,4) by (auto simp: new_thread_def Let_def add_to_thread_list_def of_list_op_def
        threads_ok_def tl_node_def jobs)
qed

lemma new_threads_ok:
  assumes "threads_ok t tml" and "distinct (map fst specs)" and "set (map fst specs) \<inter> set tml = {}"
    and "\<forall>(tm, junk, job) \<in> set specs. tl_node tm \<noteq> MTL t \<and> job \<in> {job_SUP, job_IO, job_LBR}"
  shows "\<exists>t'. new_threads specs t = Inr t' \<and> threads_ok t' (rev (map fst specs) @ tml) \<and> MTL t' = MTL t \<and>
    gtc t' = gtc t + int (length specs) \<and>
    (\<forall>i < length specs. tms t' (fst (specs ! i)) =
       Some \<lparr>tm_job = snd (snd (specs ! i)), tm_id = gtc t + int i\<rparr>) \<and>
    (\<forall>tm. tm \<notin> set (map fst specs) \<longrightarrow> tms t' tm = tms t tm)"
  using assms
proof (induction specs arbitrary: t tml)
  case (Cons s specs)
  obtain tm junk job where s: "s = (tm, junk, job)" by (cases s) auto
  from new_thread_ok [of t tml tm job junk] Cons.prems s obtain t1 where
    t1: "new_thread tm junk job t = Inr t1" "threads_ok t1 (tm # tml)" "MTL t1 = MTL t" "gtc t1 = gtc t + 1"
      "tms t1 = (tms t)(tm \<mapsto> \<lparr>tm_job = job, tm_id = gtc t\<rparr>)" by auto
  from Cons.IH [OF t1(2)] Cons.prems s t1(3) obtain t' where
    t': "new_threads specs t1 = Inr t'" "threads_ok t' (rev (map fst specs) @ tm # tml)" "MTL t' = MTL t1"
      "gtc t' = gtc t1 + int (length specs)"
      "\<forall>i < length specs. tms t' (fst (specs ! i)) =
         Some \<lparr>tm_job = snd (snd (specs ! i)), tm_id = gtc t1 + int i\<rparr>"
      "\<forall>tm. tm \<notin> set (map fst specs) \<longrightarrow> tms t' tm = tms t1 tm" by auto
  have "tms t' tm = Some \<lparr>tm_job = job, tm_id = gtc t\<rparr>" using t'(6) t1(5) Cons.prems(2) s by simp
  then have "\<forall>i < length (s # specs). tms t' (fst ((s # specs) ! i)) =
       Some \<lparr>tm_job = snd (snd ((s # specs) ! i)), tm_id = gtc t + int i\<rparr>"
    using t'(5) t1(4) s by (auto simp: nth_Cons split: nat.split)
  then show ?case using t1 t' s by simp
qed simp

lemma add_peers_add_all:
  "add_peers pcs h MPL = add_all (\<lambda>h x. list_add h x MPL) h (map (\<lambda>pc. pc + PL_offset) pcs)"
  by (induction pcs arbitrary: h) (auto simp: add_to_peer_list_def split: Option.bind_split)

section \<open>Properties\<close>

text \<open>
  The command line. A missing argument or an unknown option ends the program; otherwise the
  last \<^verbatim>\<open>-c\<close> counts, cut to the 255 characters the buffer holds, an empty one ends the program,
  and the debug level is the last \<^verbatim>\<open>-d\<close>, or 4.
\<close>

theorem parse_args_result:
  "parse_args os g =
    (if MissingArg \<in> set os \<or> Unknown \<in> set os \<or>
        last (config_file g # [take 255 s. ConfigPath s \<leftarrow> os]) = [] then Inl (Exit 1)
     else Inr (g\<lparr>config_file := last (config_file g # [take 255 s. ConfigPath s \<leftarrow> os]),
       dbg := last (4 # [atoi s. DebugLevel s \<leftarrow> os])\<rparr>))"
  by (auto simp: parse_args_def opt_loop_result Let_def)

text \<open>
  A signal either ends the process with a fixed code, or leaves the settings as they are; only
  SIGTERM changes one, and it clears \<open>run\<close>, which ends the traffic loops.
\<close>

theorem signal_handler_result:
  "snd (signal_handler sig g) =
    (if sig = SIGTERM then Inr (g\<lparr>run := 0\<rparr>)
     else if sig \<in> {SIGCHLD, SIGTTOU, SIGPROF} then Inr g
     else if sig \<in> {SIGSEGV, SIGKILL} then Inl (Exit 57005) else Inl (Exit 1))"
  by (simp add: signal_handler_def signals)

text \<open>
  The text \<^verbatim>\<open>die\<close> builds always fits its buffer of 256 bytes with the final NUL, however long
  the message; and \<^verbatim>\<open>die\<close> returns exactly when its first argument is 0.
\<close>

theorem die_bounded:
  "length (die_text why) + 1 \<le> 256 \<and> (snd (die g really why) = Inr () \<longleftrightarrow> really = 0)"
  by (auto simp: die_text_def colour_def die_def)

text \<open>
  Starting threads with valid jobs one after the other succeeds, gives them consecutive ids
  in order of their start, keeps the total equal to the sum of the three counters, and leaves
  the thread list well formed with the latest thread first.
\<close>

theorem new_threads_correct:
  assumes "klist (nodes t) (MTL t) []" and "gtc t = 0" and "supc t = 0" and "ioc t = 0" and "lbrc t = 0"
    and "distinct (map fst specs)"
    and "\<forall>(tm, junk, job) \<in> set specs. tm + TL_offset \<noteq> MTL t \<and> job \<in> {job_SUP, job_IO, job_LBR}"
  shows "\<exists>t'. new_threads specs t = Inr t' \<and>
    (\<forall>i < length specs. tms t' (fst (specs ! i)) =
       Some \<lparr>tm_job = snd (snd (specs ! i)), tm_id = int i\<rparr>) \<and>
    gtc t' = int (length specs) \<and> gtc t' = supc t' + ioc t' + lbrc t' \<and>
    list_for_each (nodes t') (MTL t') = Some (map (\<lambda>(tm, _). tm + TL_offset) (rev specs))"
proof -
  have "threads_ok t []" using assms(1-5) by (simp add: threads_ok_def)
  from new_threads_ok [OF this assms(6)] assms(2,7) obtain t' where
    t': "new_threads specs t = Inr t'" "threads_ok t' (rev (map fst specs))" "gtc t' = int (length specs)"
      "\<forall>i < length specs. tms t' (fst (specs ! i)) = Some \<lparr>tm_job = snd (snd (specs ! i)), tm_id = int i\<rparr>"
    by (auto simp: tl_node_def)
  have "map tl_node (rev (map fst specs)) = map (\<lambda>(tm, _). tm + TL_offset) (rev specs)"
    by (simp add: tl_node_def rev_map case_prod_unfold comp_def)
  with t' traversal_visits_all(1) [of "nodes t'" "MTL t'"] show ?thesis
    by (auto simp: threads_ok_def)
qed

definition no_threads :: threads where
  "no_threads = \<lparr>gtc = 0, supc = 0, ioc = 0, lbrc = 0, nodes = [1000 \<mapsto> \<lparr>nxt = 1000, prv = 1000\<rparr>],
     MTL = 1000, tms = Map.empty, calls = []\<rparr>"

theorem new_threads_correct_witness:
  "\<exists>t'. new_threads [(2000, \<lparr>nxt = 0, prv = 0\<rparr>, job_LBR), (3000, \<lparr>nxt = 0, prv = 0\<rparr>, job_IO)] no_threads = Inr t' \<and>
     gtc t' = 2 \<and> list_for_each (nodes t') (MTL t') = Some [3032, 2032]"
proof -
  have "klist (nodes no_threads) (MTL no_threads) []"
    by (simp add: no_threads_def klist_def cyc_def linked_def get_next_def get_prev_def)
  from new_threads_correct [OF this, of "[(2000, \<lparr>nxt = 0, prv = 0\<rparr>, job_LBR), (3000, \<lparr>nxt = 0, prv = 0\<rparr>, job_IO)]"]
  show ?thesis by (auto simp: no_threads_def TL_offset_def)
qed

text \<open>
  Peers are set up in the order in which the configuration lists them, and dumped in the
  reverse order: the list is filled at its head and set up from its tail.
\<close>

theorem peer_order:
  assumes "MPL \<in> dom h" and "distinct pcs" and "NULLP \<notin> set pcs"
    and "\<forall>pc \<in> set pcs. pc + PL_offset \<in> dom h \<and> pc + PL_offset \<noteq> MPL"
  shows "\<exists>h0 h'. init_peer_list h MPL = Some h0 \<and> add_peers pcs h0 MPL = Some h' \<and>
    peers_in_setup_order h' MPL = Some pcs \<and> peer_list_dump h' MPL = Some (rev pcs)"
proof -
  obtain h0 where h0: "INIT_LIST_HEAD h MPL = Some h0" "klist h0 MPL []" "unchanged {MPL} h h0"
    using INIT_LIST_HEAD_empty [OF assms(1)] by blast
  have dom: "dom h0 = dom h" using h0(3) by (simp add: unchanged_def)
  have "distinct (map (\<lambda>pc. pc + PL_offset) pcs)" using assms(2) by (simp add: distinct_map inj_on_def)
  moreover have "\<forall>x \<in> set (map (\<lambda>pc. pc + PL_offset) pcs). x \<in> dom h0 \<and> x \<noteq> MPL"
    using assms(4) dom by auto
  ultimately obtain h' where
    "add_all (\<lambda>h x. list_add h x MPL) h0 (map (\<lambda>pc. pc + PL_offset) pcs) = Some h'"
    "list_for_each_prev h' MPL = Some (map (\<lambda>pc. pc + PL_offset) pcs)"
    "list_for_each h' MPL = Some (rev (map (\<lambda>pc. pc + PL_offset) pcs))"
    using klist_front.add_all_order [OF h0(2)] by blast
  moreover have "filter (\<lambda>p. p \<noteq> NULLP) (rev pcs) = rev pcs" using assms(3) by (auto intro: filter_True)
  ultimately show ?thesis
    using h0(1) by (simp add: init_peer_list_def add_peers_add_all peers_in_setup_order_def
        peer_list_dump_def rev_map comp_def)
qed


theorem peer_order_witness:
  "\<exists>h0 h'. init_peer_list [50 \<mapsto> \<lparr>nxt = 0, prv = 0\<rparr>, 18616 \<mapsto> \<lparr>nxt = 0, prv = 0\<rparr>, 19616 \<mapsto> \<lparr>nxt = 0, prv = 0\<rparr>] 50
      = Some h0 \<and> add_peers [1000, 2000] h0 50 = Some h' \<and>
    peers_in_setup_order h' 50 = Some [1000, 2000] \<and> peer_list_dump h' 50 = Some [2000, 1000]"
  using peer_order [of 50 "[50 \<mapsto> \<lparr>nxt = 0, prv = 0\<rparr>, 18616 \<mapsto> \<lparr>nxt = 0, prv = 0\<rparr>, 19616 \<mapsto> \<lparr>nxt = 0, prv = 0\<rparr>]"
      "[1000, 2000]"]
  by (simp add: PL_offset_def)

end
