(* ===== verification/Config.thy ===== *)
theory Config
  imports Process
begin

text \<open>
  The configuration loader \<^verbatim>\<open>load_config\<close> of \<^verbatim>\<open>state.c\<close>. The YAML scanner is outside the
  program: the tokens it gives are a function from the number of the scan. C strings live in
  memory that functions from offsets to characters describe, so that a copy longer than its
  field shows. A peer's text fields share one such memory, at the offsets of
  \<^verbatim>\<open>struct peer_context\<close>. A loop that never ends is \<open>None\<close>.
\<close>

section \<open>C strings\<close>

type_synonym chars = "nat \<Rightarrow> char"

definition NUL :: char where "NUL = CHR 0x00"

text \<open>\<^verbatim>\<open>strncpy\<close> writes exactly \<open>n\<close> characters, padding with NUL.\<close>

definition strncpy :: "nat \<Rightarrow> string \<Rightarrow> nat \<Rightarrow> chars \<Rightarrow> chars" where
  "strncpy dst s n mem =
     (\<lambda>i. if dst \<le> i \<and> i < dst + n then (if i - dst < length s then s ! (i - dst) else NUL) else mem i)"

text \<open>The string at an offset, read up to its NUL or the end of the object.\<close>

definition cstr :: "nat \<Rightarrow> nat \<Rightarrow> chars \<Rightarrow> string" where
  "cstr off bound mem = takeWhile (\<lambda>c. c \<noteq> NUL) (map mem [off..<bound])"

text \<open>\<^verbatim>\<open>strncmp (a, b, n) == 0\<close>, and the form the loader uses most, \<^verbatim>\<open>strncmp (a, b, strlen (a)) == 0\<close>.\<close>

definition strncmp0 :: "string \<Rightarrow> string \<Rightarrow> nat \<Rightarrow> bool" where
  "strncmp0 a b n \<longleftrightarrow> take n (a @ [NUL]) = take n (b @ [NUL])"

definition is_prefix_of :: "string \<Rightarrow> string \<Rightarrow> bool" where
  "is_prefix_of a b \<longleftrightarrow> strncmp0 a b (length a)"

section \<open>Peers\<close>

definition IFNAMSIZ :: nat where "IFNAMSIZ = 16"

definition DIR_IN :: int where "DIR_IN = 0"
definition DIR_OUT :: int where "DIR_OUT = 1"
definition DIR_MAP :: int where "DIR_MAP = 2"

text \<open>Offsets of the text fields, from the first of them, and their end.\<close>

definition name_off :: nat where "name_off = 0"
definition ifname_off :: nat where "ifname_off = 257"
definition tifname_off :: nat where "tifname_off = ifname_off + IFNAMSIZ"
definition ifmap_off :: nat where "ifmap_off = tifname_off + IFNAMSIZ"
definition peer_ip_off :: nat where "peer_ip_off = ifmap_off + IFNAMSIZ"
definition next_hop_off :: nat where "next_hop_off = peer_ip_off + 256"
definition cipher_off :: nat where "cipher_off = next_hop_off + 256"
definition socket_off :: nat where "socket_off = cipher_off + 256"
definition pipe_off :: nat where "pipe_off = socket_off + 256"
definition key_off :: nat where "key_off = pipe_off + 256"
definition text_end :: nat where "text_end = key_off + 16000"

lemmas offsets = name_off_def ifname_off_def tifname_off_def ifmap_off_def peer_ip_off_def
  next_hop_off_def cipher_off_def socket_off_def pipe_off_def key_off_def text_end_def IFNAMSIZ_def

record peer_context =
  pid :: int
  ip_version :: int
  direction :: int
  threadcount :: int
  peerip :: u32
  myip :: u32
  text_mem :: chars

definition field :: "nat \<Rightarrow> peer_context \<Rightarrow> string" where
  "field off p = cstr off text_end (text_mem p)"

definition set_text :: "nat \<Rightarrow> string \<Rightarrow> nat \<Rightarrow> peer_context \<Rightarrow> peer_context" where
  "set_text off v n p = p\<lparr>text_mem := strncpy off v n (text_mem p)\<rparr>"

text \<open>
  The settings of one key. \<open>resolve\<close> is \<^verbatim>\<open>host_to_ip\<close>, 0 on failure. Keys are compared in the
  order of the source, most of them by whether the key read is a prefix of the name.
\<close>

definition assign :: "(string \<Rightarrow> u32) \<Rightarrow> string \<Rightarrow> string \<Rightarrow> peer_context \<Rightarrow> peer_context res" where
  "assign resolve k v p =
     (if is_prefix_of k ''type'' then
        Inr (if is_prefix_of v ''ingress'' then p\<lparr>direction := DIR_IN\<rparr>
             else if is_prefix_of v ''egress'' then p\<lparr>direction := DIR_OUT\<rparr>
             else if is_prefix_of v ''map'' then p\<lparr>direction := DIR_MAP\<rparr> else p)
      else if is_prefix_of k ''ip-version'' then
        (if is_prefix_of v ''4'' then Inr (p\<lparr>ip_version := 4\<rparr>)
         else if is_prefix_of v ''6'' then Inr (p\<lparr>ip_version := 6\<rparr>) else Inl (Exit 1))
      else if strncmp0 k ''threads'' IFNAMSIZ then Inr (p\<lparr>threadcount := atoi v\<rparr>)
      else if strncmp0 k ''interface'' IFNAMSIZ then Inr (set_text ifname_off v 255 p)
      else if strncmp0 k ''map-interface'' IFNAMSIZ then
        Inr ((set_text ifmap_off v 255 p)\<lparr>direction := DIR_MAP\<rparr>)
      else if strncmp0 k ''tunnel'' IFNAMSIZ then Inr (set_text tifname_off v 255 p)
      else if is_prefix_of k ''peer-ip'' then
        (if resolve v = 0 then Inl (Exit 1) else Inr ((set_text peer_ip_off v 255 p)\<lparr>peerip := resolve v\<rparr>))
      else if is_prefix_of k ''next-hop'' then Inr (set_text next_hop_off v 255 p)
      else if is_prefix_of k ''local-ip'' then
        (if resolve v = 0 then Inl (Exit 1) else Inr (p\<lparr>myip := resolve v\<rparr>))
      else if is_prefix_of k ''cipher'' then Inr (set_text cipher_off v 255 p)
      else if is_prefix_of k ''key'' then Inr (set_text key_off v 16000 p)
      else if is_prefix_of k ''socket'' then Inr (set_text socket_off v 255 p)
      else if is_prefix_of k ''pipe'' then Inr (set_text pipe_off v 255 p)
      else Inr p)"

section \<open>The loader\<close>

text \<open>A scalar's value is the C string it starts with, so it holds no NUL.\<close>

datatype token = NoToken | StreamEnd | MappingStart | SequenceStart | BlockEntry | BlockEnd | Key | Value
  | Scalar string | OtherToken

text \<open>
  The loader's variables. \<open>key\<close>, \<open>name\<close> and \<open>last_name\<close> are buffers of 256 characters;
  \<open>peers\<close> is the master list, head first, or \<open>None\<close> before it is initialised.
\<close>

record loader =
  pos :: nat
  tokn :: token
  key_buf :: chars
  name_buf :: chars
  last_name_buf :: chars
  seqn :: nat
  peer_init :: bool
  peerid :: int
  peer :: peer_context
  peers :: "peer_context list option"

definition SEQ_APEER :: nat where "SEQ_APEER = 2"
definition SEQ_SPEER :: nat where "SEQ_SPEER = 3"

definition buf :: "chars \<Rightarrow> string" where "buf mem = cstr 0 256 mem"

definition scan :: "(nat \<Rightarrow> token) \<Rightarrow> loader \<Rightarrow> loader" where
  "scan toks st = st\<lparr>tokn := toks (pos st), pos := pos st + 1\<rparr>"

definition add_peer :: "loader \<Rightarrow> loader" where
  "add_peer st = st\<lparr>peers := map_option (\<lambda>ps. peer st # ps) (peers st)\<rparr>"

text \<open>A peer begins: the one before it is added, and \<open>fresh\<close> is what \<^verbatim>\<open>malloc\<close> gives.\<close>

definition new_peer :: "(int \<Rightarrow> peer_context) \<Rightarrow> loader \<Rightarrow> loader" where
  "new_peer fresh st =
     (let st1 = (if peer_init st then add_peer st else st\<lparr>peers := Some [], peer_init := True\<rparr>);
          name = buf (name_buf st)
      in st1\<lparr>peer := set_text name_off name 255 ((fresh (peerid st))\<lparr>pid := peerid st\<rparr>),
             peerid := peerid st + 1, last_name_buf := strncpy 0 name 255 (last_name_buf st)\<rparr>)"

text \<open>What the loader does with one key and its scalar value \<open>v\<close> inside a peer.\<close>

definition pair_value :: "(string \<Rightarrow> u32) \<Rightarrow> (int \<Rightarrow> peer_context) \<Rightarrow> string \<Rightarrow> loader \<Rightarrow> loader res" where
  "pair_value resolve fresh v st =
     (let k = buf (key_buf st);
          st1 = (if strncmp0 ''name'' k 4 then st\<lparr>name_buf := strncpy 0 v 255 (name_buf st)\<rparr> else st)
      in if seqn st1 = SEQ_SPEER then
           (if peer_init st1 \<and> \<not> is_prefix_of k ''name'' \<and>
               is_prefix_of (buf (last_name_buf st1)) (buf (name_buf st1))
            then (case assign resolve k v (peer st1) of Inl e \<Rightarrow> Inl e | Inr p \<Rightarrow> Inr (st1\<lparr>peer := p\<rparr>))
            else Inr (new_peer fresh st1))
         else Inr st1)"

text \<open>One pass of the loop over a peer's fields; without a key token it scans nothing.\<close>

definition field_step ::
  "(string \<Rightarrow> u32) \<Rightarrow> (int \<Rightarrow> peer_context) \<Rightarrow> (nat \<Rightarrow> token) \<Rightarrow> loader \<Rightarrow> loader res" where
  "field_step resolve fresh toks st =
     (if tokn st = Key then
        (let a = scan toks st in
         case tokn a of
           Scalar k \<Rightarrow>
             (let b = scan toks (a\<lparr>key_buf := strncpy 0 k 255 (key_buf a)\<rparr>) in
              if tokn b = Value then
                (let c = scan toks b in
                 case tokn c of
                   Scalar v \<Rightarrow>
                     (case pair_value resolve fresh v c of
                        Inl e \<Rightarrow> Inl e
                      | Inr d \<Rightarrow> (let e = scan toks d in Inr (if tokn e = BlockEnd then scan toks e else e)))
                 | _ \<Rightarrow> Inr c)
              else Inr b)
         | _ \<Rightarrow> Inr a)
      else Inr st)"

partial_function (option) fields ::
  "(string \<Rightarrow> u32) \<Rightarrow> (int \<Rightarrow> peer_context) \<Rightarrow> (nat \<Rightarrow> token) \<Rightarrow> loader \<Rightarrow> loader may_loop" where
  "fields resolve fresh toks st =
     (if tokn st \<noteq> BlockEntry \<and> tokn st \<noteq> BlockEnd then
        (case field_step resolve fresh toks st of
           Inl e \<Rightarrow> Some (Inl e)
         | Inr st1 \<Rightarrow> fields resolve fresh toks st1)
      else Some (Inr st))"

partial_function (option) entries ::
  "(string \<Rightarrow> u32) \<Rightarrow> (int \<Rightarrow> peer_context) \<Rightarrow> (nat \<Rightarrow> token) \<Rightarrow> loader \<Rightarrow> loader may_loop" where
  "entries resolve fresh toks st =
     (let a = scan toks st in
      case (if tokn a = MappingStart then fields resolve fresh toks (scan toks a) else Some (Inr a)) of
        None \<Rightarrow> None
      | Some (Inl e) \<Rightarrow> Some (Inl e)
      | Some (Inr b) \<Rightarrow> if tokn b = BlockEnd then Some (Inr b) else entries resolve fresh toks b)"

text \<open>The loop over the first mapping reads past everything up to its end.\<close>

definition read_key :: "(nat \<Rightarrow> token) \<Rightarrow> loader \<Rightarrow> loader" where
  "read_key toks st =
     (let a = scan toks st;
          b = (case tokn a of Scalar k \<Rightarrow> a\<lparr>key_buf := strncpy 0 k 255 (key_buf a)\<rparr> | _ \<Rightarrow> a)
      in scan toks b)"

definition mapping_step :: "(nat \<Rightarrow> token) \<Rightarrow> loader \<Rightarrow> loader" where
  "mapping_step toks st =
     (let a = scan toks st in
      if tokn a = Key then (let b = read_key toks a in if tokn b = Value then scan toks b else b) else a)"

partial_function (option) mapping :: "(nat \<Rightarrow> token) \<Rightarrow> loader \<Rightarrow> loader option" where
  "mapping toks st =
     (let st1 = mapping_step toks st in if tokn st1 = BlockEnd then Some st1 else mapping toks st1)"

definition start_sequence :: "(nat \<Rightarrow> token) \<Rightarrow> loader \<Rightarrow> loader" where
  "start_sequence toks st =
     (let k = buf (key_buf st)
      in scan toks (if strncmp0 ''symmetric-peers'' k 15 then st\<lparr>seqn := SEQ_SPEER\<rparr>
                    else if strncmp0 ''assymetric-peers'' k 16 then st\<lparr>seqn := SEQ_APEER\<rparr> else st))"

text \<open>One pass of the outer loop.\<close>

definition document_step ::
  "(string \<Rightarrow> u32) \<Rightarrow> (int \<Rightarrow> peer_context) \<Rightarrow> (nat \<Rightarrow> token) \<Rightarrow> loader \<Rightarrow> loader may_loop" where
  "document_step resolve fresh toks st =
     (let a = scan toks st in
      if tokn a = MappingStart then map_option Inr (mapping toks a)
      else if tokn a = Key then
        (let b = read_key toks a in
         if tokn b = Value then
           (let c = scan toks b in
            if tokn c = SequenceStart then
              (let d = start_sequence toks c
               in if tokn d = BlockEntry then entries resolve fresh toks d else Some (Inr d))
            else Some (Inr c))
         else Some (Inr b))
      else Some (Inr a))"

partial_function (option) document ::
  "(string \<Rightarrow> u32) \<Rightarrow> (int \<Rightarrow> peer_context) \<Rightarrow> (nat \<Rightarrow> token) \<Rightarrow> loader \<Rightarrow> loader may_loop" where
  "document resolve fresh toks st =
     (case document_step resolve fresh toks st of
        None \<Rightarrow> None
      | Some (Inl e) \<Rightarrow> Some (Inl e)
      | Some (Inr st1) \<Rightarrow>
          if tokn st1 = StreamEnd then Some (Inr st1) else document resolve fresh toks st1)"

text \<open>
  The whole loader, from a state \<open>st\<close> that holds the indeterminate contents of the variables it
  does not initialise. It always returns 0.
\<close>

definition load_config ::
  "(string \<Rightarrow> u32) \<Rightarrow> (int \<Rightarrow> peer_context) \<Rightarrow> (nat \<Rightarrow> token) \<Rightarrow> loader \<Rightarrow> (int \<times> loader) may_loop" where
  "load_config resolve fresh toks st =
     (case document resolve fresh toks (st\<lparr>pos := 0, peer_init := False, peerid := 1\<rparr>) of
        None \<Rightarrow> None
      | Some (Inl e) \<Rightarrow> Some (Inl e)
      | Some (Inr st1) \<Rightarrow> Some (Inr (0, if peer_init st1 then add_peer st1 else st1)))"


section \<open>Lemmas on strings\<close>

lemma strncpy_other: "i < dst \<or> dst + n \<le> i \<Longrightarrow> strncpy dst s n mem i = mem i"
  by (auto simp: strncpy_def)

lemma cstr_strncpy:
  assumes "NUL \<notin> set s" and "length s < n" and "off + n \<le> bound"
  shows "cstr off bound (strncpy off s n mem) = s"
proof -
  have split: "[off..<bound] = [off..<off + length s] @ (off + length s) # [Suc (off + length s)..<bound]"
    using assms(2,3) upt_add_eq_append [of off "off + length s" "bound - (off + length s)"]
    by (simp add: upt_conv_Cons)
  have "map (strncpy off s n mem) [off..<off + length s] = s"
    using assms(2) by (intro nth_equalityI) (simp_all add: strncpy_def)
  moreover have "strncpy off s n mem (off + length s) = NUL" using assms(2) by (simp add: strncpy_def)
  ultimately have "map (strncpy off s n mem) [off..<bound] =
      s @ NUL # map (strncpy off s n mem) [Suc (off + length s)..<bound]"
    by (simp only: split map_append list.map)
  moreover have "takeWhile (\<lambda>c. c \<noteq> NUL) (s @ NUL # zs) = s" for zs
  proof -
    have "x \<noteq> NUL" if "x \<in> set s" for x using that assms(1) by auto
    then show ?thesis by (subst takeWhile_append2) auto
  qed
  ultimately show ?thesis by (simp add: cstr_def)
qed

lemma cstr_empty: "off < bound \<Longrightarrow> mem off = NUL \<Longrightarrow> cstr off bound mem = []"
  by (simp add: cstr_def upt_conv_Cons)

text \<open>A string that ends before some offset does not change when memory after that changes.\<close>

lemma cstr_local:
  assumes "off \<le> z" and "z < bound" and "mem z = NUL" and "\<And>i. off \<le> i \<Longrightarrow> i \<le> z \<Longrightarrow> mem' i = mem i"
  shows "cstr off bound mem' = cstr off bound mem"
proof -
  have split: "[off..<bound] = [off..<z] @ z # [Suc z..<bound]"
    using assms(1,2) upt_add_eq_append [of off z "bound - z"] by (simp add: upt_conv_Cons)
  have "map mem' [off..<z] = map mem [off..<z]" "mem' z = NUL" using assms by auto
  then show ?thesis using assms(3) by (simp only: cstr_def split map_append list.map takeWhile_tail) 
      (simp add: takeWhile_append)
qed

lemma is_prefix_of_refl [simp]: "is_prefix_of s s"
  by (simp add: is_prefix_of_def strncmp0_def)

section \<open>Tokens ahead\<close>

fun coming :: "(nat \<Rightarrow> token) \<Rightarrow> nat \<Rightarrow> token list \<Rightarrow> bool" where
  "coming toks p [] \<longleftrightarrow> True"
| "coming toks p (t # ts) \<longleftrightarrow> toks p = t \<and> coming toks (Suc p) ts"

lemma scan_coming:
  "coming toks (pos st) (t # ts) \<Longrightarrow> scan toks st = st\<lparr>tokn := t, pos := Suc (pos st)\<rparr>"
  by (simp add: scan_def)

lemma coming_append: "coming toks p (xs @ ys) \<longleftrightarrow> coming toks p xs \<and> coming toks (p + length xs) ys"
  by (induction xs arbitrary: p) auto

lemma coming_nth: "coming (\<lambda>i. if i < length ts then ts ! i else NoToken) (length us) vs"
  if "ts = us @ vs" for ts us vs
  using that
proof (induction vs arbitrary: us)
  case (Cons v vs)
  from Cons.IH [of "us @ [v]"] Cons.prems show ?case by simp
qed simp


section \<open>Peers as the loader builds them\<close>

text \<open>
  The reference: a peer is its name, stored into fresh memory, and then its settings one after
  the other; the peers of a file are numbered in order.
\<close>

fun assigns :: "(string \<Rightarrow> u32) \<Rightarrow> (string \<times> string) list \<Rightarrow> peer_context \<Rightarrow> peer_context res" where
  "assigns resolve [] p = Inr p"
| "assigns resolve ((k, v) # kvs) p =
     (case assign resolve k v p of Inl e \<Rightarrow> Inl e | Inr p1 \<Rightarrow> assigns resolve kvs p1)"

definition named_peer :: "(int \<Rightarrow> peer_context) \<Rightarrow> int \<Rightarrow> string \<Rightarrow> peer_context" where
  "named_peer fresh n name = set_text name_off name 255 ((fresh n)\<lparr>pid := n\<rparr>)"

fun build_peers :: "(string \<Rightarrow> u32) \<Rightarrow> (int \<Rightarrow> peer_context) \<Rightarrow> int \<Rightarrow>
    (string \<times> (string \<times> string) list) list \<Rightarrow> peer_context list res" where
  "build_peers resolve fresh n [] = Inr []"
| "build_peers resolve fresh n ((name, kvs) # rest) =
     (case assigns resolve kvs (named_peer fresh n name) of
        Inl e \<Rightarrow> Inl e
      | Inr p \<Rightarrow> (case build_peers resolve fresh (n + 1) rest of Inl e \<Rightarrow> Inl e | Inr ps \<Rightarrow> Inr (p # ps)))"

text \<open>What the loader accepts as a text: shorter than its buffers.\<close>

definition short :: "string \<Rightarrow> bool" where
  "short s \<longleftrightarrow> NUL \<notin> set s \<and> length s < 255"

text \<open>A key that does not look like \<^verbatim>\<open>name\<close>, in either direction the loader looks.\<close>

definition plain_key :: "string \<Rightarrow> bool" where
  "plain_key k \<longleftrightarrow> short k \<and> \<not> is_prefix_of k ''name'' \<and> \<not> strncmp0 ''name'' k 4"

definition pair_tokens :: "(string \<times> string) list \<Rightarrow> token list" where
  "pair_tokens kvs = concat (map (\<lambda>(k, v). [Key, Scalar k, Value, Scalar v]) kvs)"

definition peer_tokens :: "string \<times> (string \<times> string) list \<Rightarrow> token list" where
  "peer_tokens pc = [BlockEntry, MappingStart] @ pair_tokens ((''name'', fst pc) # snd pc) @ [BlockEnd]"

lemma buf_strncpy [simp]: "short s \<Longrightarrow> buf (strncpy 0 s 255 mem) = s"
  by (simp add: buf_def short_def cstr_strncpy)

section \<open>The loops on the tokens of a peer\<close>

text \<open>Inside a peer \<open>p\<close>, with \<open>ps\<close> added before it and \<open>n\<close> the next number.\<close>

definition in_peer :: "loader \<Rightarrow> peer_context \<Rightarrow> peer_context list \<Rightarrow> int \<Rightarrow> bool" where
  "in_peer st p ps n \<longleftrightarrow> seqn st = SEQ_SPEER \<and> peer_init st \<and>
     buf (last_name_buf st) = buf (name_buf st) \<and> peer st = p \<and> peers st = Some ps \<and> peerid st = n"

text \<open>The state after the three scans of a pair.\<close>

definition after_pair :: "string \<Rightarrow> string \<Rightarrow> loader \<Rightarrow> loader" where
  "after_pair k v st = st\<lparr>key_buf := strncpy 0 k 255 (key_buf st), tokn := Scalar v, pos := pos st + 3\<rparr>"

lemma in_peer_after_pair [simp]: "in_peer (after_pair k v st) p ps n = in_peer st p ps n"
  by (simp add: in_peer_def after_pair_def)

lemma in_peer_scan [simp]: "in_peer (st\<lparr>tokn := t, pos := m\<rparr>) p ps n = in_peer st p ps n"
  by (simp add: in_peer_def)

lemma field_step_pair:
  assumes "tokn st = Key" and "coming toks (pos st) (Scalar k # Value # Scalar v # t # ts)"
  shows "field_step resolve fresh toks st =
    (case pair_value resolve fresh v (after_pair k v st) of
       Inl e \<Rightarrow> Inl e
     | Inr d \<Rightarrow> (let e = scan toks d in Inr (if tokn e = BlockEnd then scan toks e else e)))"
  using assms by (simp add: field_step_def scan_def after_pair_def Let_def numeral_3_eq_3)

lemma pair_value_plain:
  assumes "in_peer st p ps n" and "plain_key k"
  shows "pair_value resolve fresh v (after_pair k v st) =
    (case assign resolve k v p of Inl e \<Rightarrow> Inl e | Inr p' \<Rightarrow> Inr ((after_pair k v st)\<lparr>peer := p'\<rparr>))"
  using assms by (simp add: pair_value_def after_pair_def in_peer_def plain_key_def Let_def split: sum.split)

lemma fields_key:
  "tokn st = Key \<Longrightarrow> fields resolve fresh toks st =
    (case field_step resolve fresh toks st of Inl e \<Rightarrow> Some (Inl e) | Inr st1 \<Rightarrow> fields resolve fresh toks st1)"
  by (subst fields.simps) simp

lemma fields_stop: "tokn st \<in> {BlockEntry, BlockEnd} \<Longrightarrow> fields resolve fresh toks st = Some (Inr st)"
  by (subst fields.simps) auto

text \<open>The tokens after a pair: the next key, or the end of the mapping and one more.\<close>

lemma fields_pairs:
  assumes "tokn st = Key" and "in_peer st p ps n" and "kvs \<noteq> []" and "\<forall>(k, v) \<in> set kvs. plain_key k"
    and "coming toks (pos st) (tl (pair_tokens kvs) @ BlockEnd # t # ts)" and "t \<in> {BlockEntry, BlockEnd}"
  shows "case assigns resolve kvs p of
      Inl e \<Rightarrow> fields resolve fresh toks st = Some (Inl e)
    | Inr p' \<Rightarrow> \<exists>st'. fields resolve fresh toks st = Some (Inr st') \<and> in_peer st' p' ps n \<and>
        tokn st' = t \<and> coming toks (pos st') ts"
  using assms
proof (induction kvs arbitrary: st p)
  case (Cons kv kvs)
  obtain k v where kv: "kv = (k, v)" by (cases kv)
  with Cons.prems have k: "plain_key k" by auto
  define next_t where "next_t = hd (pair_tokens kvs @ [BlockEnd])"
  define rest where "rest = tl (pair_tokens kvs @ BlockEnd # t # ts)"
  have "pair_tokens kvs @ BlockEnd # t # ts = next_t # rest"
    by (cases kvs) (auto simp: next_t_def rest_def pair_tokens_def split: prod.split)
  with Cons.prems(5) kv have ahead: "coming toks (pos st) (Scalar k # Value # Scalar v # next_t # rest)"
    by (simp add: pair_tokens_def)
  note step = fields_key [OF Cons.prems(1), of resolve fresh toks, unfolded
      field_step_pair [OF Cons.prems(1) ahead] pair_value_plain [OF Cons.prems(2) k]]
  show ?case
  proof (cases "assign resolve k v p")
    case (Inl e)
    then show ?thesis using kv step by simp
  next
    case (Inr p1)
    define d where "d = (after_pair k v st)\<lparr>peer := p1\<rparr>"
    have d: "pos d = pos st + 3" "in_peer d p1 ps n"
      using Cons.prems(2) by (simp_all add: d_def after_pair_def in_peer_def)
    have sc: "scan toks d = d\<lparr>tokn := next_t, pos := pos st + 4\<rparr>" "coming toks (pos st + 4) rest"
      using ahead d(1) by (simp_all add: scan_def eval_nat_numeral)
    show ?thesis
    proof (cases "kvs = []")
      case True
      then have nt: "next_t = BlockEnd" "rest = t # ts" by (simp_all add: next_t_def rest_def pair_tokens_def)
      define st' where "st' = d\<lparr>tokn := t, pos := pos st + 5\<rparr>"
      have "scan toks (d\<lparr>tokn := BlockEnd, pos := pos st + 4\<rparr>) = st'"
        using sc(2) nt(2) by (simp add: scan_def st'_def eval_nat_numeral)
      then have "fields resolve fresh toks st = fields resolve fresh toks st'"
        using step Inr sc(1) nt(1) by (simp add: d_def [symmetric] Let_def)
      also have "\<dots> = Some (Inr st')" by (rule fields_stop) (use Cons.prems(6) in \<open>simp add: st'_def\<close>)
      finally show ?thesis
        using True Inr kv d(2) sc(2) nt(2) by (auto simp: st'_def eval_nat_numeral)
    next
      case False
      then obtain k' v' kvs' where "kvs = (k', v') # kvs'" by (cases kvs) auto
      then have nt: "next_t = Key" "rest = tl (pair_tokens kvs) @ BlockEnd # t # ts"
        by (simp_all add: next_t_def rest_def pair_tokens_def)
      define st1 where "st1 = d\<lparr>tokn := Key, pos := pos st + 4\<rparr>"
      have st1: "tokn st1 = Key" "pos st1 = pos st + 4" "in_peer st1 p1 ps n" using d(2) by (simp_all add: st1_def)
      have "fields resolve fresh toks st = fields resolve fresh toks st1"
        using step Inr sc(1) nt(1) by (simp add: d_def [symmetric] Let_def st1_def)
      with Cons.IH [OF st1(1,3) False] Cons.prems(4,6) sc(2) nt(2) st1(2) Inr kv
      show ?thesis by (simp split: sum.splits)
    qed
  qed
qed simp


section \<open>The list of peers\<close>

text \<open>The peers finished so far, the current one included.\<close>

definition prior :: "loader \<Rightarrow> peer_context list" where
  "prior st = (if peer_init st then peer st # the (peers st) else [])"

definition list_ok :: "loader \<Rightarrow> bool" where
  "list_ok st \<longleftrightarrow> (peer_init st \<longrightarrow> peers st \<noteq> None)"

lemma new_peer_in_peer:
  assumes "seqn st = SEQ_SPEER" and "list_ok st" and "buf (name_buf st) = name" and "short name"
  shows "in_peer (new_peer fresh st) (named_peer fresh (peerid st) name) (prior st) (peerid st + 1) \<and>
    pos (new_peer fresh st) = pos st"
  using assms by (auto simp: new_peer_def in_peer_def named_peer_def add_peer_def prior_def list_ok_def Let_def)

lemma pair_value_name:
  assumes "seqn st = SEQ_SPEER" and "list_ok st" and "short name"
  shows "\<exists>d. pair_value resolve fresh name (after_pair ''name'' name st) = Inr d \<and>
    in_peer d (named_peer fresh (peerid st) name) (prior st) (peerid st + 1) \<and> pos d = pos st + 3"
proof -
  let ?c = "(after_pair ''name'' name st)\<lparr>name_buf := strncpy 0 name 255 (name_buf st)\<rparr>"
  have "short ''name''" by (simp add: short_def NUL_def)
  moreover have "strncmp0 ''name'' ''name'' 4" by (simp add: strncmp0_def)
  ultimately have "pair_value resolve fresh name (after_pair ''name'' name st) = Inr (new_peer fresh ?c)"
    using assms(1) by (simp add: pair_value_def after_pair_def Let_def)
  moreover have "prior ?c = prior st" "list_ok ?c" "peerid ?c = peerid st" "seqn ?c = SEQ_SPEER"
    "pos ?c = pos st + 3" "buf (name_buf ?c) = name"
    using assms by (simp_all add: prior_def list_ok_def after_pair_def)
  ultimately show ?thesis using new_peer_in_peer [of ?c name fresh] assms(3) by simp
qed

text \<open>One peer: from its first key to the token after its mapping.\<close>

lemma fields_peer:
  assumes "tokn st = Key" and "seqn st = SEQ_SPEER" and "list_ok st" and "short name"
    and "\<forall>(k, v) \<in> set kvs. plain_key k"
    and "coming toks (pos st) (tl (pair_tokens ((''name'', name) # kvs)) @ BlockEnd # t # ts)"
    and "t \<in> {BlockEntry, BlockEnd}"
  shows "case assigns resolve kvs (named_peer fresh (peerid st) name) of
      Inl e \<Rightarrow> fields resolve fresh toks st = Some (Inl e)
    | Inr p \<Rightarrow> \<exists>st'. fields resolve fresh toks st = Some (Inr st') \<and>
        in_peer st' p (prior st) (peerid st + 1) \<and> tokn st' = t \<and> coming toks (pos st') ts"
proof -
  define next_t where "next_t = hd (pair_tokens kvs @ [BlockEnd])"
  define rest where "rest = tl (pair_tokens kvs @ BlockEnd # t # ts)"
  have "pair_tokens kvs @ BlockEnd # t # ts = next_t # rest"
    by (cases kvs) (auto simp: next_t_def rest_def pair_tokens_def split: prod.split)
  with assms(6) have ahead: "coming toks (pos st) (Scalar ''name'' # Value # Scalar name # next_t # rest)"
    by (simp add: pair_tokens_def)
  obtain d where d: "pair_value resolve fresh name (after_pair ''name'' name st) = Inr d"
    "in_peer d (named_peer fresh (peerid st) name) (prior st) (peerid st + 1)" "pos d = pos st + 3"
    using pair_value_name [OF assms(2-4)] by blast
  have sc: "scan toks d = d\<lparr>tokn := next_t, pos := pos st + 4\<rparr>" "coming toks (pos st + 4) rest"
    using ahead d(3) by (simp_all add: scan_def eval_nat_numeral)
  have step: "fields resolve fresh toks st =
      fields resolve fresh toks (let e = scan toks d in if tokn e = BlockEnd then scan toks e else e)"
    using fields_key [OF assms(1)] field_step_pair [OF assms(1) ahead] d(1) by (simp add: Let_def)
  show ?thesis
  proof (cases "kvs = []")
    case True
    then have nt: "next_t = BlockEnd" "rest = t # ts" by (simp_all add: next_t_def rest_def pair_tokens_def)
    define st' where "st' = d\<lparr>tokn := t, pos := pos st + 5\<rparr>"
    have "scan toks (d\<lparr>tokn := BlockEnd, pos := pos st + 4\<rparr>) = st'"
      using sc(2) nt(2) by (simp add: scan_def st'_def eval_nat_numeral)
    then have "fields resolve fresh toks st = fields resolve fresh toks st'"
      using step sc(1) nt(1) by (simp add: Let_def)
    also have "\<dots> = Some (Inr st')" by (rule fields_stop) (use assms(7) in \<open>simp add: st'_def\<close>)
    finally show ?thesis using True d(2) sc(2) nt(2) by (auto simp: st'_def eval_nat_numeral)
  next
    case False
    then obtain k v kvs' where "kvs = (k, v) # kvs'" by (cases kvs) auto
    then have nt: "next_t = Key" "rest = tl (pair_tokens kvs) @ BlockEnd # t # ts"
      by (simp_all add: next_t_def rest_def pair_tokens_def)
    define st1 where "st1 = d\<lparr>tokn := Key, pos := pos st + 4\<rparr>"
    have st1: "tokn st1 = Key" "pos st1 = pos st + 4"
      "in_peer st1 (named_peer fresh (peerid st) name) (prior st) (peerid st + 1)"
      using d(2) by (simp_all add: st1_def)
    have "fields resolve fresh toks st = fields resolve fresh toks st1"
      using step sc(1) nt(1) by (simp add: Let_def st1_def)
    with fields_pairs [OF st1(1,3) False assms(5), where toks = toks and t = t and ts = ts
        and resolve = resolve and fresh = fresh] assms(7) sc(2) nt(2) st1(2)
    show ?thesis by (simp split: sum.splits)
  qed
qed

lemma in_peer_prior: "in_peer st p ps n \<Longrightarrow> prior st = p # ps \<and> list_ok st \<and> seqn st = SEQ_SPEER \<and> peerid st = n"
  by (simp add: in_peer_def prior_def list_ok_def)

text \<open>All peers of the sequence.\<close>

definition good_peer :: "string \<times> (string \<times> string) list \<Rightarrow> bool" where
  "good_peer pc \<longleftrightarrow> short (fst pc) \<and> (\<forall>(k, v) \<in> set (snd pc). plain_key k)"

lemma entries_peers:
  assumes "seqn st = SEQ_SPEER" and "list_ok st" and "pcs \<noteq> []" and "list_all good_peer pcs"
    and "coming toks (pos st) (tl (concat (map peer_tokens pcs)) @ BlockEnd # ts)"
  shows "case build_peers resolve fresh (peerid st) pcs of
      Inl e \<Rightarrow> entries resolve fresh toks st = Some (Inl e)
    | Inr ps \<Rightarrow> \<exists>st'. entries resolve fresh toks st = Some (Inr st') \<and> peer_init st' \<and>
        prior st' = rev ps @ prior st \<and> list_ok st' \<and> tokn st' = BlockEnd \<and> coming toks (pos st') ts"
  using assms
proof (induction pcs arbitrary: st)
  case (Cons pc pcs)
  obtain name kvs where pc: "pc = (name, kvs)" by (cases pc)
  have good: "short name" "\<forall>(k, v) \<in> set kvs. plain_key k" using Cons.prems(4) pc by (simp_all add: good_peer_def)
  define t where "t = hd (concat (map peer_tokens pcs) @ [BlockEnd])"
  define rest where "rest = tl (concat (map peer_tokens pcs) @ BlockEnd # ts)"
  have split: "concat (map peer_tokens pcs) @ BlockEnd # ts = t # rest"
    by (cases pcs) (auto simp: t_def rest_def peer_tokens_def)
  have t: "t \<in> {BlockEntry, BlockEnd}" by (cases pcs) (auto simp: t_def peer_tokens_def)
  define st1 where "st1 = st\<lparr>tokn := Key, pos := pos st + 2\<rparr>"
  have toks: "coming toks (pos st) (MappingStart # Key # tl (pair_tokens ((''name'', name) # kvs)) @ BlockEnd # t # rest)"
    using Cons.prems(5) pc split by (simp add: peer_tokens_def [of "(name, kvs)"] pair_tokens_def)
  then have sc: "tokn (scan toks st) = MappingStart" "scan toks (scan toks st) = st1"
    "coming toks (pos st1) (tl (pair_tokens ((''name'', name) # kvs)) @ BlockEnd # t # rest)"
    by (simp_all add: scan_def st1_def)
  have st1: "tokn st1 = Key" "seqn st1 = SEQ_SPEER" "list_ok st1" "prior st1 = prior st" "peerid st1 = peerid st"
    using Cons.prems(1,2) by (simp_all add: st1_def list_ok_def prior_def)
  have step: "entries resolve fresh toks st =
      (case fields resolve fresh toks st1 of None \<Rightarrow> None | Some (Inl e) \<Rightarrow> Some (Inl e)
       | Some (Inr b) \<Rightarrow> if tokn b = BlockEnd then Some (Inr b) else entries resolve fresh toks b)"
    by (subst entries.simps) (simp add: sc Let_def)
  note one = fields_peer [OF st1(1-3) good sc(3) t, where resolve = resolve and fresh = fresh, unfolded st1(4,5)]
  show ?case
  proof (cases "assigns resolve kvs (named_peer fresh (peerid st) name)")
    case (Inl e)
    then show ?thesis using one step pc by simp
  next
    case (Inr p)
    with one obtain st2 where st2: "fields resolve fresh toks st1 = Some (Inr st2)"
      "in_peer st2 p (prior st) (peerid st + 1)" "tokn st2 = t" "coming toks (pos st2) rest" by auto
    note ip = in_peer_prior [OF st2(2)]
    show ?thesis
    proof (cases "pcs = []")
      case True
      then have "t = BlockEnd" "rest = ts" by (simp_all add: t_def rest_def)
      then show ?thesis using True Inr pc step st2 ip by (auto simp: in_peer_def)
    next
      case False
      then have "t = BlockEntry" "rest = tl (concat (map peer_tokens pcs)) @ BlockEnd # ts"
        by (cases pcs; simp add: t_def rest_def peer_tokens_def)+
      moreover from this have "entries resolve fresh toks st = entries resolve fresh toks st2"
        using step st2(1,3) by simp
      ultimately show ?thesis
        using Cons.IH [of st2] False Cons.prems(4) st2(4) ip Inr pc by (auto split: sum.splits)
    qed
  qed
qed simp


section \<open>The outer loops\<close>

text \<open>The first mapping loop reads past pairs and ends at the first end of a block.\<close>

lemma mapping_unfold:
  "mapping toks st =
     (if tokn (mapping_step toks st) = BlockEnd then Some (mapping_step toks st)
      else mapping toks (mapping_step toks st))"
  by (subst mapping.simps) (simp add: Let_def)

lemma mapping_pairs:
  "coming toks (pos st) (pair_tokens kvs @ BlockEnd # ts) \<Longrightarrow>
     \<exists>kb st'. mapping toks st = Some st' \<and> st' = st\<lparr>key_buf := kb, tokn := BlockEnd, pos := pos st'\<rparr> \<and>
       coming toks (pos st') ts"
proof (induction kvs arbitrary: st)
  case Nil
  then have "mapping toks st = Some (st\<lparr>tokn := BlockEnd, pos := Suc (pos st)\<rparr>)"
    by (subst mapping_unfold) (simp add: mapping_step_def scan_def pair_tokens_def Let_def)
  with Nil show ?case by (intro exI [of _ "key_buf st"] exI) (auto simp: pair_tokens_def)
next
  case (Cons kv kvs)
  obtain k v where kv: "kv = (k, v)" by (cases kv)
  define st1 where "st1 = st\<lparr>key_buf := strncpy 0 k 255 (key_buf st), tokn := Scalar v, pos := pos st + 4\<rparr>"
  have "mapping_step toks st = st1"
    using Cons.prems kv
    by (simp add: mapping_step_def read_key_def scan_def pair_tokens_def Let_def st1_def eval_nat_numeral)
  then have "mapping toks st = mapping toks st1" by (subst mapping_unfold) (simp add: st1_def)
  moreover have "coming toks (pos st1) (pair_tokens kvs @ BlockEnd # ts)"
    using Cons.prems kv by (simp add: st1_def pair_tokens_def eval_nat_numeral)
  ultimately show ?case using Cons.IH [of st1] by (auto simp: st1_def)
qed

text \<open>Tokens that neither open a mapping nor are a key, and do not end the stream, are skipped.\<close>

lemma document_skip:
  assumes "coming toks (pos st) (t # ts)" and "t \<notin> {MappingStart, Key, StreamEnd}"
  shows "document resolve fresh toks st = document resolve fresh toks (st\<lparr>tokn := t, pos := Suc (pos st)\<rparr>)"
  using assms by (subst document.simps) (simp add: document_step_def scan_def Let_def)

lemma document_stop:
  assumes "coming toks (pos st) (StreamEnd # ts)"
  shows "document resolve fresh toks st = Some (Inr (st\<lparr>tokn := StreamEnd, pos := Suc (pos st)\<rparr>))"
  using assms by (subst document.simps) (simp add: document_step_def scan_def Let_def)

lemma document_mapping:
  assumes "coming toks (pos st) (MappingStart # ts)" and "mapping toks (st\<lparr>tokn := MappingStart, pos := Suc (pos st)\<rparr>) = Some st'"
    and "tokn st' = BlockEnd"
  shows "document resolve fresh toks st = document resolve fresh toks st'"
  using assms by (subst document.simps) (simp add: document_step_def scan_def Let_def)

text \<open>A section read by the first mapping loop: a key and a sequence whose first item holds pairs.\<close>

definition section_tokens :: "string \<Rightarrow> (string \<times> string) list \<Rightarrow> token list" where
  "section_tokens g kvs = [Key, Scalar g, Value, SequenceStart, BlockEntry, MappingStart] @ pair_tokens kvs @ [BlockEnd]"

lemma mapping_section:
  assumes "coming toks (pos st) (section_tokens g kvs @ ts)"
  shows "\<exists>kb st'. mapping toks st = Some st' \<and> st' = st\<lparr>key_buf := kb, tokn := BlockEnd, pos := pos st'\<rparr> \<and>
    coming toks (pos st') ts"
proof -
  define kb where "kb = strncpy 0 g 255 (key_buf st)"
  define s1 where "s1 = st\<lparr>key_buf := kb, tokn := SequenceStart, pos := pos st + 4\<rparr>"
  define s2 where "s2 = s1\<lparr>tokn := BlockEntry, pos := pos st + 5\<rparr>"
  define s3 where "s3 = s2\<lparr>tokn := MappingStart, pos := pos st + 6\<rparr>"
  have "mapping_step toks st = s1" "mapping_step toks s1 = s2" "mapping_step toks s2 = s3"
    using assms by (simp_all add: mapping_step_def read_key_def scan_def section_tokens_def Let_def
        s1_def s2_def s3_def kb_def eval_nat_numeral)
  then have "mapping toks st = mapping toks s3"
    by (simp add: mapping_unfold [of toks st] mapping_unfold [of toks s1] mapping_unfold [of toks s2])
      (simp add: s1_def s2_def s3_def)
  moreover have "coming toks (pos s3) (pair_tokens kvs @ BlockEnd # ts)"
    using assms by (simp add: section_tokens_def s1_def s2_def s3_def eval_nat_numeral)
  ultimately show ?thesis using mapping_pairs [of toks s3 kvs ts] by (auto simp: s1_def s2_def s3_def)
qed

text \<open>A whole file: a first section, and then the peers.\<close>

definition peers_tokens :: "(string \<times> (string \<times> string) list) list \<Rightarrow> token list" where
  "peers_tokens pcs = [Key, Scalar ''symmetric-peers'', Value, SequenceStart] @ concat (map peer_tokens pcs) @ [BlockEnd]"

definition file_tokens :: "string \<Rightarrow> (string \<times> string) list \<Rightarrow> (string \<times> (string \<times> string) list) list \<Rightarrow> token list" where
  "file_tokens g kvs pcs = [OtherToken, MappingStart] @ section_tokens g kvs @ [BlockEnd] @ peers_tokens pcs @ [BlockEnd, StreamEnd]"

lemma document_peers:
  assumes "list_ok st" and "pcs \<noteq> []" and "list_all good_peer pcs"
    and "coming toks (pos st) (peers_tokens pcs @ [BlockEnd, StreamEnd])"
  shows "case build_peers resolve fresh (peerid st) pcs of
      Inl e \<Rightarrow> document resolve fresh toks st = Some (Inl e)
    | Inr ps \<Rightarrow> \<exists>st'. document resolve fresh toks st = Some (Inr st') \<and> peer_init st' \<and>
        prior st' = rev ps @ prior st \<and> list_ok st'"
proof -
  define kb where "kb = strncpy 0 ''symmetric-peers'' 255 (key_buf st)"
  define c where "c = st\<lparr>key_buf := kb, tokn := SequenceStart, pos := Suc (Suc (Suc (Suc (pos st))))\<rparr>"
  define d where "d = c\<lparr>seqn := SEQ_SPEER, tokn := BlockEntry, pos := Suc (Suc (Suc (Suc (Suc (pos st)))))\<rparr>"
  have "short ''symmetric-peers''" by (simp add: short_def NUL_def)
  then have "buf (key_buf c) = ''symmetric-peers''" by (simp add: c_def kb_def)
  moreover have "\<exists>pc pcs'. pcs = pc # pcs'" using assms(2) by (cases pcs) auto
  ultimately have start: "start_sequence toks c = d"
    using assms(4) by (auto simp: start_sequence_def strncmp0_def scan_def peers_tokens_def peer_tokens_def
        c_def d_def Let_def)
  have "document_step resolve fresh toks st = entries resolve fresh toks d"
    using assms(4) start
    by (simp add: document_step_def read_key_def scan_def peers_tokens_def Let_def kb_def [symmetric])
      (simp add: c_def d_def)
  then have step: "document resolve fresh toks st =
      (case entries resolve fresh toks d of None \<Rightarrow> None | Some (Inl e) \<Rightarrow> Some (Inl e)
       | Some (Inr st1) \<Rightarrow> if tokn st1 = StreamEnd then Some (Inr st1) else document resolve fresh toks st1)"
    by (subst document.simps) simp
  have "coming toks (pos d) (tl (concat (map peer_tokens pcs)) @ BlockEnd # [BlockEnd, StreamEnd])"
    using assms(2,4) by (cases pcs) (simp_all add: peers_tokens_def d_def peer_tokens_def)
  note ent = entries_peers [OF _ _ assms(2,3) this, where resolve = resolve and fresh = fresh]
  have d: "seqn d = SEQ_SPEER" "list_ok d" "peerid d = peerid st" "prior d = prior st"
    using assms(1) by (simp_all add: d_def c_def list_ok_def prior_def)
  show ?thesis
  proof (cases "build_peers resolve fresh (peerid st) pcs")
    case (Inl e)
    then show ?thesis using ent [OF d(1,2)] d(3) step by simp
  next
    case (Inr ps)
    with ent [OF d(1,2)] d(3,4) obtain e where
      e: "entries resolve fresh toks d = Some (Inr e)" "peer_init e" "prior e = rev ps @ prior st" "list_ok e"
        "tokn e = BlockEnd" "coming toks (pos e) [BlockEnd, StreamEnd]" by auto
    define e1 where "e1 = e\<lparr>tokn := BlockEnd, pos := Suc (pos e)\<rparr>"
    have "document resolve fresh toks st = document resolve fresh toks e" using step e(1,5) by simp
    also have "\<dots> = document resolve fresh toks e1"
      using document_skip [OF e(6)] by (simp add: e1_def)
    also have "\<dots> = Some (Inr (e1\<lparr>tokn := StreamEnd, pos := Suc (pos e1)\<rparr>))"
      by (rule document_stop [of _ _ "[]"]) (use e(6) in \<open>simp add: e1_def\<close>)
    finally show ?thesis using Inr e(2-4) by (auto simp: e1_def prior_def list_ok_def)
  qed
qed


lemma load_config_file:
  assumes "pcs \<noteq> []" and "list_all good_peer pcs" and "coming toks 0 (file_tokens g kvs pcs)"
  shows "case build_peers resolve fresh 1 pcs of
      Inl e \<Rightarrow> load_config resolve fresh toks st = Some (Inl e)
    | Inr ps \<Rightarrow> \<exists>st'. load_config resolve fresh toks st = Some (Inr (0, st')) \<and> peers st' = Some (rev ps)"
proof -
  define s0 where "s0 = st\<lparr>pos := 0, peer_init := False, peerid := 1\<rparr>"
  define s1 where "s1 = s0\<lparr>tokn := OtherToken, pos := 1\<rparr>"
  define s2 where "s2 = s1\<lparr>tokn := MappingStart, pos := 2\<rparr>"
  have rest: "coming toks (pos s2) (section_tokens g kvs @ BlockEnd # peers_tokens pcs @ [BlockEnd, StreamEnd])"
    "toks 0 = OtherToken" "toks (Suc 0) = MappingStart"
    using assms(3) by (simp_all add: s2_def s1_def s0_def file_tokens_def numeral_2_eq_2)
  obtain kb s3 where s3: "mapping toks s2 = Some s3" "s3 = s2\<lparr>key_buf := kb, tokn := BlockEnd, pos := pos s3\<rparr>"
    "coming toks (pos s3) (BlockEnd # peers_tokens pcs @ [BlockEnd, StreamEnd])"
    using mapping_section [OF rest(1)] by blast
  define s4 where "s4 = s3\<lparr>tokn := BlockEnd, pos := Suc (pos s3)\<rparr>"
  have "document resolve fresh toks s0 = document resolve fresh toks s1"
    using document_skip [of toks s0 OtherToken "[]"] rest(2) by (simp add: s0_def s1_def)
  also have "\<dots> = document resolve fresh toks s3"
  proof (rule document_mapping)
    show "coming toks (pos s1) (MappingStart # [])" using rest(3) by (simp add: s1_def)
    show "mapping toks (s1\<lparr>tokn := MappingStart, pos := Suc (pos s1)\<rparr>) = Some s3"
      using s3(1) by (simp add: s2_def s1_def numeral_2_eq_2)
    show "tokn s3 = BlockEnd" by (subst s3(2)) simp
  qed
  also have "\<dots> = document resolve fresh toks s4"
    using document_skip [OF s3(3)] by (simp add: s4_def)
  finally have doc: "document resolve fresh toks s0 = document resolve fresh toks s4" .
  have init: "\<not> peer_init s3" "peerid s3 = 1" by (subst s3(2), simp add: s2_def s1_def s0_def)+
  then have s4: "list_ok s4" "peerid s4 = 1" "prior s4 = []" by (simp_all add: s4_def list_ok_def prior_def)
  have "coming toks (pos s4) (peers_tokens pcs @ [BlockEnd, StreamEnd])" using s3(3) by (simp add: s4_def)
  from document_peers [OF s4(1) assms(1,2) this, where resolve = resolve and fresh = fresh] s4(2,3) doc
  have "case build_peers resolve fresh 1 pcs of
      Inl e \<Rightarrow> document resolve fresh toks s0 = Some (Inl e)
    | Inr ps \<Rightarrow> \<exists>st'. document resolve fresh toks s0 = Some (Inr st') \<and> peer_init st' \<and>
        prior st' = rev ps \<and> list_ok st'" by (simp split: sum.splits)
  then show ?thesis
    by (auto simp: load_config_def s0_def [symmetric] add_peer_def prior_def list_ok_def split: sum.splits)
qed

section \<open>A first section is passed over\<close>

lemma document_items:
  assumes "coming toks (pos st) (concat (map peer_tokens pcs) @ ts)"
  shows "\<exists>st'. document resolve fresh toks st = document resolve fresh toks st' \<and>
    st' = st\<lparr>key_buf := key_buf st', tokn := tokn st', pos := pos st'\<rparr> \<and> coming toks (pos st') ts"
  using assms
proof (induction pcs arbitrary: st)
  case Nil
  then show ?case by (intro exI [of _ st]) simp
next
  case (Cons pc pcs)
  let ?kvs = "(''name'', fst pc) # snd pc"
  let ?rest = "concat (map peer_tokens pcs) @ ts"
  define st1 where "st1 = st\<lparr>tokn := BlockEntry, pos := Suc (pos st)\<rparr>"
  define st2 where "st2 = st1\<lparr>tokn := MappingStart, pos := Suc (pos st1)\<rparr>"
  have ahead: "coming toks (pos st) (BlockEntry # MappingStart # pair_tokens ?kvs @ BlockEnd # ?rest)"
    using Cons.prems by (simp add: peer_tokens_def [of pc])
  then have "coming toks (pos st2) (pair_tokens ?kvs @ BlockEnd # ?rest)" by (simp add: st2_def st1_def)
  then obtain kb st3 where st3: "mapping toks st2 = Some st3"
    "st3 = st2\<lparr>key_buf := kb, tokn := BlockEnd, pos := pos st3\<rparr>" "coming toks (pos st3) ?rest"
    using mapping_pairs [of toks st2 ?kvs ?rest] by (auto simp: st2_def)
  have "document resolve fresh toks st = document resolve fresh toks st1"
    using document_skip [OF ahead] by (simp add: st1_def)
  also have "\<dots> = document resolve fresh toks st3"
  proof (rule document_mapping)
    show "coming toks (pos st1) (MappingStart # [])" using ahead by (simp add: st1_def)
    show "mapping toks (st1\<lparr>tokn := MappingStart, pos := Suc (pos st1)\<rparr>) = Some st3"
      using st3(1) by (simp add: st2_def)
    show "tokn st3 = BlockEnd" by (subst st3(2)) simp
  qed
  finally have doc: "document resolve fresh toks st = document resolve fresh toks st3" .
  obtain st4 where st4: "document resolve fresh toks st3 = document resolve fresh toks st4"
    "st4 = st3\<lparr>key_buf := key_buf st4, tokn := tokn st4, pos := pos st4\<rparr>" "coming toks (pos st4) ts"
    using Cons.IH [OF st3(3)] by blast
  have "st4 = st\<lparr>key_buf := key_buf st4, tokn := tokn st4, pos := pos st4\<rparr>"
    by (subst st4(2), subst st3(2)) (simp add: st2_def st1_def)
  with doc st4(1,3) show ?case by auto
qed

text \<open>A file with one section only, that holds the items of \<open>pc # pcs\<close>.\<close>

definition one_section :: "string \<Rightarrow> (string \<times> (string \<times> string) list) list \<Rightarrow> token list" where
  "one_section g pcs = [OtherToken, MappingStart, Key, Scalar g, Value, SequenceStart] @
     concat (map peer_tokens pcs) @ [BlockEnd, BlockEnd, StreamEnd]"

lemma load_config_one_section:
  assumes "pcs \<noteq> []" and "coming toks 0 (one_section g pcs)"
  shows "\<exists>st'. load_config resolve fresh toks st = Some (Inr (0, st')) \<and> peers st' = peers st"
proof -
  obtain pc rest where pcs: "pcs = pc # rest" using assms(1) by (cases pcs) auto
  let ?kvs = "(''name'', fst pc) # snd pc"
  let ?tail = "[BlockEnd, BlockEnd, StreamEnd]"
  define s0 where "s0 = st\<lparr>pos := 0, peer_init := False, peerid := 1\<rparr>"
  define s1 where "s1 = s0\<lparr>tokn := OtherToken, pos := 1\<rparr>"
  define s2 where "s2 = s1\<lparr>tokn := MappingStart, pos := 2\<rparr>"
  have ahead: "toks 0 = OtherToken" "toks (Suc 0) = MappingStart"
    "coming toks (pos s2) (section_tokens g ?kvs @ concat (map peer_tokens rest) @ ?tail)"
    using assms(2) by (simp_all add: pcs one_section_def section_tokens_def peer_tokens_def s2_def numeral_2_eq_2)
  obtain kb s3 where s3: "mapping toks s2 = Some s3" "s3 = s2\<lparr>key_buf := kb, tokn := BlockEnd, pos := pos s3\<rparr>"
    "coming toks (pos s3) (concat (map peer_tokens rest) @ ?tail)"
    using mapping_section [OF ahead(3)] by blast
  have "document resolve fresh toks s0 = document resolve fresh toks s1"
    using document_skip [of toks s0 OtherToken "[]"] ahead(1) by (simp add: s0_def s1_def)
  also have "\<dots> = document resolve fresh toks s3"
  proof (rule document_mapping)
    show "coming toks (pos s1) (MappingStart # [])" using ahead(2) by (simp add: s1_def)
    show "mapping toks (s1\<lparr>tokn := MappingStart, pos := Suc (pos s1)\<rparr>) = Some s3"
      using s3(1) by (simp add: s2_def s1_def numeral_2_eq_2)
    show "tokn s3 = BlockEnd" by (subst s3(2)) simp
  qed
  also obtain s4 where s4: "document resolve fresh toks s3 = document resolve fresh toks s4"
    "s4 = s3\<lparr>key_buf := key_buf s4, tokn := tokn s4, pos := pos s4\<rparr>" "coming toks (pos s4) ?tail"
    using document_items [OF s3(3)] by blast
  note s4(1)
  also have "document resolve fresh toks s4 = document resolve fresh toks (s4\<lparr>tokn := BlockEnd, pos := Suc (pos s4)\<rparr>)"
    using document_skip [OF s4(3)] by simp
  also have "\<dots> = document resolve fresh toks (s4\<lparr>tokn := BlockEnd, pos := Suc (Suc (pos s4))\<rparr>)"
    using document_skip [of toks "s4\<lparr>tokn := BlockEnd, pos := Suc (pos s4)\<rparr>" BlockEnd "[]"] s4(3) by simp
  also have "\<dots> = Some (Inr (s4\<lparr>tokn := StreamEnd, pos := Suc (Suc (Suc (pos s4)))\<rparr>))"
    using document_stop [of toks "s4\<lparr>tokn := BlockEnd, pos := Suc (Suc (pos s4))\<rparr>" "[]"] s4(3) by simp
  finally have doc: "document resolve fresh toks s0 = Some (Inr (s4\<lparr>tokn := StreamEnd, pos := Suc (Suc (Suc (pos s4)))\<rparr>))" .
  have "\<not> peer_init s4" "peers s4 = peers st"
    by (subst s4(2), subst s3(2), simp add: s2_def s1_def s0_def)+
  with doc show ?thesis by (simp add: load_config_def s0_def)
qed

section \<open>Neighbouring names\<close>

lemma assign_interface: "assign resolve ''interface'' v p = Inr (set_text ifname_off v 255 p)"
  by (simp add: assign_def is_prefix_of_def strncmp0_def IFNAMSIZ_def)

lemma assign_tunnel: "assign resolve ''tunnel'' v p = Inr (set_text tifname_off v 255 p)"
  by (simp add: assign_def is_prefix_of_def strncmp0_def IFNAMSIZ_def)

lemma field_interface:
  "NUL \<notin> set v \<Longrightarrow> length v < 255 \<Longrightarrow> field ifname_off (set_text ifname_off v 255 p) = v"
  unfolding field_def set_text_def by (simp, rule cstr_strncpy) (simp_all add: offsets)

lemma field_tunnel:
  "NUL \<notin> set v \<Longrightarrow> length v < 255 \<Longrightarrow> field tifname_off (set_text tifname_off v 255 p) = v"
  unfolding field_def set_text_def by (simp, rule cstr_strncpy) (simp_all add: offsets)

text \<open>The tunnel's name starts behind the interface's.\<close>

lemma field_interface_tunnel:
  assumes "NUL \<notin> set a" and "length a < IFNAMSIZ"
  shows "field ifname_off (set_text tifname_off b 255 (set_text ifname_off a 255 p)) = a"
proof -
  let ?m = "strncpy ifname_off a 255 (text_mem p)"
  have "cstr ifname_off text_end (strncpy tifname_off b 255 ?m) = cstr ifname_off text_end ?m"
    by (rule cstr_local [where z = "ifname_off + length a"])
      (use assms in \<open>auto simp: strncpy_def offsets\<close>)
  also have "\<dots> = a" by (rule cstr_strncpy) (use assms in \<open>simp_all add: offsets\<close>)
  finally show ?thesis by (simp add: field_def set_text_def)
qed

lemma field_tunnel_interface:
  assumes "length a < IFNAMSIZ"
  shows "field tifname_off (set_text ifname_off a 255 q) = []"
  unfolding field_def using assms by (intro cstr_empty) (simp_all add: set_text_def strncpy_def offsets)

section \<open>Loops that do not end\<close>

lemma fields_stuck:
  assumes "tokn st \<notin> {Key, BlockEntry, BlockEnd}"
  shows "fields resolve fresh toks st = None"
proof -
  have "fields resolve fresh toks st = Some r \<Longrightarrow> \<not> (tokn st \<notin> {Key, BlockEntry, BlockEnd})" for r
    by (erule fields.raw_induct
        [where P = "\<lambda>resolve fresh toks st r. \<not> (tokn st \<notin> {Key, BlockEntry, BlockEnd})", rotated])
      (auto simp: field_step_def split: if_splits, blast)
  with assms show ?thesis by (metis not_None_eq)
qed

section \<open>The end of the stream\<close>

text \<open>Every token the loader looks at came from the scanner.\<close>

lemma scan_tokn: "tokn (scan toks st) \<in> range toks"
  by (simp add: scan_def)

lemma pair_value_tokn: "pair_value resolve fresh v st = Inr d \<Longrightarrow> tokn d = tokn st"
  by (auto simp: pair_value_def new_peer_def add_peer_def Let_def split: if_splits sum.splits)

lemma field_step_scan: "field_step resolve fresh toks st = Inr st' \<Longrightarrow> st' = st \<or> (\<exists>x. st' = scan toks x)"
  by (auto simp: field_step_def Let_def split: if_splits token.splits sum.splits)

lemma field_step_tokn:
  "field_step resolve fresh toks st = Inr st' \<Longrightarrow> tokn st \<in> range toks \<Longrightarrow> tokn st' \<in> range toks"
  using field_step_scan [of resolve fresh toks st st'] scan_tokn by auto

lemma fields_tokn:
  "fields resolve fresh toks st = Some r \<Longrightarrow> tokn st \<in> range toks \<longrightarrow> (\<forall>st'. r = Inr st' \<longrightarrow> tokn st' \<in> range toks)"
proof (induction rule: fields.raw_induct [rotated, consumes 1])
  case (1 fields resolve fresh toks st r)
  show ?case
  proof (cases "tokn st \<noteq> BlockEntry \<and> tokn st \<noteq> BlockEnd")
    case True
    with 1(2) consider e where "r = Inl e"
      | st1 where "field_step resolve fresh toks st = Inr st1" "fields resolve fresh toks st1 = Some r"
      by (cases "field_step resolve fresh toks st") auto
    then show ?thesis by cases (use 1(1) field_step_tokn in blast)+
  qed (use 1 in auto)
qed

lemma entries_tokn:
  "entries resolve fresh toks st = Some r \<Longrightarrow> \<forall>st'. r = Inr st' \<longrightarrow> tokn st' \<in> range toks"
proof (induction rule: entries.raw_induct [rotated, consumes 1])
  case (1 entries resolve fresh toks st r)
  let ?a = "scan toks st"
  let ?m = "if tokn ?a = MappingStart then fields resolve fresh toks (scan toks ?a) else Some (Inr ?a)"
  consider e where "r = Inl e"
    | b where "?m = Some (Inr b)" "if tokn b = BlockEnd then r = Inr b else entries resolve fresh toks b = Some r"
    using 1(2) by (auto simp: Let_def split: option.splits sum.splits if_splits)
  then show ?case
  proof cases
    case 2
    then have "tokn b \<in> range toks"
      using fields_tokn [of resolve fresh toks "scan toks ?a"] scan_tokn [of toks "?a"] scan_tokn [of toks st]
      by (cases "tokn ?a = MappingStart") (simp, metis option.inject sum.inject(2))
    with 2(2) 1(1) show ?thesis by (cases "tokn b = BlockEnd") auto
  qed simp
qed

lemma mapping_tokn: "mapping toks st = Some st' \<Longrightarrow> tokn st' = BlockEnd"
  by (erule mapping.raw_induct [where P = "\<lambda>toks st st'. tokn st' = BlockEnd", rotated])
    (auto simp: Let_def split: if_splits)

lemma document_step_tokn:
  assumes "document_step resolve fresh toks st = Some (Inr st')"
  shows "tokn st' \<in> range toks \<or> tokn st' = BlockEnd"
proof -
  have "tokn (scan toks x) \<in> range toks" "tokn (read_key toks x) \<in> range toks" "tokn (start_sequence toks x) \<in> range toks" for x
    by (simp_all add: scan_tokn read_key_def start_sequence_def Let_def)
  with assms entries_tokn mapping_tokn show ?thesis
    by (fastforce simp: document_step_def Let_def split: if_splits)
qed

lemma document_stream_end:
  "document resolve fresh toks st = Some r \<Longrightarrow> (\<exists>st'. r = Inr st') \<longrightarrow> (\<exists>i. toks i = StreamEnd)"
proof (induction rule: document.raw_induct [rotated, consumes 1])
  case (1 document resolve fresh toks st r)
  consider e where "r = Inl e"
    | st1 where "document_step resolve fresh toks st = Some (Inr st1)"
      "if tokn st1 = StreamEnd then r = Inr st1 else document resolve fresh toks st1 = Some r"
    using 1(2) by (auto split: option.splits sum.splits if_splits)
  then show ?case
  proof cases
    case 2
    show ?thesis
    proof (cases "tokn st1 = StreamEnd")
      case True
      with document_step_tokn [OF 2(1)] show ?thesis by (metis rangeE token.distinct)
    next
      case False
      with 2(2) 1(1) show ?thesis by simp
    qed
  qed simp
qed

section \<open>Properties\<close>

text \<open>
  C36: a configuration file with a first section and then a list of peers is loaded completely:
  the loader stops, and the master list holds exactly the peers of the file, the last one
  first, numbered in their order, each built from its name and its settings in order; or the
  program ends with the error of the first setting that is refused.
\<close>

theorem load_config_loads_peers:
  assumes "pcs \<noteq> []" and "list_all good_peer pcs" and "coming toks 0 (file_tokens g kvs pcs)"
  shows "case build_peers resolve fresh 1 pcs of
      Inl e \<Rightarrow> load_config resolve fresh toks st = Some (Inl e)
    | Inr ps \<Rightarrow> \<exists>st'. load_config resolve fresh toks st = Some (Inr (0, st')) \<and> peers st' = Some (rev ps)"
  by (rule load_config_file [OF assms])

definition blank_peer :: peer_context where
  "blank_peer = \<lparr>pid = 0, ip_version = 0, direction = 0, threadcount = 0, peerip = 0, myip = 0,
     text_mem = (\<lambda>_. NUL)\<rparr>"

definition blank_loader :: loader where
  "blank_loader = \<lparr>pos = 0, tokn = NoToken, key_buf = (\<lambda>_. NUL), name_buf = (\<lambda>_. NUL),
     last_name_buf = (\<lambda>_. NUL), seqn = 0, peer_init = False, peerid = 0, peer = blank_peer, peers = None\<rparr>"

text \<open>The shape of the sample file: an ingress and an egress peer.\<close>

definition sample_peers :: "(string \<times> (string \<times> string) list) list" where
  "sample_peers =
     [(''texas-in'', [(''type'', ''ingress''), (''interface'', ''eth1''), (''tunnel'', ''tap0''),
        (''peer-ip'', ''10.0.0.2''), (''threads'', ''1'')]),
      (''texas-out'', [(''interface'', ''eth1''), (''tunnel'', ''tap0''), (''type'', ''egress''), (''threads'', ''2'')])]"

definition stream_of :: "token list \<Rightarrow> nat \<Rightarrow> token" where
  "stream_of ts i = (if i < length ts then ts ! i else NoToken)"

lemma coming_stream_of: "coming (stream_of ts) 0 ts"
  using coming_nth [of ts "[]" ts] by (simp add: stream_of_def [abs_def])

theorem load_config_loads_peers_witness:
  "\<exists>p1 p2 st'. load_config (\<lambda>_. 7) (\<lambda>_. blank_peer)
      (stream_of (file_tokens ''global'' [(''name'', ''t'')] sample_peers)) blank_loader = Some (Inr (0, st')) \<and>
    peers st' = Some [p2, p1] \<and> direction p1 = DIR_IN \<and> direction p2 = DIR_OUT \<and> threadcount p2 = 2 \<and>
    peerip p1 = 7 \<and> pid p1 = 1 \<and> pid p2 = 2"
proof -
  have "case build_peers (\<lambda>_. 7) (\<lambda>_. blank_peer) 1 sample_peers of
      Inr [p1, p2] \<Rightarrow> direction p1 = DIR_IN \<and> direction p2 = DIR_OUT \<and> threadcount p2 = 2 \<and>
        peerip p1 = 7 \<and> pid p1 = 1 \<and> pid p2 = 2
    | _ \<Rightarrow> False" by code_simp
  then obtain p1 p2 where ps: "build_peers (\<lambda>_. 7) (\<lambda>_. blank_peer) 1 sample_peers = Inr [p1, p2]"
    "direction p1 = DIR_IN" "direction p2 = DIR_OUT" "threadcount p2 = 2" "peerip p1 = 7" "pid p1 = 1" "pid p2 = 2"
    by (auto split: sum.splits list.splits)
  have "list_all good_peer sample_peers" by code_simp
  moreover have "sample_peers \<noteq> []" by (simp add: sample_peers_def)
  ultimately have "case build_peers (\<lambda>_. 7) (\<lambda>_. blank_peer) 1 sample_peers of
      Inl e \<Rightarrow> load_config (\<lambda>_. 7) (\<lambda>_. blank_peer)
        (stream_of (file_tokens ''global'' [(''name'', ''t'')] sample_peers)) blank_loader = Some (Inl e)
    | Inr ps \<Rightarrow> \<exists>st'. load_config (\<lambda>_. 7) (\<lambda>_. blank_peer)
        (stream_of (file_tokens ''global'' [(''name'', ''t'')] sample_peers)) blank_loader = Some (Inr (0, st')) \<and>
        peers st' = Some (rev ps)"
    by (intro load_config_loads_peers [OF _ _ coming_stream_of])
  with ps show ?thesis by auto
qed

text \<open>
  \<^verbatim>\<open>load_config\<close> reports success only after the scanner has delivered the end of the stream. A
  file with a syntax error, on which the scanner never does, either ends the program with the
  error of a setting or is read for ever.
\<close>

theorem load_config_needs_stream_end:
  assumes "\<forall>i. toks i \<noteq> StreamEnd"
  shows "load_config resolve fresh toks st = None \<or> (\<exists>e. load_config resolve fresh toks st = Some (Inl e))"
  using assms document_stream_end [of resolve fresh toks "st\<lparr>pos := 0, peer_init := False, peerid := 1\<rparr>"]
  by (auto simp: load_config_def split: option.split sum.split)

theorem load_config_needs_stream_end_witness:
  "load_config (\<lambda>_. 7) (\<lambda>_. blank_peer) (stream_of [OtherToken, MappingStart]) blank_loader = None \<or>
   (\<exists>e. load_config (\<lambda>_. 7) (\<lambda>_. blank_peer) (stream_of [OtherToken, MappingStart]) blank_loader = Some (Inl e))"
  by (rule load_config_needs_stream_end) (simp add: stream_of_def nth_Cons split: nat.split)

text \<open>
  The loop over a peer's fields reads a token only when it sees a key: on any token that is
  neither a key nor the end of the entry, such as the one a scan error or the end of the stream
  gives, \<^verbatim>\<open>load_config\<close> never returns.
\<close>

theorem field_loop_hangs:
  assumes "tokn st \<notin> {Key, BlockEntry, BlockEnd}"
  shows "fields resolve fresh toks st = None"
  by (rule fields_stuck [OF assms])

theorem field_loop_hangs_witness: "fields (\<lambda>_. 0) (\<lambda>_. blank_peer) (\<lambda>_. NoToken) blank_loader = None"
  by (rule field_loop_hangs) (simp add: blank_loader_def)

text \<open>
  The loop over the first mapping of a file reads past whatever is in it: when the peers
  are the first section, all of them are ignored, \<^verbatim>\<open>load_config\<close> reports success, and the master
  list is never initialised.
\<close>

theorem first_section_ignored:
  assumes "pcs \<noteq> []" and "coming toks 0 (one_section ''symmetric-peers'' pcs)"
  shows "\<exists>st'. load_config resolve fresh toks st = Some (Inr (0, st')) \<and> peers st' = peers st"
  by (rule load_config_one_section [OF assms])

theorem first_section_ignored_witness:
  "\<exists>st'. load_config (\<lambda>_. 7) (\<lambda>_. blank_peer)
      (stream_of (one_section ''symmetric-peers'' sample_peers)) blank_loader = Some (Inr (0, st')) \<and>
    peers st' = None"
proof -
  have "sample_peers \<noteq> []" by (simp add: sample_peers_def)
  from first_section_ignored [OF this coming_stream_of, where resolve = "\<lambda>_. 7" and fresh = "\<lambda>_. blank_peer"
      and st = blank_loader] show ?thesis by (simp add: blank_loader_def)
qed

text \<open>
  The name of the interface and the name of the tunnel are stored 255 characters wide into
  neighbouring fields of 16. Given in this order both are kept; in the other order the tunnel's
  name is overwritten and reads as the empty string.
\<close>

theorem interface_before_tunnel:
  assumes "NUL \<notin> set a" and "length a < IFNAMSIZ" and "NUL \<notin> set b" and "length b < 255"
  shows "(case assigns resolve [(''interface'', a), (''tunnel'', b)] p of
      Inl e \<Rightarrow> False | Inr q \<Rightarrow> field ifname_off q = a \<and> field tifname_off q = b) \<and>
    (case assigns resolve [(''tunnel'', b), (''interface'', a)] p of
      Inl e \<Rightarrow> False | Inr q \<Rightarrow> field ifname_off q = a \<and> field tifname_off q = [])"
proof -
  have "length a < 255" using assms(2) by (simp add: IFNAMSIZ_def)
  with assms show ?thesis by (simp add: assign_interface assign_tunnel field_interface_tunnel field_tunnel
      field_interface field_tunnel_interface)
qed

theorem interface_before_tunnel_witness:
  "(case assigns (\<lambda>_. 0) [(''interface'', ''eth1''), (''tunnel'', ''tap0'')] blank_peer of
      Inl e \<Rightarrow> False | Inr q \<Rightarrow> field ifname_off q = ''eth1'' \<and> field tifname_off q = ''tap0'') \<and>
    (case assigns (\<lambda>_. 0) [(''tunnel'', ''tap0''), (''interface'', ''eth1'')] blank_peer of
      Inl e \<Rightarrow> False | Inr q \<Rightarrow> field ifname_off q = ''eth1'' \<and> field tifname_off q = [])"
  by (rule interface_before_tunnel) (simp_all add: NUL_def IFNAMSIZ_def)

end
