(* ===== verification/Atomics.thy ===== *)
theory Atomics
  imports Prelude
begin

text \<open>
  The lock words of \<^verbatim>\<open>util.c\<close>: each operation takes the content of the lock word and returns
  the C return value with the new content, as one indivisible step. The second part states
  the try-lock contract the ring relies on, with the mutual exclusion it gives to any number
  of threads; the last part is \<^verbatim>\<open>adaptive_spin\<close>.
\<close>

unbundle bit_operations_syntax

section \<open>Atomic operations\<close>

text \<open>\<^verbatim>\<open>__sync_val_compare_and_swap\<close>: the previous content, and the new one.\<close>

definition val_compare_and_swap :: "i32 \<Rightarrow> i32 \<Rightarrow> i32 \<Rightarrow> i32 \<times> i32" where
  "val_compare_and_swap cell old new = (cell, if cell = old then new else cell)"

definition atomic_lock :: "i32 \<Rightarrow> i32 \<times> i32" where
  "atomic_lock L = val_compare_and_swap L 0 1"

definition atomic_unlock :: "i32 \<Rightarrow> i32 \<times> i32" where
  "atomic_unlock L = val_compare_and_swap L 1 0"

definition atomic_cond_lock :: "i32 \<Rightarrow> i32 \<times> i32" where
  "atomic_cond_lock L = val_compare_and_swap L 0 1"

text \<open>\<^verbatim>\<open>atomic_islocked\<close> works on a copy: it ands the argument into a local 1.\<close>

definition atomic_islocked :: "i32 \<Rightarrow> i32" where
  "atomic_islocked L = (let test = (1 :: i32) AND L in if test = 1 then test else 0)"

lemma atomic_lock_simps [simp]:
  "fst (atomic_lock L) = L"
  "snd (atomic_lock 0) = 1"
  "L \<noteq> 0 \<Longrightarrow> snd (atomic_lock L) = L"
  by (simp_all add: atomic_lock_def val_compare_and_swap_def)

lemma atomic_unlock_simps [simp]:
  "fst (atomic_unlock L) = L"
  "snd (atomic_unlock 1) = 0"
  "snd (atomic_unlock 0) = 0"
  "L \<noteq> 1 \<Longrightarrow> snd (atomic_unlock L) = L"
  by (simp_all add: atomic_unlock_def val_compare_and_swap_def)

lemma atomic_cond_lock_eq: "atomic_cond_lock = atomic_lock"
  by (simp add: fun_eq_iff atomic_cond_lock_def atomic_lock_def)

lemma atomic_islocked_odd: "atomic_islocked L = (if odd L then 1 else 0)"
  by (simp add: atomic_islocked_def Let_def one_and_eq odd_iff_mod_2_eq_one)

section \<open>Try-lock contract and mutual exclusion\<close>

text \<open>
  Threads that share one lock word: a thread enters its critical section when its acquire
  returns 0, an acquire that fails leaves it outside, and only a thread inside releases.
\<close>

record lock_state =
  cell :: i32
  inside :: "nat set"

inductive lock_step ::
  "(i32 \<Rightarrow> i32 \<times> i32) \<Rightarrow> (i32 \<Rightarrow> i32 \<times> i32) \<Rightarrow> lock_state \<Rightarrow> lock_state \<Rightarrow> bool"
  for acquire release where
  enter: "acquire (cell s) = (0, c) \<Longrightarrow> i \<notin> inside s \<Longrightarrow>
     lock_step acquire release s (s\<lparr>cell := c, inside := insert i (inside s)\<rparr>)"
| refused: "acquire (cell s) = (r, c) \<Longrightarrow> r \<noteq> 0 \<Longrightarrow>
     lock_step acquire release s (s\<lparr>cell := c\<rparr>)"
| leave: "i \<in> inside s \<Longrightarrow> release (cell s) = (r, c) \<Longrightarrow>
     lock_step acquire release s (s\<lparr>cell := c, inside := inside s - {i}\<rparr>)"

definition lock_init :: lock_state where
  "lock_init = \<lparr>cell = 0, inside = {}\<rparr>"

locale try_lock =
  fixes acquire :: "i32 \<Rightarrow> i32 \<times> i32"
    and release :: "i32 \<Rightarrow> i32 \<times> i32"
    and free :: "i32 \<Rightarrow> bool"
    and held :: "i32 \<Rightarrow> bool"
  assumes acquire_free: "free c \<Longrightarrow> fst (acquire c) = 0 \<and> held (snd (acquire c))"
    and acquire_held: "held c \<Longrightarrow> fst (acquire c) \<noteq> 0 \<and> snd (acquire c) = c"
    and release_held: "held c \<Longrightarrow> free (snd (release c))"
    and not_both: "\<not> (free c \<and> held c)"
begin

definition one_inside :: "lock_state \<Rightarrow> bool" where
  "one_inside s \<longleftrightarrow> (free (cell s) \<and> inside s = {}) \<or> (held (cell s) \<and> (\<exists>i. inside s = {i}))"

lemma step_one_inside:
  "lock_step acquire release s t \<Longrightarrow> one_inside s \<Longrightarrow> one_inside t"
proof (induction rule: lock_step.induct)
  case (enter s c i)
  then show ?case using acquire_free [of "cell s"] acquire_held [of "cell s"]
    by (auto simp: one_inside_def)
next
  case (refused s r c)
  then show ?case using acquire_free [of "cell s"] acquire_held [of "cell s"]
    by (auto simp: one_inside_def)
next
  case (leave i s r c)
  then show ?case using release_held [of "cell s"] by (auto simp: one_inside_def)
qed

lemma run_one_inside:
  "(lock_step acquire release)\<^sup>*\<^sup>* s t \<Longrightarrow> one_inside s \<Longrightarrow> one_inside t"
  by (induction rule: rtranclp_induct) (auto intro: step_one_inside)

lemma mutual_exclusion:
  assumes "(lock_step acquire release)\<^sup>*\<^sup>* s t" and "free (cell s)" and "inside s = {}"
    and "i \<in> inside t" and "j \<in> inside t"
  shows "i = j \<and> held (cell t)"
  using run_one_inside [OF assms(1)] assms(2-5) by (auto simp: one_inside_def)

end

text \<open>The program's lock words are free at 0 and held at 1.\<close>

interpretation ring_lock: try_lock atomic_lock atomic_unlock "\<lambda>c. c = 0" "\<lambda>c. c = 1"
  by unfold_locales auto

text \<open>
  C31: however many threads run \<^verbatim>\<open>atomic_lock\<close> and \<^verbatim>\<open>atomic_unlock\<close> on one lock word in any
  interleaving, starting with the word 0 and nobody inside, at most one of them is between
  a successful lock and its unlock, and then the word is 1.
\<close>

theorem atomic_lock_mutual_exclusion:
  assumes "(lock_step atomic_lock atomic_unlock)\<^sup>*\<^sup>* lock_init t"
    and "i \<in> inside t" and "j \<in> inside t"
  shows "i = j \<and> cell t = 1"
  using ring_lock.mutual_exclusion [OF assms(1) _ _ assms(2,3)] by (simp add: lock_init_def)

theorem atomic_lock_mutual_exclusion_witness:
  "\<exists>t. (lock_step atomic_lock atomic_unlock)\<^sup>*\<^sup>* lock_init t \<and> 7 \<in> inside t \<and>
     (\<forall>j \<in> inside t. j = 7)"
proof -
  let ?t = "lock_init\<lparr>cell := 1, inside := {7}\<rparr>"
  have "lock_step atomic_lock atomic_unlock lock_init ?t"
    using lock_step.enter [of atomic_lock lock_init 1 7]
    by (simp add: lock_init_def prod_eq_iff)
  then have run: "(lock_step atomic_lock atomic_unlock)\<^sup>*\<^sup>* lock_init ?t" by blast
  have "j = 7" if "j \<in> inside ?t" for j
    using atomic_lock_mutual_exclusion [OF run that, of 7] by simp
  with run show ?thesis by (intro exI [of _ ?t]) simp
qed

section \<open>adaptive\_spin\<close>

text \<open>
  The back-off of a waiting thread: the interval is adjusted, then the loop sleeps for as
  long as \<open>watch\<close> is 0. \<open>watch\<close> is a parameter passed by value, so no other thread can end
  the loop; \<open>None\<close> is a call that does not return.
\<close>

record timespec =
  tv_sec :: int
  tv_nsec :: int

definition spin_interval :: "timespec \<Rightarrow> int \<Rightarrow> timespec \<times> int" where
  "spin_interval ts spins =
     (let inc = 1000;
          (ts1, spins1) =
            (if tv_nsec ts < inc then (ts\<lparr>tv_sec := 0, tv_nsec := inc\<rparr>, 0)
             else if spins < 1000000 \<and> tv_nsec ts \<ge> 250000
               then (ts\<lparr>tv_nsec := tv_nsec ts div 2\<rparr>, spins - 100000)
             else if tv_nsec ts \<ge> 500000 then (ts\<lparr>tv_nsec := inc\<rparr>, spins)
             else (ts, spins))
      in (ts1\<lparr>tv_nsec := tv_nsec ts1 + inc\<rparr>, spins1))"

partial_function (option) spin_wait :: "int \<Rightarrow> int \<Rightarrow> int option" where
  "spin_wait watch spins = (if watch = 0 then spin_wait watch (spins + 1) else Some spins)"

definition adaptive_spin :: "timespec \<Rightarrow> int \<Rightarrow> int \<Rightarrow> (timespec \<times> int) option" where
  "adaptive_spin ts watch spins =
     (let (ts1, spins1) = spin_interval ts spins
      in do { s \<leftarrow> spin_wait watch spins1; Some (ts1, s) })"

lemma spin_wait_diverges: "spin_wait 0 spins = None"
proof -
  have "spin_wait w n = Some r \<Longrightarrow> w \<noteq> 0" for w n r
    by (erule spin_wait.raw_induct [where P = "\<lambda>w n r. w \<noteq> 0", rotated]) (auto split: if_splits)
  then show ?thesis by (metis not_None_eq)
qed

text \<open>
  \<^verbatim>\<open>adaptive_spin\<close> returns exactly when the watched value passed to it is nonzero; called
  with 0 it never returns.
\<close>

theorem adaptive_spin_returns_iff: "(\<exists>r. adaptive_spin ts watch spins = Some r) \<longleftrightarrow> watch \<noteq> 0"
  by (cases "watch = 0")
    (simp_all add: adaptive_spin_def spin_wait_diverges spin_wait.simps [of watch] split: prod.split)

lemma spin_interval_bounds:
  assumes "0 \<le> tv_nsec ts" and "tv_nsec ts < 500000"
  shows "2000 \<le> tv_nsec (fst (spin_interval ts spins)) \<and>
         tv_nsec (fst (spin_interval ts spins)) \<le> 501000"
  using assms by (auto simp: spin_interval_def Let_def)

end
