(* ===== verification/Ring.thy ===== *)
theory Ring
  imports Atomics
begin

text \<open>
  The ring buffer of \<^verbatim>\<open>ring.c\<close> and \<^verbatim>\<open>ring.h\<close>: the block descriptors \<open>RNG\<close>, the queue \<open>Q\<close>
  and its operations. Pointers into the data pool are byte offsets, a returned \<open>RNG *\<close> is
  \<open>NULL\<close>, \<open>LOCKFAIL\<close> or the index of a slot. The meaning given here is that of one call
  running alone; an access outside the array of descriptors or the data pool is a fault, and a
  scan that never finds an unlocked slot is \<open>None\<close>.
\<close>

section \<open>Data\<close>

text \<open>\<^verbatim>\<open>struct headers\<close> as its two byte images, 14 and 20 bytes long.\<close>

record headers =
  eh :: "u8 list"
  iph :: "u8 list"

definition headers_ok :: "headers \<Rightarrow> bool" where
  "headers_ok hdr \<longleftrightarrow> length (eh hdr) = 14 \<and> length (iph hdr) = 20"

definition HEADER :: u32 where "HEADER = 0xf01abcde"
definition FOOTER :: u32 where "FOOTER = 0xcafeface"

record RNG =
  header :: u32
  footer :: nat
  blen :: int
  bindex :: nat
  block_lock :: i32
  ethernet_frame :: nat
  ipheader :: nat
  bdata :: nat

record Q =
  qid :: u32
  bsz :: u32
  rsz :: u32
  q_in :: u32
  q_out :: u32
  sz :: u32
  qlock :: i32
  spins :: u32
  full :: u8
  qts :: timespec
  R :: "RNG list"
  pool :: "u8 list"

datatype ring_ptr = NULL | LOCKFAIL | Slot nat

text \<open>The zeroed descriptor \<^verbatim>\<open>calloc\<close> gives.\<close>

definition zero_RNG :: RNG where
  "zero_RNG = \<lparr>header = 0, footer = 0, blen = 0, bindex = 0, block_lock = 0,
     ethernet_frame = 0, ipheader = 0, bdata = 0\<rparr>"

definition ETH_HDRLEN :: nat where "ETH_HDRLEN = 14"
definition IP4_HDRLEN :: nat where "IP4_HDRLEN = 20"
definition ETHIP4 :: nat where "ETHIP4 = IP4_HDRLEN + ETH_HDRLEN"
definition sizeof_RNG :: nat where "sizeof_RNG = 56"

lemmas frame_consts = ETH_HDRLEN_def IP4_HDRLEN_def ETHIP4_def

section \<open>Initialisation\<close>

definition valid_RNG :: "u8 list \<Rightarrow> RNG \<Rightarrow> bool" where
  "valid_RNG mem r \<longleftrightarrow> header r = HEADER \<and> read_at (footer r) 4 mem = bytes_of_u32 FOOTER"

text \<open>
  One pass of the initialisation loop. The products are 32-bit; the footer's address is the
  end of the block less 4, computed in 64 bits.
\<close>

definition init_block :: "u32 \<Rightarrow> headers \<Rightarrow> nat \<Rightarrow> u8 list \<Rightarrow> (RNG \<times> u8 list) res" where
  "init_block bs hdr i mem =
     (let ef = unat (of_nat i * bs);
          block_end = unat (of_nat (i + 1) * bs);
          r = zero_RNG\<lparr>header := HEADER, ethernet_frame := ef, ipheader := ef + ETH_HDRLEN,
                bdata := ef + ETHIP4, bindex := i, footer := block_end - 4, block_lock := 0\<rparr>
      in if block_end < 4 then Inl (Fault OutOfBounds)
         else case write_at (block_end - 4) (bytes_of_u32 FOOTER) mem of
           Inl e \<Rightarrow> Inl e
         | Inr mem1 \<Rightarrow> (case write_at ef (take ETH_HDRLEN (eh hdr)) mem1 of
             Inl e \<Rightarrow> Inl e
           | Inr mem2 \<Rightarrow> (case write_at (ef + ETH_HDRLEN) (take IP4_HDRLEN (iph hdr)) mem2 of
               Inl e \<Rightarrow> Inl e
             | Inr mem3 \<Rightarrow> Inr (r, mem3))))"

fun init_blocks :: "u32 \<Rightarrow> headers \<Rightarrow> nat \<Rightarrow> nat \<Rightarrow> u8 list \<Rightarrow> (RNG list \<times> u8 list) res" where
  "init_blocks bs hdr i 0 mem = Inr ([], mem)"
| "init_blocks bs hdr i (Suc n) mem =
     (case init_block bs hdr i mem of
        Inl e \<Rightarrow> Inl e
      | Inr (r, mem1) \<Rightarrow> (case init_blocks bs hdr (Suc i) n mem1 of
          Inl e \<Rightarrow> Inl e
        | Inr (rs, mem2) \<Rightarrow> Inr (r # rs, mem2)))"

text \<open>
  \<open>calloc n size\<close> says whether an allocation of that shape succeeds. The cursors \<open>in\<close>,
  \<open>out\<close> and the size \<open>sz\<close> are not written here.
\<close>

definition init_ring_buffer :: "(nat \<Rightarrow> nat \<Rightarrow> bool) \<Rightarrow> Q \<Rightarrow> int \<Rightarrow> int \<Rightarrow> headers \<Rightarrow> Q res" where
  "init_ring_buffer calloc q buffer_size chunks hdr =
     (let bs = of_int chunks + 4; rs = of_int buffer_size div bs in
      if bs = 0 then Inl (Fault DivByZero)
      else if \<not> calloc (unat rs) sizeof_RNG \<or> \<not> calloc (unat (rs + 1)) (unat bs) then Inl (Exit 1)
      else case init_blocks bs hdr 0 (unat rs) (replicate (unat (rs + 1) * unat bs) 0) of
        Inl e \<Rightarrow> Inl e
      | Inr (rng, mem) \<Rightarrow>
          (let q1 = q\<lparr>bsz := bs, rsz := rs, R := rng, pool := mem, qlock := 0, full := 0\<rparr>
           in if \<forall>r \<in> set rng. valid_RNG mem r then Inr q1 else Inl (Exit 1)))"

definition reset_ring :: "Q \<Rightarrow> Q" where
  "reset_ring q = q\<lparr>q_in := 0, q_out := 0, sz := 0, qlock := 0, full := 0,
     R := map (\<lambda>b. b\<lparr>blen := 0\<rparr>) (take (unat (rsz q)) (R q)) @ drop (unat (rsz q)) (R q)\<rparr>"

section \<open>push and pop\<close>

definition set_slot_lock :: "nat \<Rightarrow> i32 \<Rightarrow> Q \<Rightarrow> Q" where
  "set_slot_lock i l q = q\<lparr>R := upd_at i (\<lambda>b. b\<lparr>block_lock := l\<rparr>) (R q)\<rparr>"

definition unlock_slot :: "nat \<Rightarrow> Q \<Rightarrow> Q" where
  "unlock_slot i q = set_slot_lock i (snd (atomic_unlock (block_lock (R q ! i)))) q"

definition unlock_queue :: "Q \<Rightarrow> Q" where
  "unlock_queue q = q\<lparr>qlock := snd (atomic_unlock (qlock q))\<rparr>"

partial_function (option) push_scan :: "Q \<Rightarrow> Q may_loop" where
  "push_scan q =
     (let i = unat (q_in q) in
      if length (R q) \<le> i then Some (Inl (Fault OutOfBounds))
      else let (old, l) = atomic_lock (block_lock (R q ! i)); q1 = set_slot_lock i l q in
        if old \<noteq> 0
        then push_scan (q1\<lparr>q_in := (if rsz q \<le> q_in q then 0 else q_in q) + 1\<rparr>)
        else Some (Inr q1))"

definition push :: "Q \<Rightarrow> (ring_ptr \<times> Q) may_loop" where
  "push q =
     (let (old, l) = atomic_lock (qlock q); q1 = q\<lparr>qlock := l\<rparr> in
      if old \<noteq> 0 then Some (Inr (LOCKFAIL, q1))
      else case push_scan q1 of
        None \<Rightarrow> None
      | Some (Inl e) \<Rightarrow> Some (Inl e)
      | Some (Inr q2) \<Rightarrow>
          (let q3 = (if rsz q2 \<le> q_in q2 then q2\<lparr>q_in := 0\<rparr> else q2); i = unat (q_in q3) in
           if length (R q3) \<le> i then Some (Inl (Fault OutOfBounds))
           else if rsz q3 - 1 \<le> sz q3 \<or> q_in q3 = q_out q3 - 1
             then Some (Inr (NULL, unlock_queue (unlock_slot i (q3\<lparr>full := 1\<rparr>))))
           else Some (Inr (Slot i, unlock_queue q3))))"

partial_function (option) pop_scan :: "Q \<Rightarrow> Q may_loop" where
  "pop_scan q =
     (if 0 < sz q then
        (let i = unat (q_out q) in
         if length (R q) \<le> i then Some (Inl (Fault OutOfBounds))
         else let (old, l) = atomic_lock (block_lock (R q ! i)); q1 = set_slot_lock i l q in
           if old \<noteq> 0
           then pop_scan (q1\<lparr>q_out := (if rsz q - 1 \<le> q_out q then 0 else q_out q + 1)\<rparr>)
           else Some (Inr q1))
      else Some (Inr q))"

text \<open>
  After the scan, the prefetch reads the descriptor after the one popped, so that one has
  to exist as well.
\<close>

definition pop :: "Q \<Rightarrow> (ring_ptr \<times> Q) may_loop" where
  "pop q =
     (let (old, l) = atomic_lock (qlock q); q1 = q\<lparr>qlock := l\<rparr> in
      if old \<noteq> 0 then Some (Inr (LOCKFAIL, q1))
      else if sz q1 < 1 \<or> q_in q1 = q_out q1
        then (let q2 = unlock_queue (q1\<lparr>sz := 0\<rparr>)
              in Some (Inr (NULL, if full q2 \<noteq> 0 then reset_ring q2 else q2)))
      else case pop_scan (if rsz q1 - 1 \<le> q_out q1 then q1\<lparr>q_out := 0\<rparr> else q1) of
        None \<Rightarrow> None
      | Some (Inl e) \<Rightarrow> Some (Inl e)
      | Some (Inr q2) \<Rightarrow>
          (let q3 = unlock_queue q2 in
           if length (R q3) \<le> unat (q_out q3 + 1) then Some (Inl (Fault OutOfBounds))
           else Some (Inr (Slot (unat (q_out q3)), q3\<lparr>q_out := q_out q3 + 1\<rparr>))))"

section \<open>Well-formed rings\<close>

text \<open>
  What initialisation establishes and every operation keeps: \<open>rsz\<close> descriptors, at least
  two of them, cursors inside the array and lock words that hold 0 or 1.
\<close>

definition ring_wf :: "Q \<Rightarrow> bool" where
  "ring_wf q \<longleftrightarrow> length (R q) = unat (rsz q) \<and> 1 < rsz q \<and> q_in q < rsz q \<and> q_out q < rsz q \<and>
     qlock q \<in> {0, 1} \<and> list_all (\<lambda>b. block_lock b \<in> {0, 1}) (R q)"

lemma ring_wfD:
  assumes "ring_wf q"
  shows "length (R q) = unat (rsz q)" "1 < unat (rsz q)" "unat (q_in q) < unat (rsz q)"
    "unat (q_out q) < unat (rsz q)" "qlock q = 0 \<or> qlock q = 1"
    "i < unat (rsz q) \<Longrightarrow> block_lock (R q ! i) = 0 \<or> block_lock (R q ! i) = 1"
  using assms by (auto simp: ring_wf_def word_less_nat_alt list_all_length)

text \<open>Locking and unlocking a slot that holds what is written leaves the ring as it is.\<close>

lemma set_slot_lock_same: "block_lock (R q ! i) = l \<Longrightarrow> set_slot_lock i l q = q"
  by (simp add: set_slot_lock_def upd_at_id)

lemma set_slot_lock_simps [simp]:
  "qid (set_slot_lock i l q) = qid q" "bsz (set_slot_lock i l q) = bsz q"
  "rsz (set_slot_lock i l q) = rsz q" "q_in (set_slot_lock i l q) = q_in q"
  "q_out (set_slot_lock i l q) = q_out q" "sz (set_slot_lock i l q) = sz q"
  "qlock (set_slot_lock i l q) = qlock q" "full (set_slot_lock i l q) = full q"
  "pool (set_slot_lock i l q) = pool q" "length (R (set_slot_lock i l q)) = length (R q)"
  by (simp_all add: set_slot_lock_def)

lemma block_lock_set_slot_lock [simp]:
  "i < length (R q) \<Longrightarrow>
     block_lock (R (set_slot_lock i l q) ! j) = (if i = j then l else block_lock (R q ! j))"
  by (simp add: set_slot_lock_def)

lemma set_slot_lock_twice: "set_slot_lock i l (set_slot_lock i l' q) = set_slot_lock i l q"
  by (simp add: set_slot_lock_def upd_at_twice)

text \<open>The scans, one pass at a time.\<close>

lemma push_scan_free:
  assumes "unat (q_in q) < length (R q)" and "block_lock (R q ! unat (q_in q)) = 0"
  shows "push_scan q = Some (Inr (set_slot_lock (unat (q_in q)) 1 q))"
  using assms
  by (subst push_scan.simps)
    (simp add: Let_def atomic_lock_def val_compare_and_swap_def)

lemma push_scan_taken:
  assumes "unat (q_in q) < length (R q)" and "block_lock (R q ! unat (q_in q)) \<noteq> 0"
  shows "push_scan q = push_scan (q\<lparr>q_in := (if rsz q \<le> q_in q then 0 else q_in q) + 1\<rparr>)"
  using assms
  by (subst push_scan.simps)
    (simp add: Let_def atomic_lock_def val_compare_and_swap_def set_slot_lock_same)

lemma push_scan_past: "length (R q) \<le> unat (q_in q) \<Longrightarrow> push_scan q = Some (Inl (Fault OutOfBounds))"
  by (subst push_scan.simps) simp

lemma pop_scan_free:
  assumes "0 < sz q" and "unat (q_out q) < length (R q)" and "block_lock (R q ! unat (q_out q)) = 0"
  shows "pop_scan q = Some (Inr (set_slot_lock (unat (q_out q)) 1 q))"
  using assms
  by (subst pop_scan.simps)
    (simp add: Let_def atomic_lock_def val_compare_and_swap_def)

lemma pop_scan_taken:
  assumes "0 < sz q" and "unat (q_out q) < length (R q)" and "block_lock (R q ! unat (q_out q)) \<noteq> 0"
  shows "pop_scan q = pop_scan (q\<lparr>q_out := (if rsz q - 1 \<le> q_out q then 0 else q_out q + 1)\<rparr>)"
  using assms
  by (subst pop_scan.simps)
    (simp add: Let_def atomic_lock_def val_compare_and_swap_def set_slot_lock_same)

text \<open>
  \<open>first_free q i n\<close>: the first of the \<open>n\<close> slots from \<open>i\<close> on that is unlocked.
\<close>

fun first_free :: "RNG list \<Rightarrow> nat \<Rightarrow> nat \<Rightarrow> nat option" where
  "first_free rs i 0 = None"
| "first_free rs i (Suc n) = (if block_lock (rs ! i) = 0 then Some i else first_free rs (Suc i) n)"

lemma range_Suc: "{i..<i + Suc n} = insert i {Suc i..<Suc i + n}"
  by auto

lemma first_free_None:
  "first_free rs i n = None \<longleftrightarrow> (\<forall>j \<in> {i..<i + n}. block_lock (rs ! j) \<noteq> 0)"
proof (induction n arbitrary: i)
  case (Suc n)
  then show ?case by (simp only: range_Suc) simp
qed simp

lemma first_free_Some:
  "first_free rs i n = Some j \<Longrightarrow>
     j \<in> {i..<i + n} \<and> block_lock (rs ! j) = 0 \<and> (\<forall>k \<in> {i..<j}. block_lock (rs ! k) \<noteq> 0)"
proof (induction n arbitrary: i)
  case (Suc n)
  show ?case
  proof (cases "block_lock (rs ! i) = 0")
    case False
    with Suc.prems have "first_free rs (Suc i) n = Some j" by simp
    from Suc.IH [OF this] False show ?thesis
      by (simp only: range_Suc) (auto simp: Suc_le_eq dest: le_neq_implies_less)
  qed (use Suc.prems in auto)
qed simp

text \<open>
  \<open>push_scan\<close> always stops on a ring with \<open>rsz\<close> descriptors: it takes the first unlocked slot
  from \<open>in\<close> on, and runs off the array when there is none.
\<close>

lemma push_scan_result:
  assumes "length (R q) = unat (rsz q)" and "unat (q_in q) + n = unat (rsz q)"
  shows "push_scan q =
     (case first_free (R q) (unat (q_in q)) n of
        None \<Rightarrow> Some (Inl (Fault OutOfBounds))
      | Some j \<Rightarrow> Some (Inr (set_slot_lock j 1 (q\<lparr>q_in := of_nat j\<rparr>))))"
  using assms
proof (induction n arbitrary: q)
  case 0
  then show ?case by (simp add: push_scan_past)
next
  case (Suc n)
  then have below: "q_in q < rsz q" "unat (q_in q) < length (R q)" by (simp_all add: word_less_nat_alt)
  show ?case
  proof (cases "block_lock (R q ! unat (q_in q)) = 0")
    case True
    then show ?thesis using below by (simp add: push_scan_free)
  next
    case False
    let ?q = "q\<lparr>q_in := q_in q + 1\<rparr>"
    have next_in: "unat (q_in q + 1) = Suc (unat (q_in q))"
      using below(1) by (rule unat_suc_below)
    have "push_scan q = push_scan ?q"
      using push_scan_taken [OF below(2) False] below(1) by (simp add: not_le [symmetric])
    with Suc.IH [of ?q] Suc.prems False show ?thesis
      by (simp add: next_in split: option.split)
  qed
qed

text \<open>The same for \<open>pop_scan\<close>, which goes round the array.\<close>

lemma succ_mod:
  fixes q :: Q
  assumes "q_out q < rsz q"
  shows "(if rsz q - 1 \<le> q_out q then 0 else q_out q + 1) = of_nat ((unat (q_out q) + 1) mod unat (rsz q))"
proof (cases "rsz q - 1 \<le> q_out q")
  case True
  from assms have pos: "rsz q \<noteq> 0" by auto
  with True assms have "unat (q_out q) + 1 = unat (rsz q)"
    by (auto simp: word_bounds)
  with True show ?thesis by simp
next
  case False
  from assms have "rsz q \<noteq> 0" by auto
  with False have "unat (q_out q) + 1 < unat (rsz q)"
    by (auto simp: word_bounds)
  with False show ?thesis by simp
qed

definition scan_ready :: "Q \<Rightarrow> bool" where
  "scan_ready q \<longleftrightarrow> 0 < sz q \<and> length (R q) = unat (rsz q) \<and> q_out q < rsz q"

lemma pop_scan_skip:
  assumes "scan_ready q"
    and "\<forall>m < k. block_lock (R q ! ((unat (q_out q) + m) mod unat (rsz q))) \<noteq> 0"
  shows "pop_scan q = pop_scan (q\<lparr>q_out := of_nat ((unat (q_out q) + k) mod unat (rsz q))\<rparr>)"
  using assms(2)
proof (induction k)
  case 0
  from assms(1) show ?case by (simp add: scan_ready_def word_less_nat_alt)
next
  case (Suc k)
  let ?n = "unat (rsz q)"
  let ?i = "(unat (q_out q) + k) mod ?n"
  let ?q = "q\<lparr>q_out := of_nat ?i\<rparr>"
  from assms(1) have n: "0 < ?n" "length (R q) = ?n" "0 < sz q"
    by (auto simp: scan_ready_def word_less_nat_alt)
  then have i: "unat (of_nat ?i :: u32) = ?i" by (intro unat_of_nat_below [of _ "rsz q"]) simp
  with n have "q_out ?q < rsz ?q" by (simp add: word_less_nat_alt)
  moreover have "pop_scan ?q = pop_scan (?q\<lparr>q_out := (if rsz ?q - 1 \<le> q_out ?q then 0 else q_out ?q + 1)\<rparr>)"
    by (rule pop_scan_taken) (use n i Suc.prems in auto)
  ultimately have "pop_scan ?q = pop_scan (q\<lparr>q_out := of_nat ((?i + 1) mod ?n)\<rparr>)"
    using succ_mod [of ?q] i by simp
  moreover have "(?i + 1) mod ?n = (unat (q_out q) + Suc k) mod ?n" by (simp add: mod_Suc_eq)
  moreover have "pop_scan q = pop_scan ?q" using Suc by simp
  ultimately show ?case by simp
qed

lemma pop_scan_result:
  assumes "scan_ready q" and "k < unat (rsz q)"
    and "\<forall>m < k. block_lock (R q ! ((unat (q_out q) + m) mod unat (rsz q))) \<noteq> 0"
    and "block_lock (R q ! ((unat (q_out q) + k) mod unat (rsz q))) = 0"
  shows "pop_scan q = Some (Inr (set_slot_lock ((unat (q_out q) + k) mod unat (rsz q)) 1
           (q\<lparr>q_out := of_nat ((unat (q_out q) + k) mod unat (rsz q))\<rparr>)))"
proof -
  let ?i = "(unat (q_out q) + k) mod unat (rsz q)"
  have "unat (of_nat ?i :: u32) = ?i"
    by (rule unat_of_nat_below [of _ "rsz q"]) (use assms(2) in simp)
  then show ?thesis
    using pop_scan_skip [OF assms(1,3)] pop_scan_free [of "q\<lparr>q_out := of_nat ?i\<rparr>"] assms
    by (simp add: scan_ready_def)
qed

definition all_taken :: "Q \<Rightarrow> bool" where
  "all_taken q \<longleftrightarrow> (\<forall>i < length (R q). block_lock (R q ! i) \<noteq> 0)"

lemma pop_scan_all_taken:
  assumes "scan_ready q" and "all_taken q"
  shows "pop_scan q = None"
proof -
  have "pop_scan q = Some r \<Longrightarrow> \<not> (scan_ready q \<and> all_taken q)" for q :: Q and r
  proof (erule pop_scan.raw_induct [where P = "\<lambda>q r. \<not> (scan_ready q \<and> all_taken q)", rotated], rule notI)
    fix scan :: "Q \<Rightarrow> Q may_loop" and q :: Q and r
    let ?q = "q\<lparr>q_out := (if rsz q - 1 \<le> q_out q then 0 else q_out q + 1)\<rparr>"
    assume IH: "\<And>q r. scan q = Some r \<Longrightarrow> \<not> (scan_ready q \<and> all_taken q)"
      and step: "(if 0 < sz q then
          (let i = unat (q_out q) in
           if length (R q) \<le> i then Some (Inl (Fault OutOfBounds))
           else let (old, l) = atomic_lock (block_lock (R q ! i)); q1 = set_slot_lock i l q in
             if old \<noteq> 0
             then scan (q1\<lparr>q_out := (if rsz q - 1 \<le> q_out q then 0 else q_out q + 1)\<rparr>)
             else Some (Inr q1))
        else Some (Inr q)) = Some r"
      and q: "scan_ready q \<and> all_taken q"
    then have i: "unat (q_out q) < length (R q)" and "block_lock (R q ! unat (q_out q)) \<noteq> 0"
      by (auto simp: scan_ready_def all_taken_def word_less_nat_alt)
    with step q have "scan ?q = Some r"
      by (simp add: scan_ready_def Let_def atomic_lock_def val_compare_and_swap_def
          set_slot_lock_same leD [of "unat (q_out q)"])
    moreover have "scan_ready ?q"
      using q succ_mod [of q] unat_of_nat_below [of "(unat (q_out q) + 1) mod unat (rsz q)" "rsz q"]
      by (auto simp: scan_ready_def word_less_nat_alt)
    moreover have "all_taken ?q" using q by (simp add: all_taken_def)
    ultimately show False using IH by blast
  qed
  with assms show ?thesis by (metis not_None_eq)
qed

section \<open>What push and pop do\<close>

lemma qlock_reset [simp]: "qlock q = 0 \<Longrightarrow> q\<lparr>qlock := 0\<rparr> = (q :: Q)"
  by simp

lemma unlock_queue_locked: "qlock q = 0 \<Longrightarrow> unlock_queue (q\<lparr>qlock := 1\<rparr>) = q"
  by (simp add: unlock_queue_def)

text \<open>
  a \<^verbatim>\<open>push\<close> always stops. It refuses with LOCKFAIL when the ring's lock is held; otherwise
  it settles on the first unlocked slot from \<open>in\<close> on, and returns NULL with \<open>full\<close> set, or
  that slot locked, and the ring's lock free again; when every slot from \<open>in\<close> to the end of
  the array is locked it reads a descriptor past the array.
\<close>

lemma push_outcome:
  assumes "ring_wf q"
  shows "push q =
    (if qlock q \<noteq> 0 then Some (Inr (LOCKFAIL, q))
     else case first_free (R q) (unat (q_in q)) (unat (rsz q) - unat (q_in q)) of
       None \<Rightarrow> Some (Inl (Fault OutOfBounds))
     | Some j \<Rightarrow>
         if rsz q - 1 \<le> sz q \<or> of_nat j = q_out q - 1
         then Some (Inr (NULL, q\<lparr>q_in := of_nat j, full := 1\<rparr>))
         else Some (Inr (Slot j, set_slot_lock j 1 (q\<lparr>q_in := of_nat j\<rparr>))))"
proof (cases "qlock q = 0")
  case False
  then show ?thesis by (simp add: push_def atomic_lock_def val_compare_and_swap_def)
next
  case True
  let ?f = "first_free (R q) (unat (q_in q)) (unat (rsz q) - unat (q_in q))"
  note wf = ring_wfD [OF assms]
  have scan: "push_scan (q\<lparr>qlock := 1\<rparr>) =
      (case ?f of None \<Rightarrow> Some (Inl (Fault OutOfBounds))
       | Some j \<Rightarrow> Some (Inr (set_slot_lock j 1 (q\<lparr>qlock := 1, q_in := of_nat j\<rparr>))))"
    using push_scan_result [of "q\<lparr>qlock := 1\<rparr>" "unat (rsz q) - unat (q_in q)"] wf by simp
  show ?thesis
  proof (cases ?f)
    case None
    with True scan show ?thesis by (simp add: push_def atomic_lock_def val_compare_and_swap_def)
  next
    case (Some j)
    then have "j < unat (rsz q)" and free: "block_lock (R q ! j) = 0"
      using first_free_Some [OF Some] wf(3) by auto
    then have j: "unat (of_nat j :: u32) = j" "\<not> rsz q \<le> of_nat j" "j < length (R q)"
      using wf(1) unat_of_nat_below [of j "rsz q"] by (simp_all add: word_le_nat_alt)
    have "unlock_queue (unlock_slot j (set_slot_lock j 1 (q\<lparr>qlock := 1, q_in := of_nat j\<rparr>)\<lparr>full := 1\<rparr>))
        = q\<lparr>q_in := of_nat j, full := 1\<rparr>"
      using True free j(3)
      by (simp add: unlock_slot_def unlock_queue_def set_slot_lock_def upd_at_twice upd_at_id)
    moreover have "unlock_queue (set_slot_lock j 1 (q\<lparr>qlock := 1, q_in := of_nat j\<rparr>))
        = set_slot_lock j 1 (q\<lparr>q_in := of_nat j\<rparr>)"
      using True by (simp add: unlock_queue_def set_slot_lock_def)
    ultimately show ?thesis
      using True scan Some j by (simp add: push_def atomic_lock_def val_compare_and_swap_def Let_def)
  qed
qed

text \<open>The usual case: the slot at \<open>in\<close> is unlocked.\<close>

lemma push_unlocked:
  assumes "ring_wf q" and "qlock q = 0" and "block_lock (R q ! unat (q_in q)) = 0"
  shows "push q = Some (Inr (if rsz q - 1 \<le> sz q \<or> q_in q = q_out q - 1
      then (NULL, q\<lparr>full := 1\<rparr>) else (Slot (unat (q_in q)), set_slot_lock (unat (q_in q)) 1 q)))"
proof -
  have "0 < unat (rsz q) - unat (q_in q)" using ring_wfD(3) [OF assms(1)] by simp
  then have "first_free (R q) (unat (q_in q)) (unat (rsz q) - unat (q_in q)) = Some (unat (q_in q))"
    using assms(3) by (cases "unat (rsz q) - unat (q_in q)") simp_all
  then show ?thesis using push_outcome [OF assms(1)] assms(2) by simp
qed

text \<open>\<^verbatim>\<open>pop\<close> on an empty ring returns NULL, and resets the ring if it was marked full.\<close>

lemma pop_empty:
  assumes "qlock q = 0" and "sz q = 0 \<or> q_in q = q_out q"
  shows "pop q = Some (Inr (NULL, if full q \<noteq> 0 then reset_ring (q\<lparr>sz := 0\<rparr>) else q\<lparr>sz := 0\<rparr>))"
proof -
  have "sz q < 1 \<longleftrightarrow> sz q = 0" by (simp add: word_less_nat_alt unsigned_eq_0_iff)
  then show ?thesis
    using assms by (auto simp: pop_def atomic_lock_def val_compare_and_swap_def unlock_queue_def Let_def)
qed

lemma pop_locked: "qlock q \<noteq> 0 \<Longrightarrow> pop q = Some (Inr (LOCKFAIL, q))"
  by (simp add: pop_def atomic_lock_def val_compare_and_swap_def)

text \<open>Where \<open>pop\<close> starts looking: the last slot is never the start.\<close>

definition pop_start :: "Q \<Rightarrow> nat" where
  "pop_start q = (if rsz q - 1 \<le> q_out q then 0 else unat (q_out q))"

lemma pop_nonempty:
  assumes "qlock q = 0" and "sz q \<noteq> 0" and "q_in q \<noteq> q_out q"
  shows "pop q =
    (case pop_scan (q\<lparr>qlock := 1, q_out := of_nat (pop_start q)\<rparr>) of
       None \<Rightarrow> None
     | Some (Inl e) \<Rightarrow> Some (Inl e)
     | Some (Inr q2) \<Rightarrow>
         (let q3 = unlock_queue q2 in
          if length (R q3) \<le> unat (q_out q3 + 1) then Some (Inl (Fault OutOfBounds))
          else Some (Inr (Slot (unat (q_out q3)), q3\<lparr>q_out := q_out q3 + 1\<rparr>))))"
proof -
  have "\<not> sz q < 1" using assms(2) by (simp add: word_less_nat_alt unsigned_eq_0_iff)
  with assms show ?thesis
    by (simp add: pop_def atomic_lock_def val_compare_and_swap_def pop_start_def Let_def)
qed

lemma pop_start_below: "ring_wf q \<Longrightarrow> pop_start q < unat (rsz q)"
  using ring_wfD(2,4) [of q] by (simp add: pop_start_def)

lemma scan_ready_start:
  assumes "ring_wf q" and "sz q \<noteq> 0"
  shows "scan_ready (q\<lparr>qlock := 1, q_out := of_nat (pop_start q)\<rparr>)"
  using assms ring_wfD [OF assms(1)] unat_of_nat_below [OF pop_start_below [OF assms(1)]]
    pop_start_below [OF assms(1)]
  by (simp add: scan_ready_def word_less_nat_alt) (metis unsigned_eq_0_iff gr0I)

text \<open>
  a \<^verbatim>\<open>pop\<close> that finds its first unlocked slot after \<open>k\<close> locked ones returns that slot,
  locked, and moves \<open>out\<close> behind it; a slot at the end of the array makes its prefetch read
  past the array.
\<close>

lemma pop_outcome:
  assumes wf: "ring_wf q" and "qlock q = 0" and "sz q \<noteq> 0" and "q_in q \<noteq> q_out q"
    and k: "k < unat (rsz q)"
    and taken: "\<forall>m < k. block_lock (R q ! ((pop_start q + m) mod unat (rsz q))) \<noteq> 0"
    and free: "block_lock (R q ! j) = 0" and j: "j = (pop_start q + k) mod unat (rsz q)"
  shows "pop q = Some (if j + 1 = unat (rsz q) then Inl (Fault OutOfBounds)
      else Inr (Slot j, set_slot_lock j 1 (q\<lparr>q_out := of_nat (j + 1)\<rparr>)))"
proof -
  let ?q = "q\<lparr>qlock := 1, q_out := of_nat (pop_start q)\<rparr>"
  have start: "unat (of_nat (pop_start q) :: u32) = pop_start q"
    by (rule unat_of_nat_below [OF pop_start_below [OF wf]])
  have scan: "pop_scan ?q = Some (Inr (set_slot_lock j 1 (?q\<lparr>q_out := of_nat j\<rparr>)))"
    using pop_scan_result [OF scan_ready_start [OF wf assms(3)], of k] k taken free
    by (simp add: start j)
  have "j < unat (rsz q)" using k j by simp
  then have j': "unat (of_nat j :: u32) = j" "unat (of_nat j + 1 :: u32) = j + 1"
    using unat_of_nat_below [of j "rsz q"] unat_suc_below [of "of_nat j" "rsz q"]
    by (simp_all add: word_less_nat_alt)
  have unlock: "unlock_queue (set_slot_lock j 1 (?q\<lparr>q_out := of_nat j\<rparr>)) = set_slot_lock j 1 (q\<lparr>q_out := of_nat j\<rparr>)"
    using assms(2) by (simp add: unlock_queue_def set_slot_lock_def)
  show ?thesis
    using pop_nonempty [OF assms(2-4)] scan unlock j' \<open>j < unat (rsz q)\<close> ring_wfD(1) [OF wf]
    by (auto simp: Let_def set_slot_lock_def add.commute)
qed

lemma all_taken_round:
  assumes "s < n"
  shows "(\<forall>m < n. P ((s + m) mod n)) \<longleftrightarrow> (\<forall>i < (n :: nat). P i)"
proof
  assume round: "\<forall>m < n. P ((s + m) mod n)"
  show "\<forall>i < n. P i"
  proof (intro allI impI)
    fix i assume i: "i < n"
    have "(s + (i + (n - s)) mod n) mod n = (s + (i + (n - s))) mod n" by (simp add: mod_add_right_eq)
    also have "s + (i + (n - s)) = i + n" using assms by simp
    also have "(i + n) mod n = i" using i by simp
    finally show "P i" using round assms by (metis mod_less_divisor less_nat_zero_code gr0I)
  qed
qed (use assms in auto)

lemma first_free_round:
  assumes "ring_wf q" and "\<not> all_taken q"
  obtains k j where "k < unat (rsz q)" and "j = (pop_start q + k) mod unat (rsz q)"
    and "block_lock (R q ! j) = 0"
    and "\<forall>m < k. block_lock (R q ! ((pop_start q + m) mod unat (rsz q))) \<noteq> 0"
proof -
  let ?free = "\<lambda>m. m < unat (rsz q) \<and> block_lock (R q ! ((pop_start q + m) mod unat (rsz q))) = 0"
  have "\<exists>m. ?free m"
    using assms(2) all_taken_round [OF pop_start_below [OF assms(1)], of "\<lambda>i. block_lock (R q ! i) \<noteq> 0"]
      ring_wfD(1) [OF assms(1)] by (auto simp: all_taken_def)
  then have least: "?free (LEAST m. ?free m)" by (rule LeastI_ex)
  have "\<And>m. m < (LEAST m. ?free m) \<Longrightarrow> \<not> ?free m" by (rule not_less_Least)
  with least show ?thesis using that by (meson order.strict_trans)
qed

text \<open>
  \<^verbatim>\<open>pop\<close> fails to return in exactly one situation: the ring's lock is free, the ring is
  not empty and every slot is locked. In every other state it stops.
\<close>

lemma pop_diverges_iff:
  assumes "ring_wf q"
  shows "pop q = None \<longleftrightarrow> qlock q = 0 \<and> sz q \<noteq> 0 \<and> q_in q \<noteq> q_out q \<and> all_taken q"
proof (cases "qlock q = 0 \<and> sz q \<noteq> 0 \<and> q_in q \<noteq> q_out q")
  case False
  then show ?thesis using pop_locked pop_empty by (metis option.distinct(1))
next
  case True
  show ?thesis
  proof (cases "all_taken q")
    case taken: True
    then have "pop_scan (q\<lparr>qlock := 1, q_out := of_nat (pop_start q)\<rparr>) = None"
      using True by (intro pop_scan_all_taken scan_ready_start assms) (auto simp: all_taken_def)
    with True taken show ?thesis by (simp add: pop_nonempty)
  next
    case False
    with assms obtain k j where "k < unat (rsz q)" "j = (pop_start q + k) mod unat (rsz q)"
      "block_lock (R q ! j) = 0"
      "\<forall>m < k. block_lock (R q ! ((pop_start q + m) mod unat (rsz q))) \<noteq> 0"
      by (rule first_free_round)
    then have "pop q \<noteq> None" using pop_outcome [OF assms, of k j] True by simp
    with False show ?thesis by simp
  qed
qed

text \<open>Every way in which a pop can end, as one case rule.\<close>

lemma pop_cases:
  assumes "ring_wf q" and "pop q = Some (Inr (p, q'))"
  obtains "qlock q \<noteq> 0" "p = LOCKFAIL" "q' = q"
  | "qlock q = 0" "sz q = 0 \<or> q_in q = q_out q" "p = NULL"
    "q' = (if full q \<noteq> 0 then reset_ring (q\<lparr>sz := 0\<rparr>) else q\<lparr>sz := 0\<rparr>)"
  | j where "qlock q = 0" "sz q \<noteq> 0" "q_in q \<noteq> q_out q" "p = Slot j" "j + 1 < unat (rsz q)"
    "block_lock (R q ! j) = 0" "q' = set_slot_lock j 1 (q\<lparr>q_out := of_nat (j + 1)\<rparr>)"
proof (cases "qlock q \<noteq> 0 \<or> sz q = 0 \<or> q_in q = q_out q")
  case True
  then show ?thesis
    using assms(2) pop_locked pop_empty that(1,2) by fastforce
next
  case False
  then have "\<not> all_taken q" using assms pop_diverges_iff by (metis option.distinct(1))
  with assms(1) obtain k j where "k < unat (rsz q)" and j: "j = (pop_start q + k) mod unat (rsz q)"
    and free: "block_lock (R q ! j) = 0"
    and "\<forall>m < k. block_lock (R q ! ((pop_start q + m) mod unat (rsz q))) \<noteq> 0"
    by (rule first_free_round)
  then have "pop q = Some (if j + 1 = unat (rsz q) then Inl (Fault OutOfBounds)
      else Inr (Slot j, set_slot_lock j 1 (q\<lparr>q_out := of_nat (j + 1)\<rparr>)))"
    using False by (intro pop_outcome [OF assms(1)]) auto
  moreover have "j < unat (rsz q)" using ring_wfD(2) [OF assms(1)] j by simp
  ultimately show ?thesis using False free assms(2) that(3) [of j] by (auto split: if_splits)
qed

text \<open>
  \<^verbatim>\<open>pop\<close> never hands out the last slot of the array, although \<^verbatim>\<open>push\<close> fills it: the
  consumer starts again at slot 0 as soon as \<open>out\<close> reaches \<open>rsz - 1\<close>.
\<close>

lemma pop_never_last_slot:
  assumes "ring_wf q" and "pop q = Some (Inr (Slot i, q'))"
  shows "i + 1 < unat (rsz q)"
  using pop_cases [OF assms] by auto

section \<open>The invariant is kept\<close>

lemma ring_wf_set_slot_lock: "ring_wf q \<Longrightarrow> l \<in> {0, 1} \<Longrightarrow> ring_wf (set_slot_lock i l q)"
  unfolding ring_wf_def set_slot_lock_def by (auto intro: list_all_upd_at)

lemma ring_wf_updates [simp]:
  "ring_wf (q\<lparr>full := f\<rparr>) = ring_wf q" "ring_wf (q\<lparr>sz := n\<rparr>) = ring_wf q"
  "j < unat (rsz q) \<Longrightarrow> ring_wf q \<Longrightarrow> ring_wf (q\<lparr>q_in := of_nat j\<rparr>)"
  "j < unat (rsz q) \<Longrightarrow> ring_wf q \<Longrightarrow> ring_wf (q\<lparr>q_out := of_nat j\<rparr>)"
  by (auto simp: ring_wf_def word_less_nat_alt unat_of_nat_below)

lemma reset_ring_wf: "ring_wf q \<Longrightarrow> ring_wf (reset_ring q)"
proof -
  assume wf: "ring_wf q"
  then have "R (reset_ring q) = map (\<lambda>b. b\<lparr>blen := 0\<rparr>) (R q)" "rsz (reset_ring q) = rsz q"
    by (simp_all add: reset_ring_def ring_wf_def)
  with wf show ?thesis by (auto simp: ring_wf_def reset_ring_def word_less_nat_alt list_all_length)
qed

lemma push_wf:
  assumes "ring_wf q" and "push q = Some (Inr (p, q'))"
  shows "ring_wf q'"
proof (cases "qlock q = 0")
  case False
  then show ?thesis using push_outcome [OF assms(1)] assms by auto
next
  case True
  let ?f = "first_free (R q) (unat (q_in q)) (unat (rsz q) - unat (q_in q))"
  from True push_outcome [OF assms(1)] assms(2) obtain j where j: "?f = Some j"
    and q': "q' = q\<lparr>q_in := of_nat j, full := 1\<rparr> \<or> q' = set_slot_lock j 1 (q\<lparr>q_in := of_nat j\<rparr>)"
    by (cases ?f) (auto split: if_splits)
  from first_free_Some [OF j] have "j < unat (rsz q)" by auto
  with q' assms(1) show ?thesis by (auto simp: ring_wf_set_slot_lock)
qed

text \<open>\<^verbatim>\<open>push\<close>, \<^verbatim>\<open>pop\<close> and \<^verbatim>\<open>reset_ring\<close> keep a ring well-formed.\<close>

lemma ring_wf_kept:
  assumes "ring_wf q"
  shows "push q = Some (Inr (p, q')) \<Longrightarrow> ring_wf q'"
    and "pop q = Some (Inr (p, q')) \<Longrightarrow> ring_wf q'"
    and "ring_wf (reset_ring q)"
proof -
  show "push q = Some (Inr (p, q')) \<Longrightarrow> ring_wf q'" by (rule push_wf [OF assms])
  show "ring_wf q'" if pop: "pop q = Some (Inr (p, q'))"
    using assms pop
  proof (cases rule: pop_cases)
    case (3 j)
    then have "ring_wf (q\<lparr>q_out := of_nat (j + 1)\<rparr>)" using assms by (intro ring_wf_updates(4)) auto
    with 3 show ?thesis by (simp add: ring_wf_set_slot_lock del: of_nat_add)
  qed (use assms in \<open>simp_all add: reset_ring_wf\<close>)
  show "ring_wf (reset_ring q)" by (rule reset_ring_wf [OF assms])
qed

section \<open>Initialisation\<close>

text \<open>The descriptor of block \<open>i\<close> and the bytes the program wants in that block.\<close>

definition block_desc :: "nat \<Rightarrow> nat \<Rightarrow> RNG" where
  "block_desc b i = \<lparr>header = HEADER, footer = (i + 1) * b - 4, blen = 0, bindex = i, block_lock = 0,
     ethernet_frame = i * b, ipheader = i * b + ETH_HDRLEN, bdata = i * b + ETHIP4\<rparr>"

definition block_bytes :: "nat \<Rightarrow> headers \<Rightarrow> u8 list \<Rightarrow> nat \<Rightarrow> bool" where
  "block_bytes b hdr mem i \<longleftrightarrow>
     read_at (i * b) 14 mem = eh hdr \<and> read_at (i * b + 14) 20 mem = iph hdr \<and>
     read_at ((i + 1) * b - 4) 4 mem = bytes_of_u32 FOOTER"

lemma init_block_result:
  assumes hdr: "headers_ok hdr" and b: "38 \<le> unat bs"
    and fits: "(i + 1) * unat bs \<le> length mem" and nowrap: "(i + 1) * unat bs < 2 ^ 32"
  shows "\<exists>mem'. init_block bs hdr i mem = Inr (block_desc (unat bs) i, mem') \<and>
           length mem' = length mem \<and> block_bytes (unat bs) hdr mem' i \<and>
           (\<forall>a n. a + n \<le> i * unat bs \<or> (i + 1) * unat bs \<le> a \<longrightarrow> read_at a n mem' = read_at a n mem)"
proof -
  define b where "b = unat bs"
  have b38: "38 \<le> b" and fits': "(i + 1) * b \<le> length mem" using assms by (simp_all add: b_def)
  have ends: "unat (of_nat i * bs) = i * b" "unat (of_nat (i + 1) * bs) = (i + 1) * b"
    using nowrap unat_mult_u32 [of i bs] unat_mult_u32 [of "i + 1" bs] by (simp_all add: b_def)
  have span: "(i + 1) * b = i * b + b" by simp
  have len: "length (eh hdr) = 14" "length (iph hdr) = 20" using hdr by (simp_all add: headers_ok_def)
  obtain m1 where m1: "write_at ((i + 1) * b - 4) (bytes_of_u32 FOOTER) mem = Inr m1"
    using write_at_fits [of "(i + 1) * b - 4" "bytes_of_u32 FOOTER" mem] fits' b38 span by auto
  note l1 = write_at_length [OF m1]
  obtain m2 where m2: "write_at (i * b) (eh hdr) m1 = Inr m2"
    using write_at_fits [of "i * b" "eh hdr" m1] fits' b38 span l1 len by auto
  note l2 = write_at_length [OF m2]
  obtain m3 where m3: "write_at (i * b + 14) (iph hdr) m2 = Inr m3"
    using write_at_fits [of "i * b + 14" "iph hdr" m2] fits' b38 span l1 l2 len by auto
  have "init_block bs hdr i mem = Inr (block_desc b i, m3)"
    using ends m1 m2 m3 b38 span len
    by (simp add: init_block_def Let_def block_desc_def zero_RNG_def frame_consts b_def [symmetric])
  moreover have "block_bytes b hdr m3 i"
    using read_write_same [OF m1] read_write_same [OF m2] read_write_same [OF m3]
      read_write_disjoint [OF m2, of "(i + 1) * b - 4" 4] read_write_disjoint [OF m3, of "(i + 1) * b - 4" 4]
      read_write_disjoint [OF m3, of "i * b" 14] len b38 span
    by (simp add: block_bytes_def)
  moreover have "read_at a n m3 = read_at a n mem" if "a + n \<le> i * b \<or> (i + 1) * b \<le> a" for a n
    using read_write_disjoint [OF m1, of a n] read_write_disjoint [OF m2, of a n]
      read_write_disjoint [OF m3, of a n] that len b38 span by (elim disjE) simp_all
  ultimately show ?thesis using l1 l2 write_at_length [OF m3] by (auto simp: b_def)
qed

lemma block_bytes_frame:
  assumes "\<forall>a n. a + n \<le> m \<longrightarrow> read_at a n mem' = read_at a n mem" and "(i + 1) * b \<le> m" and "38 \<le> b"
  shows "block_bytes b hdr mem' i = block_bytes b hdr mem i"
  using assms by (simp add: block_bytes_def)

lemma init_blocks_result:
  assumes "headers_ok hdr" and "38 \<le> unat bs"
    and "(i + n) * unat bs \<le> length mem" and "(i + n) * unat bs < 2 ^ 32"
  shows "\<exists>mem'. init_blocks bs hdr i n mem = Inr (map (block_desc (unat bs)) [i..<i + n], mem') \<and>
           length mem' = length mem \<and> (\<forall>j \<in> {i..<i + n}. block_bytes (unat bs) hdr mem' j) \<and>
           (\<forall>a m. a + m \<le> i * unat bs \<longrightarrow> read_at a m mem' = read_at a m mem)"
  using assms(3,4)
proof (induction n arbitrary: i mem)
  case 0
  then show ?case by simp
next
  case (Suc n)
  have one: "(i + 1) * unat bs \<le> (i + Suc n) * unat bs" by (rule mult_right_mono) simp_all
  obtain m1 where m1: "init_block bs hdr i mem = Inr (block_desc (unat bs) i, m1)"
    "length m1 = length mem" "block_bytes (unat bs) hdr m1 i"
    and f1: "\<forall>a m. a + m \<le> i * unat bs \<longrightarrow> read_at a m m1 = read_at a m mem"
    using init_block_result [OF assms(1,2) le_trans [OF one Suc.prems(1)] le_less_trans [OF one Suc.prems(2)]]
    by blast
  obtain m2 where m2: "init_blocks bs hdr (Suc i) n m1 = Inr (map (block_desc (unat bs)) [Suc i..<Suc i + n], m2)"
    "length m2 = length m1" "\<forall>j \<in> {Suc i..<Suc i + n}. block_bytes (unat bs) hdr m2 j"
    and f2: "\<forall>a m. a + m \<le> Suc i * unat bs \<longrightarrow> read_at a m m2 = read_at a m m1"
    using Suc.IH [of "Suc i" m1] Suc.prems m1(2) by auto
  have "block_bytes (unat bs) hdr m2 i"
    using block_bytes_frame [OF f2, of i "unat bs" hdr] m1(3) assms(2) by simp
  with m2(3) have "\<forall>j \<in> {i..<i + Suc n}. block_bytes (unat bs) hdr m2 j"
    by (simp only: range_Suc) simp
  moreover have "\<forall>a m. a + m \<le> i * unat bs \<longrightarrow> read_at a m m2 = read_at a m mem"
    using f1 f2 by (metis le_trans mult_le_mono1 le_SucI order_refl)
  moreover have "[i..<i + Suc n] = i # [Suc i..<Suc i + n]" by (simp add: upt_rec)
  ultimately show ?case using m1 m2 by simp
qed

lemma block_desc_valid: "block_bytes b hdr mem i \<Longrightarrow> valid_RNG mem (block_desc b i)"
  by (simp add: valid_RNG_def block_desc_def block_bytes_def)

text \<open>
  The parameters under which initialisation is well defined: a block with room for the
  encapsulation headers, a buffer of less than 2 GiB that holds at least one block, and the
  two allocations granted.
\<close>

definition init_ok :: "(nat \<Rightarrow> nat \<Rightarrow> bool) \<Rightarrow> int \<Rightarrow> int \<Rightarrow> headers \<Rightarrow> bool" where
  "init_ok calloc buffer_size chunks hdr \<longleftrightarrow>
     headers_ok hdr \<and> 34 \<le> chunks \<and> chunks + 4 \<le> buffer_size \<and> buffer_size < 2 ^ 31 \<and>
     (let b = nat (chunks + 4); n = nat buffer_size div b
      in calloc n sizeof_RNG \<and> calloc (n + 1) b)"

lemma init_ring_result:
  assumes "init_ok calloc buffer_size chunks hdr"
  defines "b \<equiv> nat (chunks + 4)"
  defines "n \<equiv> nat buffer_size div b"
  shows "\<exists>mem. init_ring_buffer calloc q buffer_size chunks hdr =
      Inr (q\<lparr>bsz := of_nat b, rsz := of_nat n, R := map (block_desc b) [0..<n], pool := mem,
            qlock := 0, full := 0\<rparr>) \<and>
    length mem = (n + 1) * b \<and> (\<forall>i < n. block_bytes b hdr mem i)"
proof -
  from assms(1) have hdr: "headers_ok hdr" and c: "34 \<le> chunks" "chunks + 4 \<le> buffer_size" "buffer_size < 2 ^ 31"
    and alloc: "calloc n sizeof_RNG" "calloc (n + 1) b"
    by (auto simp: init_ok_def Let_def b_def n_def)
  have b: "38 \<le> b" "b < 2 ^ 31" using c by (auto simp: b_def)
  have nb: "n * b \<le> nat buffer_size" by (simp add: n_def)
  have "nat buffer_size < 2 ^ 31" using c by simp
  then have nb31: "n * b < 2 ^ 31" using nb by linarith
  have n31: "n < 2 ^ 31" using nb31 b(1) by (metis le_less_trans mult_le_mono2 nat_mult_1_right one_le_numeral le_trans)
  define bs :: u32 where "bs = of_int chunks + 4"
  have bs_int: "bs = of_int (chunks + 4)" by (simp add: bs_def)
  then have bs: "unat bs = b" using c unat_of_int_u32 [of "chunks + 4"] by (simp add: b_def)
  then have bs_nat: "bs = of_nat b" by (metis of_nat_unat ucast_id)
  have rs: "unat (of_int buffer_size div bs) = n"
    using c bs unat_of_int_u32 [of buffer_size] by (simp add: unat_div n_def)
  then have rs_nat: "of_int buffer_size div bs = (of_nat n :: u32)" by (metis of_nat_unat ucast_id)
  have rs1: "unat (of_nat n + 1 :: u32) = n + 1"
    using n31 unat_of_nat_u32 [of "n + 1"] by (simp add: add.commute)
  have "bs \<noteq> 0" using bs b(1) by auto
  obtain mem where mem: "init_blocks bs hdr 0 n (replicate ((n + 1) * b) 0) = Inr (map (block_desc b) [0..<n], mem)"
    "length mem = (n + 1) * b" and ok: "\<forall>j < n. block_bytes b hdr mem j"
    using init_blocks_result [OF hdr, of bs 0 n "replicate ((n + 1) * b) 0"] bs b(1) nb31 by auto
  have "\<forall>r \<in> set (map (block_desc b) [0..<n]). valid_RNG mem r"
    using ok by (auto intro: block_desc_valid)
  then have "init_ring_buffer calloc q buffer_size chunks hdr =
      Inr (q\<lparr>bsz := of_nat b, rsz := of_nat n, R := map (block_desc b) [0..<n], pool := mem,
            qlock := 0, full := 0\<rparr>)"
    using mem(1) alloc \<open>bs \<noteq> 0\<close> bs rs1 rs rs_nat bs_nat
    by (simp add: init_ring_buffer_def Let_def bs_def [symmetric] mult.commute)
  with mem(2) ok show ?thesis by blast
qed


section \<open>Properties\<close>

text \<open>
  A ring of three blocks of 53 bytes with given lock words and cursors, for examples.
\<close>

definition sample_ring :: "i32 list \<Rightarrow> u32 \<Rightarrow> u32 \<Rightarrow> u32 \<Rightarrow> Q" where
  "sample_ring locks i out n = \<lparr>qid = 0, bsz = 53, rsz = of_nat (length locks), q_in = i, q_out = out, sz = n,
     qlock = 0, spins = 0, full = 0, qts = \<lparr>tv_sec = 0, tv_nsec = 2000\<rparr>,
     R = map (\<lambda>(j, l). (block_desc 53 j)\<lparr>block_lock := l\<rparr>) (zip [0..<length locks] locks),
     pool = replicate 212 0\<rparr>"

lemma upt_3: "[0..<Suc (Suc (Suc 0))] = [0, 1, 2]"
  by (simp add: upt_rec)

lemma sample_ring_wf:
  "i < 3 \<Longrightarrow> out < 3 \<Longrightarrow> {a, b, c} \<subseteq> {0, 1} \<Longrightarrow> ring_wf (sample_ring [a, b, c] i out n)"
  by (auto simp: ring_wf_def sample_ring_def upt_3)

lemma sample_ring_simps [simp]:
  "qlock (sample_ring ls i out n) = 0" "q_in (sample_ring ls i out n) = i"
  "q_out (sample_ring ls i out n) = out" "sz (sample_ring ls i out n) = n"
  "rsz (sample_ring [a, b, c] i out n) = 3" "full (sample_ring ls i out n) = 0"
  by (simp_all add: sample_ring_def)

lemma sample_ring_locks [simp]:
  "block_lock (R (sample_ring [a, b, c] i out n) ! 0) = a"
  "block_lock (R (sample_ring [a, b, c] i out n) ! Suc 0) = b"
  "block_lock (R (sample_ring [a, b, c] i out n) ! Suc (Suc 0)) = c"
  "block_lock (R (sample_ring [a, b, c] i out n) ! 2) = c"
  "length (R (sample_ring [a, b, c] i out n)) = 3"
  by (simp_all add: sample_ring_def upt_3 block_desc_def numeral_2_eq_2)

lemma all_below_2: "(\<forall>i < 2. P i) \<longleftrightarrow> P 0 \<and> P (Suc 0 :: nat)"
  by (auto simp: numeral_2_eq_2 less_Suc_eq)

lemma all_below_3: "(\<forall>i < 3. P i) \<longleftrightarrow> P 0 \<and> P (Suc 0) \<and> P (2 :: nat)"
  by (auto simp: numeral_3_eq_3 numeral_2_eq_2 less_Suc_eq)

lemma first_free_numeral [simp]:
  "first_free rs i (numeral k) =
     (if block_lock (rs ! i) = 0 then Some i else first_free rs (Suc i) (pred_numeral k))"
  by (simp add: numeral_eq_Suc)

text \<open>
  C15: \<^verbatim>\<open>push\<close> always stops. It refuses with LOCKFAIL when the ring's lock is held; otherwise
  it settles on the first unlocked slot from \<open>in\<close> on, and returns NULL with \<open>full\<close> set when
  the ring counts as full, or that slot locked, and leaves the ring's lock free; when every
  slot from \<open>in\<close> to the end of the array is locked it reads a descriptor past the array.
\<close>

theorem push_result:
  assumes "ring_wf q"
  shows "push q =
    (if qlock q \<noteq> 0 then Some (Inr (LOCKFAIL, q))
     else case first_free (R q) (unat (q_in q)) (unat (rsz q) - unat (q_in q)) of
       None \<Rightarrow> Some (Inl (Fault OutOfBounds))
     | Some j \<Rightarrow>
         if rsz q - 1 \<le> sz q \<or> of_nat j = q_out q - 1
         then Some (Inr (NULL, q\<lparr>q_in := of_nat j, full := 1\<rparr>))
         else Some (Inr (Slot j, set_slot_lock j 1 (q\<lparr>q_in := of_nat j\<rparr>))))"
  by (rule push_outcome [OF assms])

theorem push_result_witness:
  "push (sample_ring [1, 0, 0] 0 0 1) =
     Some (Inr (Slot 1, set_slot_lock 1 1 (sample_ring [1, 0, 0] 0 0 1\<lparr>q_in := 1\<rparr>))) \<and>
   push (sample_ring [0, 1, 1] 1 0 1) = Some (Inl (Fault OutOfBounds))"
  using push_result [of "sample_ring [1, 0, 0] 0 0 1"] push_result [of "sample_ring [0, 1, 1] 1 0 1"]
  by (simp add: sample_ring_wf word_le_nat_alt)

text \<open>
  C16: on a ring whose lock is free and that is not empty, \<^verbatim>\<open>pop\<close> returns the first unlocked
  slot in circular order from its start, locked, with \<open>out\<close> moved behind it; if that slot is
  the last one of the array, the prefetch reads a descriptor past the array.
\<close>

theorem pop_takes_first_unlocked:
  assumes "ring_wf q" and "qlock q = 0" and "sz q \<noteq> 0" and "q_in q \<noteq> q_out q"
    and "k < unat (rsz q)" and "j = (pop_start q + k) mod unat (rsz q)"
    and "\<forall>m < k. block_lock (R q ! ((pop_start q + m) mod unat (rsz q))) \<noteq> 0"
    and "block_lock (R q ! j) = 0"
  shows "pop q = Some (if j + 1 = unat (rsz q) then Inl (Fault OutOfBounds)
      else Inr (Slot j, set_slot_lock j 1 (q\<lparr>q_out := of_nat (j + 1)\<rparr>)))"
  by (rule pop_outcome [OF assms(1-5,7,8,6)])

theorem pop_takes_first_unlocked_witness:
  "pop (sample_ring [1, 0, 0] 2 0 2) =
     Some (Inr (Slot 1, set_slot_lock 1 1 (sample_ring [1, 0, 0] 2 0 2\<lparr>q_out := 2\<rparr>))) \<and>
   pop (sample_ring [1, 1, 0] 2 0 2) = Some (Inl (Fault OutOfBounds))"
proof
  have start: "pop_start (sample_ring ls 2 0 2) = 0" for ls by (simp add: pop_start_def)
  show "pop (sample_ring [1, 0, 0] 2 0 2) =
     Some (Inr (Slot 1, set_slot_lock 1 1 (sample_ring [1, 0, 0] 2 0 2\<lparr>q_out := 2\<rparr>)))"
    using pop_takes_first_unlocked [of "sample_ring [1, 0, 0] 2 0 2" 1 1]
    by (simp add: sample_ring_wf start)
  show "pop (sample_ring [1, 1, 0] 2 0 2) = Some (Inl (Fault OutOfBounds))"
    using pop_takes_first_unlocked [of "sample_ring [1, 1, 0] 2 0 2" 2 2]
    by (simp add: sample_ring_wf start all_below_2)
qed

text \<open>
  C17: \<^verbatim>\<open>pop\<close> fails to return in exactly one situation: the ring's lock is free, the ring is
  not empty and every slot is locked. In every other state it stops.
\<close>

theorem pop_returns_unless_all_locked:
  assumes "ring_wf q"
  shows "pop q = None \<longleftrightarrow>
    qlock q = 0 \<and> sz q \<noteq> 0 \<and> q_in q \<noteq> q_out q \<and> (\<forall>i < length (R q). block_lock (R q ! i) \<noteq> 0)"
  using pop_diverges_iff [OF assms] by (simp add: all_taken_def)

theorem pop_returns_unless_all_locked_witness:
  "pop (sample_ring [1, 1, 1] 1 0 1) = None \<and> pop (sample_ring [1, 1, 0] 1 0 1) \<noteq> None"
  using pop_returns_unless_all_locked [of "sample_ring [1, 1, 1] 1 0 1"]
    pop_returns_unless_all_locked [of "sample_ring [1, 1, 0] 1 0 1"]
  by (simp add: sample_ring_wf all_below_3)

text \<open>
  \<^verbatim>\<open>pop\<close> on an empty ring returns NULL at once, and resets the ring exactly when an earlier
  \<^verbatim>\<open>push\<close> has marked it full.
\<close>

theorem pop_empty_resets:
  assumes "qlock q = 0" and "sz q = 0 \<or> q_in q = q_out q"
  shows "pop q = Some (Inr (NULL, if full q \<noteq> 0 then reset_ring (q\<lparr>sz := 0\<rparr>) else q\<lparr>sz := 0\<rparr>))"
  by (rule pop_empty [OF assms])

theorem pop_empty_resets_witness:
  "pop (sample_ring [0, 0, 0] 1 1 2\<lparr>full := 1\<rparr>) =
     Some (Inr (NULL, reset_ring (sample_ring [0, 0, 0] 1 1 0\<lparr>full := 1\<rparr>)))"
  using pop_empty_resets [of "sample_ring [0, 0, 0] 1 1 2\<lparr>full := 1\<rparr>"]
  by (simp add: sample_ring_def)

text \<open>
  \<^verbatim>\<open>pop\<close> never hands out the last slot of the array, although \<^verbatim>\<open>push\<close> fills it.
\<close>

theorem pop_skips_last_slot:
  assumes "ring_wf q" and "pop q = Some (Inr (Slot i, q'))"
  shows "i + 1 < unat (rsz q)"
  by (rule pop_never_last_slot [OF assms])

theorem pop_skips_last_slot_witness:
  "\<exists>q'. pop (sample_ring [0, 0, 0] 0 2 1) = Some (Inr (Slot 0, q')) \<and> 0 + 1 < unat (3 :: u32)"
proof -
  have "pop_start (sample_ring [0, 0, 0] 0 2 1) = 0" by (simp add: pop_start_def)
  then have "pop (sample_ring [0, 0, 0] 0 2 1) =
      Some (Inr (Slot 0, set_slot_lock 0 1 (sample_ring [0, 0, 0] 0 2 1\<lparr>q_out := 1\<rparr>)))"
    using pop_outcome [OF sample_ring_wf [of 0 2 0 0 0 1], of 0 0] by simp
  with pop_skips_last_slot [OF sample_ring_wf [of 0 2 0 0 0 1] this] show ?thesis by auto
qed

text \<open>
  C20: initialisation lays the blocks out one after the other, each with its descriptor, the
  encapsulation headers at its start and the footer word in its last four bytes, and ends
  without a fault, when the block has room for the headers, the buffer holds at least one
  block and is smaller than 2 GiB, and the allocations succeed. It does not write \<open>in\<close>,
  \<open>out\<close> and \<open>sz\<close>.
\<close>

theorem init_ring_buffer_correct:
  assumes "init_ok calloc buffer_size chunks hdr"
  shows "\<exists>q'. init_ring_buffer calloc q buffer_size chunks hdr = Inr q' \<and>
    unat (bsz q') = nat (chunks + 4) \<and> unat (rsz q') = nat buffer_size div nat (chunks + 4) \<and>
    R q' = map (block_desc (nat (chunks + 4))) [0..<unat (rsz q')] \<and>
    length (pool q') = (unat (rsz q') + 1) * unat (bsz q') \<and>
    (\<forall>i < unat (rsz q'). block_bytes (unat (bsz q')) hdr (pool q') i \<and> valid_RNG (pool q') (R q' ! i)) \<and>
    qlock q' = 0 \<and> full q' = 0 \<and> q_in q' = q_in q \<and> q_out q' = q_out q \<and> sz q' = sz q"
proof -
  let ?b = "nat (chunks + 4)" and ?n = "nat buffer_size div nat (chunks + 4)"
  from init_ring_result [OF assms, of q] obtain mem where
    init: "init_ring_buffer calloc q buffer_size chunks hdr = Inr (q\<lparr>bsz := of_nat ?b, rsz := of_nat ?n,
      R := map (block_desc ?b) [0..<?n], pool := mem, qlock := 0, full := 0\<rparr>)"
    and mem: "length mem = (?n + 1) * ?b" "\<forall>i < ?n. block_bytes ?b hdr mem i" by auto
  from assms have c: "34 \<le> chunks" "chunks + 4 \<le> buffer_size" "buffer_size < 2 ^ 31" by (auto simp: init_ok_def)
  have small: "nat buffer_size < 2 ^ 31" "?b \<le> nat buffer_size" using c by simp_all
  have "?n < 2 ^ 32" using small(1) by (intro le_less_trans [OF div_le_dividend]) simp
  moreover have "?b < 2 ^ 32" using small by simp
  ultimately have w: "unat (of_nat ?b :: u32) = ?b" "unat (of_nat ?n :: u32) = ?n" by (simp_all only: unat_of_nat_u32)
  have valid: "\<forall>i < ?n. valid_RNG mem (block_desc ?b i)" using mem(2) block_desc_valid by blast
  show ?thesis by (intro exI conjI, rule init) (use mem valid in \<open>simp_all add: w\<close>)
qed

definition sample_headers :: headers where
  "sample_headers = \<lparr>eh = replicate 12 2 @ [8, 0],
     iph = [0x45, 16, 0, 0, 0, 0, 0, 0, 64, 253, 0, 0, 10, 0, 0, 1, 10, 0, 0, 2]\<rparr>"

theorem init_ring_buffer_correct_witness:
  "\<exists>q'. init_ring_buffer (\<lambda>_ _. True) (sample_ring [] 0 0 0) 200 49 sample_headers = Inr q' \<and>
     unat (rsz q') = 3 \<and> length (pool q') = 212"
proof -
  have "init_ok (\<lambda>_ _. True) 200 49 sample_headers"
    by (simp add: init_ok_def headers_ok_def sample_headers_def)
  from init_ring_buffer_correct [OF this, of "sample_ring [] 0 0 0"] show ?thesis by auto
qed

text \<open>
  \<^verbatim>\<open>push\<close> reads past the array of descriptors exactly when the ring's lock is free and every
  slot from \<open>in\<close> to the end is locked: it tests the cursor only after the access, and lets
  it reach \<open>rsz\<close> before it wraps.
\<close>

theorem push_overruns_iff:
  assumes "ring_wf q"
  shows "push q = Some (Inl (Fault OutOfBounds)) \<longleftrightarrow>
    qlock q = 0 \<and> (\<forall>j \<in> {unat (q_in q)..<unat (rsz q)}. block_lock (R q ! j) \<noteq> 0)"
proof -
  have "unat (q_in q) + (unat (rsz q) - unat (q_in q)) = unat (rsz q)" using ring_wfD(3) [OF assms] by simp
  with first_free_None [of "R q" "unat (q_in q)" "unat (rsz q) - unat (q_in q)"] show ?thesis
    by (auto simp: push_outcome [OF assms] split: option.split)
qed

theorem push_overruns_iff_witness:
  "push (sample_ring [0, 1, 1] 1 0 1) = Some (Inl (Fault OutOfBounds)) \<and>
   push (sample_ring [0, 1, 0] 1 0 1) \<noteq> Some (Inl (Fault OutOfBounds))"
proof -
  have "{Suc 0..<3} = {Suc 0, 2}" by auto
  then show ?thesis
    using push_overruns_iff [of "sample_ring [0, 1, 1] 1 0 1"] push_overruns_iff [of "sample_ring [0, 1, 0] 1 0 1"]
    by (simp add: sample_ring_wf)
qed

end
