(* ===== verification/Checksum.thy ===== *)
theory Checksum
  imports Prelude
begin

text \<open>
  The Internet checksum \<^verbatim>\<open>csum\<close> of \<^verbatim>\<open>util.c\<close> on 16-bit words with a 64-bit accumulator, its
  reference definition by one's complement addition with end-around carry, and the property
  a checksum is for: a header that carries its own checksum sums to all ones.
\<close>

unbundle bit_operations_syntax

section \<open>The program's checksum\<close>

text \<open>The summation loop; reading past the buffer is a fault.\<close>

fun csum_loop :: "u16 list \<Rightarrow> nat \<Rightarrow> u64 \<Rightarrow> u64 res" where
  "csum_loop buf 0 s = Inr s"
| "csum_loop [] (Suc n) s = Inl (Fault OutOfBounds)"
| "csum_loop (w # buf) (Suc n) s = csum_loop buf n (s + ucast w)"

definition csum :: "u16 list \<Rightarrow> int \<Rightarrow> u16 res" where
  "csum buf nwords =
     (case csum_loop buf (nat nwords) 0 of
        Inl e \<Rightarrow> Inl e
      | Inr s \<Rightarrow>
          let s1 = drop_bit 16 s + (s AND 0xffff);
              s2 = s1 + drop_bit 16 s1
          in Inr (ucast (NOT s2)))"

section \<open>Reference: one's complement addition\<close>

definition ones_add :: "u16 \<Rightarrow> u16 \<Rightarrow> u16" where
  "ones_add a b =
     (let s = unat a + unat b in if s < 65536 then of_nat s else of_nat (s - 65535))"

definition ones_sum :: "u16 list \<Rightarrow> u16" where
  "ones_sum ws = foldl ones_add 0 ws"

text \<open>
  The value of a sum in one's complement: 0 only for 0, otherwise the representative in
  1..65535 of its class modulo 65535.
\<close>

definition ones_norm :: "nat \<Rightarrow> nat" where
  "ones_norm s = (if s = 0 then 0 else (s - 1) mod 65535 + 1)"

lemma ones_norm_le: "ones_norm s \<le> 65535"
proof -
  have "(s - 1) mod 65535 < 65535" by (rule mod_less_divisor) simp
  then have "(s - 1) mod 65535 + 1 \<le> 65535" by linarith
  then show ?thesis by (simp add: ones_norm_def)
qed

lemma unat_u16_le: "unat (w :: u16) \<le> 65535"
proof -
  have "unat w < 65536" using unsigned_less [of w, where 'a = nat] by simp
  then show ?thesis by simp
qed

lemma ones_norm_step:
  assumes "b \<le> 65535"
  shows "(let s = ones_norm a + b in if s < 65536 then s else s - 65535) = ones_norm (a + b)"
proof (cases "a = 0 \<or> b = 0")
  case True
  then show ?thesis
    using assms ones_norm_le [of a] by (auto simp: ones_norm_def Let_def)
next
  case False
  define r where "r = (a - 1) mod 65535"
  have r: "r < 65535" by (simp add: r_def)
  have "(a + b - 1) mod 65535 = (r + b) mod 65535"
    using False by (simp add: r_def mod_add_left_eq)
  also have "\<dots> = (if r + b < 65535 then r + b else r + b - 65535)"
    using r assms by (simp add: mod_if)
  finally have "ones_norm (a + b) = (if r + b < 65535 then r + b else r + b - 65535) + 1"
    using False by (simp add: ones_norm_def)
  moreover have "ones_norm a = r + 1" using False by (simp add: ones_norm_def r_def)
  ultimately show ?thesis by (simp add: Let_def) arith
qed

lemma unat_ones_add:
  assumes "unat a = ones_norm s"
  shows "unat (ones_add a b) = ones_norm (s + unat b)"
proof -
  let ?t = "unat a + unat b"
  have "unat (ones_add a b) = (if ?t < 65536 then ?t else ?t - 65535)"
    using unat_u16_le [of a] unat_u16_le [of b]
    by (simp add: ones_add_def Let_def unat_of_nat take_bit_nat_eq_self del: of_nat_add of_nat_diff)
  then show ?thesis
    using ones_norm_step [OF unat_u16_le, of s b] assms by (simp add: Let_def split: if_splits)
qed

lemma unat_foldl_ones:
  "unat a = ones_norm s \<Longrightarrow>
     unat (foldl ones_add a ws) = ones_norm (s + sum_list (map unat ws))"
proof (induction ws arbitrary: a s)
  case (Cons w ws)
  from Cons.IH [OF unat_ones_add [OF Cons.prems, of w]] show ?case by (simp add: add.assoc)
qed simp

lemma unat_ones_sum: "unat (ones_sum ws) = ones_norm (sum_list (map unat ws))"
  using unat_foldl_ones [of 0 0 ws] by (simp add: ones_sum_def ones_norm_def)

section \<open>The program's checksum equals the reference\<close>

lemma unat_ucast_u16 [simp]: "unat (ucast (w :: u16) :: u64) = unat w"
  using unat_u16_le [of w] by (simp add: unsigned_ucast_eq take_bit_nat_eq_self)

lemma csum_loop_sum:
  assumes "n \<le> length ws" and "unat s + sum_list (map unat (take n ws)) < 2 ^ 64"
  shows "\<exists>s'. csum_loop ws n s = Inr s' \<and> unat s' = unat s + sum_list (map unat (take n ws))"
  using assms
proof (induction ws n s rule: csum_loop.induct)
  case (3 w buf n s)
  then have "unat s + unat w < 2 ^ 64" by simp
  then have add: "unat (s + ucast w :: u64) = unat s + unat w"
    using unat_add_lem [of s "ucast w"] by simp
  from "3.IH" "3.prems" show ?case by (simp add: add add.assoc)
qed simp_all

lemma sum_list_u16_bound: "sum_list (map unat (ws :: u16 list)) \<le> length ws * 65535"
proof (induction ws)
  case (Cons w ws)
  then show ?case using unat_u16_le [of w] by simp
qed simp

lemma unat_not_u16: "unat (NOT (w :: u16)) = 65535 - unat w"
proof -
  have "NOT w = - 1 - w" by (simp add: not_eq_complement)
  moreover have "unat (- 1 - w) = unat (- 1 :: u16) - unat w" by (rule unat_sub) simp
  ultimately show ?thesis by (simp add: unsigned_minus_1_eq_mask mask_eq_exp_minus_1)
qed

lemma ones_norm_complete: "s \<noteq> 0 \<Longrightarrow> ones_norm (s + (65535 - ones_norm s)) = 65535"
proof -
  assume s: "s \<noteq> 0"
  define r where "r = (s - 1) mod 65535"
  define q where "q = (s - 1) div 65535"
  have "s - 1 = 65535 * q + r" by (simp add: q_def r_def)
  moreover have r: "r < 65535" by (simp add: r_def)
  ultimately have "s + (65535 - (r + 1)) - 1 = 65534 + 65535 * q" using s by linarith
  then have "(s + (65535 - (r + 1)) - 1) mod 65535 = 65534" by simp
  with s show ?thesis by (simp add: ones_norm_def r_def)
qed

text \<open>Two folds of a 32-bit sum reach the one's complement normal form.\<close>

lemma fold_twice:
  assumes "s < 2 ^ 32"
  shows "(let s1 = s div 65536 + s mod 65536 in (s1 + s1 div 65536) mod 65536) = ones_norm s"
proof (cases "s = 0")
  case True
  then show ?thesis by (simp add: ones_norm_def)
next
  case False
  define a where "a = s div 65536"
  define b where "b = s mod 65536"
  have s: "s = 65536 * a + b" by (simp add: a_def b_def)
  have a: "a < 65536" using assms by (simp add: a_def less_mult_imp_div_less)
  have b: "b < 65536" by (simp add: b_def)
  have pos: "0 < a + b" using False s by auto
  have "s - 1 = (a + b - 1) + 65535 * a" using pos s by linarith
  then have "(s - 1) mod 65535 = (a + b - 1) mod 65535" by simp
  also have "\<dots> = (if a + b < 65536 then a + b - 1 else a + b - 65536)"
    using a b pos by (auto simp: mod_if)
  finally have "ones_norm s = (if a + b < 65536 then a + b else a + b - 65535)"
    using False pos by (simp add: ones_norm_def) arith
  moreover have "(a + b + (a + b) div 65536) mod 65536 = (if a + b < 65536 then a + b else a + b - 65535)"
  proof (cases "a + b < 65536")
    case False
    then have "(a + b) div 65536 = 1" using a b by (simp add: div_if)
    with False a b show ?thesis by (simp add: mod_if)
  qed simp
  ultimately show ?thesis by (simp add: Let_def a_def b_def)
qed

lemma csum_value:
  assumes "nwords \<le> int (length ws)" and "0 \<le> nwords" and "nwords \<le> 65537"
  shows "\<exists>c. csum ws nwords = Inr c \<and>
           unat c = 65535 - ones_norm (sum_list (map unat (take (nat nwords) ws)))"
proof -
  let ?S = "sum_list (map unat (take (nat nwords) ws))"
  have "?S \<le> length (take (nat nwords) ws) * 65535" by (rule sum_list_u16_bound)
  also have "\<dots> \<le> 65537 * 65535" using assms by (intro mult_right_mono) auto
  finally have S: "?S < 2 ^ 32" by simp
  have n: "nat nwords \<le> length ws" using assms(1) by linarith
  from S obtain s where s: "csum_loop ws (nat nwords) 0 = Inr s" "unat s = ?S"
    using csum_loop_sum [OF n, of 0] by auto
  define s1 :: u64 where "s1 = drop_bit 16 s + (s AND 0xffff)"
  define s2 :: u64 where "s2 = s1 + drop_bit 16 s1"
  have "s AND 0xffff = take_bit 16 s" by (simp add: take_bit_eq_mask mask_eq_exp_minus_1)
  then have low: "unat (s AND 0xffff) = ?S mod 65536"
    using s(2) by (simp add: unat_mod take_bit_eq_mod)
  have "unat (drop_bit 16 s) = ?S div 65536"
    using s(2) by (simp add: unat_div drop_bit_eq_div)
  moreover have bound: "?S div 65536 + ?S mod 65536 < 131072"
  proof -
    have "?S div 65536 < 65536" using S by (simp add: less_mult_imp_div_less)
    moreover have "?S mod 65536 < 65536" by simp
    ultimately show ?thesis by linarith
  qed
  ultimately have s1: "unat s1 = ?S div 65536 + ?S mod 65536"
    using low unat_add_lem [of "drop_bit 16 s" "s AND 0xffff"] by (simp add: s1_def)
  with bound have "unat s1 < 131072" by simp
  moreover have "unat (drop_bit 16 s1) = unat s1 div 65536"
    by (simp add: unat_div drop_bit_eq_div)
  ultimately have "unat s2 = unat s1 + unat s1 div 65536"
    using unat_add_lem [of s1 "drop_bit 16 s1"] by (simp add: s2_def) linarith
  then have "unat (ucast s2 :: u16) = ones_norm ?S"
    using fold_twice [OF S] s1 by (simp add: Let_def unsigned_ucast_eq take_bit_eq_mod)
  moreover have "ucast (NOT s2) = (NOT (ucast s2) :: u16)"
    by (simp add: bit_eq_iff bit_simps)
  ultimately show ?thesis using s(1) by (simp add: unat_not_u16 csum_def Let_def s1_def s2_def)
qed

text \<open>
  C32: on a buffer of up to 65537 words, which covers every IPv4 header, \<^verbatim>\<open>csum\<close> is the
  complement of the one's complement sum of the words it is given.
\<close>

theorem csum_is_internet_checksum:
  assumes "0 \<le> nwords" and "nwords \<le> int (length ws)" and "nwords \<le> 65537"
  shows "csum ws nwords = Inr (NOT (ones_sum (take (nat nwords) ws)))"
proof -
  from csum_value [OF assms(2,1,3)] obtain c where c: "csum ws nwords = Inr c"
    and "unat c = 65535 - ones_norm (sum_list (map unat (take (nat nwords) ws)))" by blast
  then have "unat c = unat (NOT (ones_sum (take (nat nwords) ws)))"
    by (simp add: unat_not_u16 unat_ones_sum)
  with c show ?thesis by (simp add: word_unat_eq_iff)
qed

theorem csum_is_internet_checksum_witness:
  "csum [0x4500, 0x0073, 0x0000, 0x4000, 0x4011, 0x0000, 0xc0a8, 0x0001, 0xc0a8, 0x00c7] 10
     = Inr 0xb861 \<and>
   NOT (ones_sum [0x4500, 0x0073, 0x0000, 0x4000, 0x4011, 0x0000, 0xc0a8, 0x0001, 0xc0a8, 0x00c7])
     = 0xb861"
proof -
  let ?h = "[0x4500, 0x0073, 0x0000, 0x4000, 0x4011, 0x0000, 0xc0a8, 0x0001, 0xc0a8, 0x00c7 :: u16]"
  have "csum ?h 10 = Inr (NOT (ones_sum (take (nat 10) ?h)))"
    by (rule csum_is_internet_checksum) simp_all
  moreover have "NOT (ones_sum ?h) = 0xb861"
    by (simp add: ones_sum_def ones_add_def Let_def)
  ultimately show ?thesis by simp
qed

text \<open>
  C33: storing the checksum of a header whose check field is 0 into that field gives a
  header that sums to all ones, so the receiver's \<^verbatim>\<open>csum\<close> over it is 0.
\<close>

theorem csum_verifies:
  assumes "k < length ws" and "ws ! k = 0" and "length ws \<le> 65537"
    and "\<exists>w \<in> set ws. w \<noteq> 0" and "csum ws (int (length ws)) = Inr c"
  shows "csum (ws[k := c]) (int (length ws)) = Inr 0"
proof -
  let ?S = "sum_list (map unat ws)"
  from csum_value [of "int (length ws)" ws] assms(3,5)
  have c: "unat c = 65535 - ones_norm ?S" by auto
  have "map unat (ws[k := c]) = (map unat ws)[k := unat c]" by (simp add: map_update)
  then have sum: "sum_list (map unat (ws[k := c])) = ?S + unat c"
    using assms(1,2) by (simp add: sum_list_update)
  have "?S \<noteq> 0" using assms(4) by (auto simp: unsigned_eq_0_iff)
  then have "ones_norm (?S + (65535 - ones_norm ?S)) = 65535"
    by (rule ones_norm_complete)
  with csum_value [of "int (length ws)" "ws[k := c]"] assms(3) sum c obtain d where
    d: "csum (ws[k := c]) (int (length ws)) = Inr d" "unat d = 0" by auto
  then show ?thesis by (simp add: unsigned_eq_0_iff)
qed

theorem csum_verifies_witness:
  "csum [0x4500, 0x0073, 0x0000, 0x4000, 0x4011, 0xb861, 0xc0a8, 0x0001, 0xc0a8, 0x00c7] 10 = Inr 0"
proof -
  let ?h = "[0x4500, 0x0073, 0x0000, 0x4000, 0x4011, 0x0000, 0xc0a8, 0x0001, 0xc0a8, 0x00c7 :: u16]"
  have "csum ?h (int (length ?h)) = Inr 0xb861"
    by code_simp
  then show ?thesis using csum_verifies [of 5 ?h "0xb861"] by simp
qed

end
