(* ===== verification/Fifo.thy ===== *)
theory Fifo
  imports Prelude
begin

text \<open>
  The interface of a first-in first-out buffer that accepts a bounded number of entries, with
  what it promises stated over HOL lists, and of two such buffers in a row. The rings of a
  session are used this way: \<^verbatim>\<open>tx_io\<close> puts payloads into a ring, \<^verbatim>\<open>tx\<close> takes frames out
  of it, and on the other host \<^verbatim>\<open>rx_io\<close> and \<^verbatim>\<open>rx\<close> do the same with another ring.
\<close>

section \<open>One buffer\<close>

datatype 'a fifo_op = Enq 'a | Deq

text \<open>Run a sequence of operations and collect what the dequeues give.\<close>

fun fifo_run :: "('a \<Rightarrow> 's \<Rightarrow> 's option) \<Rightarrow> ('s \<Rightarrow> ('b option \<times> 's) option) \<Rightarrow> 's \<Rightarrow> 'a fifo_op list \<Rightarrow>
    ('b option list \<times> 's) option" where
  "fifo_run enq deq s [] = Some ([], s)"
| "fifo_run enq deq s (Enq x # ops) = do { s1 \<leftarrow> enq x s; fifo_run enq deq s1 ops }"
| "fifo_run enq deq s (Deq # ops) = do {
     (out, s1) \<leftarrow> deq s; (outs, s2) \<leftarrow> fifo_run enq deq s1 ops; Some (out # outs, s2) }"

text \<open>The same operations on a list.\<close>

fun list_run :: "'a list \<Rightarrow> 'a fifo_op list \<Rightarrow> 'a option list \<times> 'a list" where
  "list_run xs [] = ([], xs)"
| "list_run xs (Enq x # ops) = list_run (xs @ [x]) ops"
| "list_run [] (Deq # ops) = (let (outs, ys) = list_run [] ops in (None # outs, ys))"
| "list_run (x # xs) (Deq # ops) = (let (outs, ys) = list_run xs ops in (Some x # outs, ys))"

fun enqueued :: "'a fifo_op list \<Rightarrow> 'a list" where
  "enqueued [] = []"
| "enqueued (Enq x # ops) = x # enqueued ops"
| "enqueued (Deq # ops) = enqueued ops"

text \<open>
  \<open>room\<close> bounds how many more entries are accepted; \<open>carries b x\<close> says that the output \<open>b\<close>
  stands for the entry \<open>x\<close>.
\<close>

locale bounded_fifo =
  fixes enq :: "'a \<Rightarrow> 's \<Rightarrow> 's option"
    and deq :: "'s \<Rightarrow> ('b option \<times> 's) option"
    and inv :: "'s \<Rightarrow> bool"
    and contents :: "'s \<Rightarrow> 'a list"
    and room :: "'s \<Rightarrow> nat"
    and okv :: "'a \<Rightarrow> bool"
    and carries :: "'b \<Rightarrow> 'a \<Rightarrow> bool"
  assumes enq_law: "inv s \<Longrightarrow> okv x \<Longrightarrow> 0 < room s \<Longrightarrow>
      \<exists>s'. enq x s = Some s' \<and> inv s' \<and> contents s' = contents s @ [x] \<and> room s \<le> Suc (room s')"
    and deq_law: "inv s \<Longrightarrow> contents s = x # xs \<Longrightarrow>
      \<exists>b s'. deq s = Some (Some b, s') \<and> carries b x \<and> inv s' \<and> contents s' = xs \<and> room s \<le> room s'"
    and deq_empty_law: "inv s \<Longrightarrow> contents s = [] \<Longrightarrow>
      \<exists>s'. deq s = Some (None, s') \<and> inv s' \<and> contents s' = [] \<and> room s \<le> room s'"
    and contents_ok: "inv s \<Longrightarrow> x \<in> set (contents s) \<Longrightarrow> okv x"
begin

text \<open>Any sequence of operations within the room behaves like the same sequence on a list.\<close>

lemma run_refines:
  assumes "inv s" and "\<forall>x \<in> set (enqueued ops). okv x" and "length (enqueued ops) \<le> room s"
  shows "\<exists>outs s'. fifo_run enq deq s ops = Some (outs, s') \<and> inv s' \<and>
           list_all2 (rel_option carries) outs (fst (list_run (contents s) ops)) \<and>
           contents s' = snd (list_run (contents s) ops)"
  using assms
proof (induction ops arbitrary: s)
  case Nil
  then show ?case by simp
next
  case (Cons op ops)
  show ?case
  proof (cases op)
    case (Enq x)
    with Cons.prems enq_law [of s x] obtain s1 where
      s1: "enq x s = Some s1" "inv s1" "contents s1 = contents s @ [x]" "room s \<le> Suc (room s1)" by auto
    with Cons.IH [of s1] Cons.prems Enq show ?thesis by auto
  next
    case Deq
    show ?thesis
    proof (cases "contents s")
      case Nil
      with Cons.prems(1) deq_empty_law obtain s1 where
        "deq s = Some (None, s1)" "inv s1" "contents s1 = []" "room s \<le> room s1" by blast
      with Cons.IH [of s1] Cons.prems Deq Nil show ?thesis by (auto split: prod.splits)
    next
      case (Cons x xs)
      with Cons.prems(1) deq_law obtain b s1 where
        "deq s = Some (Some b, s1)" "carries b x" "inv s1" "contents s1 = xs" "room s \<le> room s1"
        by blast
      with Cons.IH [of s1] Cons.prems Deq Cons show ?thesis by (auto split: prod.splits)
    qed
  qed
qed

end

section \<open>Two buffers in a row\<close>

text \<open>
  A link: \<open>Send x\<close> enqueues upstream, \<open>Hop\<close> moves one output of the upstream buffer into the
  downstream one, \<open>Deliver\<close> takes one output downstream. The state collects the deliveries.
\<close>

datatype 'a link_op = Send 'a | Hop | Deliver

fun sent :: "'a link_op list \<Rightarrow> 'a list" where
  "sent [] = []"
| "sent (Send x # ops) = x # sent ops"
| "sent (op # ops) = sent ops"

fun link_step :: "('a \<Rightarrow> 's \<Rightarrow> 's option) \<Rightarrow> ('s \<Rightarrow> ('b option \<times> 's) option) \<Rightarrow>
    ('b \<Rightarrow> 't \<Rightarrow> 't option) \<Rightarrow> ('t \<Rightarrow> ('a option \<times> 't) option) \<Rightarrow>
    'a link_op \<Rightarrow> 's \<times> 't \<times> 'a list \<Rightarrow> ('s \<times> 't \<times> 'a list) option" where
  "link_step enq1 deq1 enq2 deq2 (Send x) (s, t, got) = do { s1 \<leftarrow> enq1 x s; Some (s1, t, got) }"
| "link_step enq1 deq1 enq2 deq2 Hop (s, t, got) = do {
     (b, s1) \<leftarrow> deq1 s;
     case b of None \<Rightarrow> Some (s1, t, got) | Some f \<Rightarrow> do { t1 \<leftarrow> enq2 f t; Some (s1, t1, got) } }"
| "link_step enq1 deq1 enq2 deq2 Deliver (s, t, got) = do {
     (b, t1) \<leftarrow> deq2 t;
     case b of None \<Rightarrow> Some (s, t1, got) | Some y \<Rightarrow> Some (s, t1, got @ [y]) }"

fun run_all :: "('op \<Rightarrow> 's \<Rightarrow> 's option) \<Rightarrow> 'op list \<Rightarrow> 's \<Rightarrow> 's option" where
  "run_all f [] s = Some s"
| "run_all f (op # ops) s = do { s1 \<leftarrow> f op s; run_all f ops s1 }"

locale fifo_link =
  up: bounded_fifo enq1 deq1 inv1 contents1 room1 okv1 carries1 +
  down: bounded_fifo enq2 deq2 inv2 contents2 room2 okv2 carries2
  for enq1 :: "'a \<Rightarrow> 's \<Rightarrow> 's option" and deq1 inv1 contents1 room1 okv1
    and carries1 :: "'b \<Rightarrow> 'a \<Rightarrow> bool"
    and enq2 :: "'b \<Rightarrow> 't \<Rightarrow> 't option" and deq2 inv2 contents2 room2 okv2
    and carries2 :: "'a \<Rightarrow> 'b \<Rightarrow> bool" +
  fixes unwrap :: "'b \<Rightarrow> 'a"
  assumes passes: "okv1 x \<Longrightarrow> carries1 f x \<Longrightarrow> okv2 f \<and> unwrap f = x"
    and unwraps: "carries2 y f \<Longrightarrow> y = unwrap f"
begin

definition in_flight :: "'s \<times> 't \<times> 'a list \<Rightarrow> 'a list" where
  "in_flight st = (case st of (s, t, got) \<Rightarrow> got @ map unwrap (contents2 t) @ contents1 s)"

text \<open>What a state still has room for when \<open>n\<close> more entries are going to be sent.\<close>

definition linked_ok :: "nat \<Rightarrow> 's \<times> 't \<times> 'a list \<Rightarrow> bool" where
  "linked_ok n st = (case st of (s, t, got) \<Rightarrow> inv1 s \<and> inv2 t \<and> n \<le> room1 s \<and>
     length (contents1 s) + n \<le> room2 t)"

lemma send_step:
  assumes "linked_ok (Suc n) st" and "okv1 x"
  shows "\<exists>st'. link_step enq1 deq1 enq2 deq2 (Send x) st = Some st' \<and> linked_ok n st' \<and>
           in_flight st' = in_flight st @ [x]"
proof -
  obtain s t got where st: "st = (s, t, got)" by (cases st) auto
  with assms up.enq_law [of s x] obtain s1 where "enq1 x s = Some s1" "inv1 s1"
    "contents1 s1 = contents1 s @ [x]" "room1 s \<le> Suc (room1 s1)" by (auto simp: linked_ok_def)
  with assms show ?thesis by (auto simp: st linked_ok_def in_flight_def)
qed

lemma hop_step:
  assumes "linked_ok n st"
  shows "\<exists>st'. link_step enq1 deq1 enq2 deq2 Hop st = Some st' \<and> linked_ok n st' \<and>
           in_flight st' = in_flight st"
proof -
  obtain s t got where st: "st = (s, t, got)" by (cases st) auto
  with assms have ok: "inv1 s" "inv2 t" "n \<le> room1 s" "length (contents1 s) + n \<le> room2 t"
    by (auto simp: linked_ok_def)
  show ?thesis
  proof (cases "contents1 s")
    case Nil
    with up.deq_empty_law ok(1) obtain s1 where
      "deq1 s = Some (None, s1)" "inv1 s1" "contents1 s1 = []" "room1 s \<le> room1 s1" by blast
    with ok Nil show ?thesis by (auto simp: st linked_ok_def in_flight_def)
  next
    case (Cons x xs)
    with up.deq_law ok(1) obtain f s1 where s1: "deq1 s = Some (Some f, s1)" "carries1 f x" "inv1 s1"
      "contents1 s1 = xs" "room1 s \<le> room1 s1" by blast
    from up.contents_ok [OF ok(1)] Cons have "okv1 x" by simp
    with passes s1(2) have f: "okv2 f" "unwrap f = x" by auto
    with down.enq_law [of t f] ok Cons obtain t1 where "enq2 f t = Some t1" "inv2 t1"
      "contents2 t1 = contents2 t @ [f]" "room2 t \<le> Suc (room2 t1)" by auto
    with ok s1 f Cons show ?thesis by (auto simp: st linked_ok_def in_flight_def)
  qed
qed

lemma deliver_step:
  assumes "linked_ok n st"
  shows "\<exists>st'. link_step enq1 deq1 enq2 deq2 Deliver st = Some st' \<and> linked_ok n st' \<and>
           in_flight st' = in_flight st"
proof -
  obtain s t got where st: "st = (s, t, got)" by (cases st) auto
  with assms have ok: "inv1 s" "inv2 t" "n \<le> room1 s" "length (contents1 s) + n \<le> room2 t"
    by (auto simp: linked_ok_def)
  show ?thesis
  proof (cases "contents2 t")
    case Nil
    with down.deq_empty_law ok(2) obtain t1 where
      "deq2 t = Some (None, t1)" "inv2 t1" "contents2 t1 = []" "room2 t \<le> room2 t1" by blast
    with ok Nil show ?thesis by (auto simp: st linked_ok_def in_flight_def)
  next
    case (Cons f fs)
    with down.deq_law ok(2) obtain y t1 where "deq2 t = Some (Some y, t1)" "carries2 y f" "inv2 t1"
      "contents2 t1 = fs" "room2 t \<le> room2 t1" by blast
    with ok unwraps Cons show ?thesis by (auto simp: st linked_ok_def in_flight_def)
  qed
qed

text \<open>Nothing is lost, doubled or reordered, whatever the schedule.\<close>

lemma conservation:
  assumes "linked_ok (length (sent ops)) st" and "\<forall>x \<in> set (sent ops). okv1 x"
  shows "\<exists>st'. run_all (link_step enq1 deq1 enq2 deq2) ops st = Some st' \<and>
           in_flight st' = in_flight st @ sent ops"
  using assms
proof (induction ops arbitrary: st)
  case (Cons op ops)
  show ?case
  proof (cases op)
    case (Send x)
    with Cons.prems send_step [of "length (sent ops)" st x] Cons.IH show ?thesis by fastforce
  next
    case Hop
    with Cons.prems hop_step [of "length (sent ops)" st] Cons.IH show ?thesis by fastforce
  next
    case Deliver
    with Cons.prems deliver_step [of "length (sent ops)" st] Cons.IH show ?thesis by fastforce
  qed
qed simp

end

end
