(* ===== verification/Workers.thy ===== *)
theory Workers
  imports Ring Checksum Fifo
begin

text \<open>
  The traffic threads of \<^verbatim>\<open>workers.c\<close>. \<open>tx_io\<close> and \<open>rx_io\<close> produce into the rings of a
  session, \<open>tx\<close> and \<open>rx\<close> consume, \<open>tx_lb\<close> and \<open>rx_lb\<close> pick the least loaded ring. Each
  definition is one pass of a thread's loop, a function of the session, of what the kernel
  answers (poll events with the bytes read, results of \<^verbatim>\<open>sendto\<close> and \<^verbatim>\<open>write\<close>) and of the
  loop's own variables. A list of events that runs out means the thread is still blocked in
  \<^verbatim>\<open>poll\<close>, which is \<open>None\<close>.
\<close>

section \<open>Sessions and kernel answers\<close>

text \<open>The link-layer address of a session's socket, as far as it is set.\<close>

record sockaddr_ll =
  sll_family :: u16
  sll_protocol :: u16
  sll_ifindex :: int
  sll_halen :: u8
  sll_addr :: "u8 list"

text \<open>
  A session; \<open>ifname\<close> and \<open>tifname\<close> are the 16 characters of the arrays. The members that
  nothing reads (\<open>lost_in_tx\<close> and the like, \<open>running\<close>) are left out.
\<close>

record txq =
  tx_type :: int
  tx_ifname :: string
  tx_tifname :: string
  tx_id :: u32
  tx_fd :: int
  tx_af :: int
  tx_mtu :: int
  tx_qnum :: int
  tx_qnow :: int
  tx_packets_in :: i32
  tx_packets_out :: i32
  tx_bytes_in :: i32
  tx_bytes_out :: i32
  tx_peer_ip :: u32
  tx_my_ip :: u32
  tx_lb_delay :: timespec
  tx_sll :: sockaddr_ll
  tx_pcx :: ptr
  tx_q :: "Q list"

record rxq =
  rx_type :: int
  rx_ifname :: string
  rx_tifname :: string
  rx_id :: u32
  rx_fd :: int
  rx_af :: int
  rx_mtu :: int
  rx_tmtu :: int
  rx_qnum :: int
  rx_qnow :: int
  rx_packets_out :: i32
  rx_bytes_out :: i32
  rx_peer_ip :: u32
  rx_my_ip :: u32
  rx_sll :: sockaddr_ll
  rx_pcx :: ptr
  rx_lb_delay :: timespec
  rx_q :: "Q list"

text \<open>
  One return of \<^verbatim>\<open>poll\<close>: whether POLLIN is set, and what the \<^verbatim>\<open>read\<close> that follows gives:
  the bytes, or \<open>None\<close> for its error return -1.
\<close>

record poll_event =
  pollin :: bool
  got :: "u8 list option"

text \<open>What a pass of a consumer leaves the thread with: the next pass, or the wait for data.\<close>

datatype pass = Again | SizeWait

definition SLOWSPIN :: int where "SLOWSPIN = 2000"

section \<open>One block of a ring\<close>

definition set_blen :: "nat \<Rightarrow> int \<Rightarrow> Q \<Rightarrow> Q" where
  "set_blen j n q = q\<lparr>R := upd_at j (\<lambda>b. b\<lparr>blen := n\<rparr>) (R q)\<rparr>"

definition write_pool :: "nat \<Rightarrow> u8 list \<Rightarrow> Q \<Rightarrow> Q res" where
  "write_pool off bs q =
     (case write_at off bs (pool q) of Inl e \<Rightarrow> Inl e | Inr mem \<Rightarrow> Inr (q\<lparr>pool := mem\<rparr>))"

text \<open>A \<^verbatim>\<open>read\<close> into the pool: the bytes and their number, or -1.\<close>

definition read_into :: "nat \<Rightarrow> nat \<Rightarrow> u8 list option \<Rightarrow> Q \<Rightarrow> Q res" where
  "read_into off j answer q =
     (case answer of
        None \<Rightarrow> Inr (set_blen j (- 1) q)
      | Some bs \<Rightarrow> (case write_pool off bs q of
          Inl e \<Rightarrow> Inl e
        | Inr q1 \<Rightarrow> Inr (set_blen j (int (length bs)) q1)))"

text \<open>
  How a producer publishes slot \<open>j\<close>: unlock it, count it in \<open>sz\<close>, advance \<open>in\<close>; and how a
  consumer gives it back.
\<close>

definition commit_push :: "nat \<Rightarrow> Q \<Rightarrow> Q" where
  "commit_push j q =
     (let q1 = unlock_slot j q;
          q2 = q1\<lparr>sz := if rsz q1 \<le> sz q1 then sz q1 else sz q1 + 1\<rparr>;
          q3 = q2\<lparr>q_in := q_in q2 + 1\<rparr>
      in if rsz q3 \<le> q_in q3 then q3\<lparr>q_in := q_in q3 - q_in q3\<rparr> else q3)"

definition commit_pop :: "nat \<Rightarrow> Q \<Rightarrow> Q" where
  "commit_pop j q =
     (let q1 = set_blen j (- 1) q;
          q2 = q1\<lparr>sz := if sz q1 < 1 then 0 else sz q1 - 1\<rparr>
      in unlock_slot j q2)"

section \<open>tx\_io\<close>

text \<open>\<^verbatim>\<open>i = i < h->qnum ? i + 1 : 0\<close>, compared as unsigned.\<close>

definition next_queue :: "u32 \<Rightarrow> int \<Rightarrow> u32" where
  "next_queue i qnum = (if i < of_int qnum then i + 1 else 0)"

text \<open>
  The encapsulation of a payload just read: total length and checksum are stored into the IP
  header in host byte order; the checksum is taken over ten 16-bit words that start
  \<open>sizeof (struct ethhdr)\<close> bytes into the payload.
\<close>

definition tx_encap :: "nat \<Rightarrow> Q \<Rightarrow> Q res" where
  "tx_encap j q =
     (let b = R q ! j in
      case write_pool (ipheader b + 2) (bytes_of_u16 (of_int (blen b + int IP4_HDRLEN))) q of
        Inl e \<Rightarrow> Inl e
      | Inr q1 \<Rightarrow>
          (case csum (u16s_of_bytes (read_at (bdata b + 14) 20 (pool q1))) 10 of
             Inl e \<Rightarrow> Inl e
           | Inr c \<Rightarrow> write_pool (ipheader b + 10) (bytes_of_u16 c) q1))"

text \<open>One pass of the poll loop on slot \<open>j\<close>.\<close>

definition tx_io_poll :: "nat \<Rightarrow> poll_event \<Rightarrow> Q \<Rightarrow> Q res" where
  "tx_io_poll j ev q =
     (case (if pollin ev then read_into (bdata (R q ! j)) j (got ev) q else Inr q) of
        Inl e \<Rightarrow> Inl e
      | Inr q1 \<Rightarrow> if blen (R q1 ! j) = - 1 then Inr q1 else tx_encap j q1)"

fun tx_io_fill :: "nat \<Rightarrow> poll_event list \<Rightarrow> Q \<Rightarrow> (Q \<times> poll_event list) may_loop" where
  "tx_io_fill j [] q = None"
| "tx_io_fill j (ev # evs) q =
     (case tx_io_poll j ev q of
        Inl e \<Rightarrow> Some (Inl e)
      | Inr q1 \<Rightarrow> if blen (R q1 ! j) = - 1 then tx_io_fill j evs q1 else Some (Inr (q1, evs)))"

definition tx_count_in :: "int \<Rightarrow> txq \<Rightarrow> txq" where
  "tx_count_in n h = h\<lparr>tx_packets_in := tx_packets_in h + 1, tx_bytes_in := tx_bytes_in h + of_int n\<rparr>"

text \<open>
  The work of one pass on one queue: the length published, or \<open>None\<close> when \<^verbatim>\<open>push\<close> gave no slot.
\<close>

definition tx_io_queue :: "poll_event list \<Rightarrow> Q \<Rightarrow> (int option \<times> poll_event list \<times> Q) may_loop" where
  "tx_io_queue evs q =
     (case push q of
        None \<Rightarrow> None
      | Some (Inl e) \<Rightarrow> Some (Inl e)
      | Some (Inr (Slot j, q1)) \<Rightarrow>
          (case tx_io_fill j evs q1 of
             None \<Rightarrow> None
           | Some (Inl e) \<Rightarrow> Some (Inl e)
           | Some (Inr (q2, evs')) \<Rightarrow> Some (Inr (Some (blen (R q2 ! j)), evs', commit_push j q2)))
      | Some (Inr (_, q1)) \<Rightarrow> Some (Inr (None, evs, q1)))"

text \<open>One pass of the thread's loop: \<open>i\<close> is advanced first.\<close>

definition tx_io_iter :: "u32 \<Rightarrow> poll_event list \<Rightarrow> txq \<Rightarrow> (u32 \<times> poll_event list \<times> txq) may_loop" where
  "tx_io_iter i0 evs h =
     (let i = next_queue i0 (tx_qnum h); k = unat i in
      if length (tx_q h) \<le> k then Some (Inl (Fault OutOfBounds))
      else case tx_io_queue evs (tx_q h ! k) of
        None \<Rightarrow> None
      | Some (Inl e) \<Rightarrow> Some (Inl e)
      | Some (Inr (n, evs', q')) \<Rightarrow>
          (let h' = h\<lparr>tx_q := (tx_q h)[k := q']\<rparr>
           in Some (Inr (i, evs', case n of None \<Rightarrow> h' | Some m \<Rightarrow> tx_count_in m h'))))"

section \<open>tx\<close>

text \<open>
  The start of a worker: it takes the session's next id, sets up the queue of that index, and
  takes a cpu to pin itself to. The test \<^verbatim>\<open>c >= 0\<close> is made on an unsigned variable here.
\<close>

definition worker_start :: "txq \<Rightarrow> (nat \<times> txq) res" where
  "worker_start h =
     (let i = unat (tx_id h); h1 = h\<lparr>tx_id := tx_id h + 1\<rparr> in
      if length (tx_q h) \<le> i then Inl (Fault OutOfBounds)
      else Inr (i, h1\<lparr>tx_q := upd_at i (\<lambda>q. q\<lparr>qts := \<lparr>tv_sec = 0, tv_nsec = SLOWSPIN\<rparr>,
             spins := 0, qid := of_nat i\<rparr>) (tx_q h)\<rparr>))"

definition rx_worker_start :: "rxq \<Rightarrow> (nat \<times> rxq) res" where
  "rx_worker_start h =
     (let i = unat (rx_id h); h1 = h\<lparr>rx_id := rx_id h + 1\<rparr> in
      if length (rx_q h) \<le> i then Inl (Fault OutOfBounds)
      else Inr (i, h1\<lparr>rx_q := upd_at i (\<lambda>q. q\<lparr>qid := of_nat i\<rparr>) (rx_q h)\<rparr>))"

definition tx_pin :: "i32 \<Rightarrow> u32 option \<times> i32" where
  "tx_pin cpu_available = (if 0 \<le> cpu_available then Some cpu_available else None, cpu_available - 1)"

definition rx_pin :: "i32 \<Rightarrow> u32 option \<times> i32" where
  "rx_pin cpu_available = (if 0 \<le> sint cpu_available then Some cpu_available else None, cpu_available - 1)"

text \<open>
  The wait after an empty pop: a growing interval, then sleeps for as long as the size is 0.
\<close>

definition next_interval :: "Q \<Rightarrow> Q" where
  "next_interval q =
     (if SLOWSPIN * 4 \<le> tv_nsec (qts q) then q\<lparr>qts := (qts q)\<lparr>tv_nsec := SLOWSPIN\<rparr>\<rparr>
      else q\<lparr>qts := (qts q)\<lparr>tv_nsec := tv_nsec (qts q) + SLOWSPIN div 10\<rparr>\<rparr>)"

text \<open>
  One pass over a ring: the frame handed to \<^verbatim>\<open>sendto\<close>, if any, and whether to wait for data.
\<close>

definition tx_queue :: "Q \<Rightarrow> (pass \<times> u8 list option \<times> Q) may_loop" where
  "tx_queue q =
     (case pop q of
        None \<Rightarrow> None
      | Some (Inl e) \<Rightarrow> Some (Inl e)
      | Some (Inr (Slot j, q1)) \<Rightarrow>
          (let b = R q1 ! j; n = nat (blen b) + (ETH_HDRLEN + IP4_HDRLEN) in
           if blen b \<le> 14 then Some (Inr (Again, None, commit_pop j q1))
           else if length (pool q1) < ethernet_frame b + n then Some (Inl (Fault OutOfBounds))
           else Some (Inr (Again, Some (read_at (ethernet_frame b) n (pool q1)), commit_pop j q1)))
      | Some (Inr (NULL, q1)) \<Rightarrow>
          Some (Inr (if sz q1 = 0 then SizeWait else Again, None, next_interval q1))
      | Some (Inr (LOCKFAIL, q1)) \<Rightarrow> Some (Inr (Again, None, q1)))"

text \<open>One pass of worker \<open>w\<close>; \<open>ret\<close> is what \<^verbatim>\<open>sendto\<close> answers if it is called.\<close>

definition tx_iter :: "nat \<Rightarrow> int \<Rightarrow> txq \<Rightarrow> (pass \<times> u8 list option \<times> txq) may_loop" where
  "tx_iter w ret h =
     (if length (tx_q h) \<le> w then Some (Inl (Fault OutOfBounds))
      else case tx_queue (tx_q h ! w) of
        None \<Rightarrow> None
      | Some (Inl e) \<Rightarrow> Some (Inl e)
      | Some (Inr (p, f, q')) \<Rightarrow>
          (let h' = h\<lparr>tx_q := (tx_q h)[w := q']\<rparr>
           in Some (Inr (p, f, if f = None \<or> ret < 1 then h'
                else h'\<lparr>tx_packets_out := tx_packets_out h + 1,
                        tx_bytes_out := tx_bytes_out h + of_int ret\<rparr>))))"

section \<open>rx\_io\<close>

text \<open>One pass of the poll loop on slot \<open>j\<close>, and the flag \<open>nope\<close> that repeats it.\<close>

definition rx_io_poll :: "u32 \<Rightarrow> nat \<Rightarrow> poll_event \<Rightarrow> Q \<Rightarrow> (bool \<times> Q) res" where
  "rx_io_poll peer j ev q =
     (case (if pollin ev then read_into (ethernet_frame (R q ! j)) j (got ev) q else Inr q) of
        Inl e \<Rightarrow> Inl e
      | Inr q1 \<Rightarrow>
          if blen (R q1 ! j) < 1 then Inr (True, q1)
          else if length (pool q1) < ipheader (R q1 ! j) + 16 then Inl (Fault OutOfBounds)
          else Inr (read_at (ipheader (R q1 ! j) + 12) 4 (pool q1) \<noteq> bytes_of_u32 peer, q1))"

fun rx_io_fill :: "u32 \<Rightarrow> nat \<Rightarrow> poll_event list \<Rightarrow> Q \<Rightarrow> (Q \<times> poll_event list) may_loop" where
  "rx_io_fill peer j [] q = None"
| "rx_io_fill peer j (ev # evs) q =
     (case rx_io_poll peer j ev q of
        Inl e \<Rightarrow> Some (Inl e)
      | Inr (nope, q1) \<Rightarrow>
          if nope then rx_io_fill peer j evs q1
          else Some (Inr (set_blen j (blen (R q1 ! j) - int ETHIP4) q1, evs)))"

definition rx_io_queue :: "u32 \<Rightarrow> poll_event list \<Rightarrow> Q \<Rightarrow> (poll_event list \<times> Q) may_loop" where
  "rx_io_queue peer evs q =
     (case push q of
        None \<Rightarrow> None
      | Some (Inl e) \<Rightarrow> Some (Inl e)
      | Some (Inr (Slot j, q1)) \<Rightarrow>
          (case rx_io_fill peer j evs q1 of
             None \<Rightarrow> None
           | Some (Inl e) \<Rightarrow> Some (Inl e)
           | Some (Inr (q2, evs')) \<Rightarrow> Some (Inr (evs', commit_push j q2)))
      | Some (Inr (_, q1)) \<Rightarrow> Some (Inr (evs, q1)))"

text \<open>One pass of the thread's loop; \<open>i\<close> is advanced at its end.\<close>

definition rx_io_iter :: "u32 \<Rightarrow> poll_event list \<Rightarrow> rxq \<Rightarrow> (u32 \<times> poll_event list \<times> rxq) may_loop" where
  "rx_io_iter i evs h =
     (let k = unat i in
      if length (rx_q h) \<le> k then Some (Inl (Fault OutOfBounds))
      else case rx_io_queue (rx_peer_ip h) evs (rx_q h ! k) of
        None \<Rightarrow> None
      | Some (Inl e) \<Rightarrow> Some (Inl e)
      | Some (Inr (evs', q')) \<Rightarrow>
          Some (Inr (next_queue i (rx_qnum h), evs', h\<lparr>rx_q := (rx_q h)[k := q']\<rparr>)))"

section \<open>rx\<close>

text \<open>One pass over a ring: the bytes handed to \<^verbatim>\<open>write\<close>, if any.\<close>

definition rx_queue :: "Q \<Rightarrow> (pass \<times> u8 list option \<times> Q) may_loop" where
  "rx_queue q =
     (case pop q of
        None \<Rightarrow> None
      | Some (Inl e) \<Rightarrow> Some (Inl e)
      | Some (Inr (Slot j, q1)) \<Rightarrow>
          (let b = R q1 ! j; off = ethernet_frame b + (ETH_HDRLEN + IP4_HDRLEN) in
           if blen b \<le> 14 then Some (Inr (Again, None, commit_pop j q1))
           else if length (pool q1) < off + nat (blen b) then Some (Inl (Fault OutOfBounds))
           else Some (Inr (Again, Some (read_at off (nat (blen b)) (pool q1)), commit_pop j q1)))
      | Some (Inr (NULL, q1)) \<Rightarrow>
          Some (Inr (if sz q1 < 1 then SizeWait else Again, None, next_interval q1))
      | Some (Inr (LOCKFAIL, q1)) \<Rightarrow> Some (Inr (Again, None, q1)))"

text \<open>One pass of worker \<open>w\<close>; \<open>ret\<close> is what \<^verbatim>\<open>write\<close> answers if it is called.\<close>

definition rx_iter :: "nat \<Rightarrow> int \<Rightarrow> rxq \<Rightarrow> (pass \<times> u8 list option \<times> rxq) may_loop" where
  "rx_iter w ret h =
     (if length (rx_q h) \<le> w then Some (Inl (Fault OutOfBounds))
      else case rx_queue (rx_q h ! w) of
        None \<Rightarrow> None
      | Some (Inl e) \<Rightarrow> Some (Inl e)
      | Some (Inr (p, f, q')) \<Rightarrow>
          (let h' = h\<lparr>rx_q := (rx_q h)[w := q']\<rparr>
           in Some (Inr (p, f, if f = None \<or> ret < 1 then h'
                else h'\<lparr>rx_packets_out := rx_packets_out h + 1,
                        rx_bytes_out := rx_bytes_out h + of_int ret\<rparr>))))"

section \<open>Load balancing\<close>

text \<open>
  The scan over the queues from index \<open>i\<close> on, with the smallest size so far; each pass of
  the loop stores the index into \<open>qnow\<close>, so with fewer than two queues it is not written.
\<close>

fun lb_scan :: "nat \<Rightarrow> nat \<Rightarrow> u32 \<Rightarrow> int \<Rightarrow> Q list \<Rightarrow> int" where
  "lb_scan i lowest smallest qnow [] = qnow"
| "lb_scan i lowest smallest qnow (q # qs) =
     (if sz q < smallest then lb_scan (Suc i) i (sz q) (int i) qs
      else lb_scan (Suc i) lowest smallest (int lowest) qs)"

definition tx_lb_pass :: "txq \<Rightarrow> txq res" where
  "tx_lb_pass h =
     (case take (max 1 (nat (tx_qnum h))) (tx_q h) of
        [] \<Rightarrow> Inl (Fault OutOfBounds)
      | q # qs \<Rightarrow>
          if length (tx_q h) < nat (tx_qnum h) then Inl (Fault OutOfBounds)
          else Inr (h\<lparr>tx_qnow := lb_scan 1 0 (sz q) (tx_qnow h) qs\<rparr>))"

definition rx_lb_pass :: "rxq \<Rightarrow> rxq res" where
  "rx_lb_pass h =
     (case take (max 1 (nat (rx_qnum h))) (rx_q h) of
        [] \<Rightarrow> Inl (Fault OutOfBounds)
      | q # qs \<Rightarrow>
          if length (rx_q h) < nat (rx_qnum h) then Inl (Fault OutOfBounds)
          else Inr (h\<lparr>rx_qnow := lb_scan 1 0 (sz q) (rx_qnow h) qs\<rparr>))"

end
