(* ===== verification/Network.thy ===== *)
theory Network
  imports Config Workers
begin

unbundle bit_operations_syntax

text \<open>
  \<^verbatim>\<open>network.c\<close> below the sessions: requests to an interface, bringing it up, addresses, the
  tunnel device, ARP and the headers a session puts in front of every payload. The kernel is a
  record of functions that take and return its own state, so nothing is assumed of what it
  answers; \<^verbatim>\<open>die (0, ...)\<close>, which only prints, leaves no trace in the model.
\<close>

section \<open>Calls in sequence\<close>

definition and_then :: "'a may_loop \<Rightarrow> ('a \<Rightarrow> 'b may_loop) \<Rightarrow> 'b may_loop" where
  "and_then m f = (case m of None \<Rightarrow> None | Some (Inl e) \<Rightarrow> Some (Inl e) | Some (Inr a) \<Rightarrow> f a)"

abbreviation "done_with x \<equiv> Some (Inr x)"
abbreviation "die_1 \<equiv> Some (Inl (Exit 1))"

lemma and_then_simps [simp]:
  "and_then None f = None" "and_then (Some (Inl e)) f = Some (Inl e)" "and_then (done_with a) f = f a"
  by (simp_all add: and_then_def)

lemma and_then_done:
  "and_then m f = done_with b \<longleftrightarrow> (\<exists>a. m = done_with a \<and> f a = done_with b)"
  by (auto simp: and_then_def split: option.splits sum.splits)

section \<open>Addresses in print\<close>

text \<open>\<^verbatim>\<open>inet_ntoa\<close> and \<^verbatim>\<open>inet_pton\<close>: four decimal numbers without leading zeros, dots between.\<close>

definition digit_char :: "nat \<Rightarrow> char" where "digit_char n = char_of (48 + n)"

fun dec :: "nat \<Rightarrow> string" where
  "dec n = (if n < 10 then [digit_char n] else dec (n div 10) @ [digit_char (n mod 10)])"

declare dec.simps [simp del]

definition inet_ntoa :: "u8 list \<Rightarrow> string" where
  "inet_ntoa a = dec (unat (a ! 0)) @ ''.'' @ dec (unat (a ! 1)) @ ''.'' @ dec (unat (a ! 2)) @ ''.'' @
     dec (unat (a ! 3))"

text \<open>The number being read, none before its first digit, and the ones before it.\<close>

fun pton :: "int option \<Rightarrow> int list \<Rightarrow> string \<Rightarrow> u8 list option" where
  "pton None acc [] = None"
| "pton (Some n) acc [] = (if length acc = 3 then Some (map of_int (acc @ [n])) else None)"
| "pton cur acc (c # cs) =
     (case digit c of
        Some d \<Rightarrow>
          (case cur of
             None \<Rightarrow> pton (Some d) acc cs
           | Some n \<Rightarrow> if n = 0 \<or> 255 < 10 * n + d then None else pton (Some (10 * n + d)) acc cs)
      | None \<Rightarrow>
          (case cur of
             None \<Rightarrow> None
           | Some n \<Rightarrow> if c \<noteq> CHR ''.'' \<or> length acc = 3 then None else pton None (acc @ [n]) cs))"

definition inet_pton :: "string \<Rightarrow> u8 list option" where
  "inet_pton s = pton None [] s"

lemma digit_digit_char [simp]: "n < 10 \<Longrightarrow> digit (digit_char n) = Some (int n)"
proof -
  have "list_all (\<lambda>n. digit (digit_char n) = Some (int n)) [0..<10]" by code_simp
  then show "n < 10 \<Longrightarrow> digit (digit_char n) = Some (int n)" by (simp add: list_all_iff del: upt_Suc upt_rec_numeral)
qed

lemma digit_dot [simp]: "digit CHR ''.'' = None"
  by code_simp

lemma pton_more:
  "n < 10 \<Longrightarrow> m \<noteq> 0 \<Longrightarrow> 10 * m + int n < 256 \<Longrightarrow>
    pton (Some m) acc (digit_char n # cs) = pton (Some (10 * m + int n)) acc cs"
  by simp

lemma pton_digit: "n < 10 \<Longrightarrow> pton None acc (digit_char n # cs) = pton (Some (int n)) acc cs"
  by simp

lemma split_10: "10 * int (n div 10) + int (n mod 10) = int n"
  using mult_div_mod_eq [of 10 n] by linarith

lemma pton_dec:
  assumes "n < 256"
  shows "pton None acc (dec n @ cs) = pton (Some (int n)) acc cs"
proof -
  define m where "m = n div 10"
  define h where "h = m div 10"
  have bound: "m < 100" "h < 10" "m mod 10 < 10" "n mod 10 < 10" using assms by (simp_all add: m_def h_def)
  have split: "10 * int m + int (n mod 10) = int n" "10 * int h + int (m mod 10) = int m"
    using split_10 [of n] split_10 [of m] by (simp_all add: m_def h_def)
  consider "n < 10" | "10 \<le> n" "m < 10" | "10 \<le> n" "10 \<le> m" by linarith
  then show ?thesis
  proof cases
    case 1
    then show ?thesis by (simp add: dec.simps [of n])
  next
    case 2
    then have "dec n = [digit_char m, digit_char (n mod 10)]"
      by (simp add: dec.simps [of n] m_def [symmetric] dec.simps [of m])
    moreover have "m \<noteq> 0" using 2(1) by (simp add: m_def div_eq_0_iff)
    ultimately show ?thesis
      using pton_more [OF bound(4), of "int m" acc cs] assms split(1) 2(2) by (simp del: pton.simps(3) add: pton_digit)
  next
    case 3
    then have "dec n = [digit_char h, digit_char (m mod 10), digit_char (n mod 10)]"
      using bound by (simp add: dec.simps [of n] m_def [symmetric] dec.simps [of m] h_def [symmetric] dec.simps [of h])
    moreover have "h \<noteq> 0" "m \<noteq> 0" using 3 by (simp_all add: h_def m_def div_eq_0_iff)
    moreover have "int m < 256" using bound(1) by simp
    ultimately show ?thesis
      using pton_more [OF bound(3), of "int h" acc "digit_char (n mod 10) # cs"] bound(2)
        pton_more [OF bound(4), of "int m" acc cs] assms split by (simp del: pton.simps(3) add: pton_digit)
  qed
qed

lemma inet_pton_ntoa:
  assumes "length a = 4"
  shows "inet_pton (inet_ntoa a) = Some a"
proof -
  obtain p q r s where a: "a = [p, q, r, s]" using assms by (auto simp: numeral_eq_Suc length_Suc_conv)
  have u: "unat x < 256" for x :: u8 using unsigned_less [of x] by simp
  have "inet_pton (inet_ntoa a) = Some (map (\<lambda>x. of_int (int (unat x))) a)"
    by (simp add: inet_pton_def inet_ntoa_def a pton_dec [OF u] pton_dec [OF u, of _ _ "[]", simplified])
  then show ?thesis by (simp add: a)
qed

section \<open>Interface requests\<close>

text \<open>
  \<^verbatim>\<open>struct ifreq\<close>: the interface's name, as the C string in it, and the 24 bytes of the union
  that all answers share.
\<close>

record ifreq =
  ifr_name :: string
  ifr_ifru :: "u8 list"

definition u32_of_bytes :: "u8 list \<Rightarrow> u32" where
  "u32_of_bytes bs = ucast (bs ! 0) OR push_bit 8 (ucast (bs ! 1)) OR push_bit 16 (ucast (bs ! 2)) OR
     push_bit 24 (ucast (bs ! 3))"

text \<open>The members of the union: an \<^verbatim>\<open>int\<close>, the flags, and the data of a socket address.\<close>

definition ifr_ivalue :: "ifreq \<Rightarrow> int" where "ifr_ivalue r = sint (u32_of_bytes (ifr_ifru r))"
definition ifr_up :: "ifreq \<Rightarrow> bool" where "ifr_up r \<longleftrightarrow> bit (ifr_ifru r ! 0) 0"
definition ifr_hwaddr :: "ifreq \<Rightarrow> u8 list" where "ifr_hwaddr r = read_at 2 6 (ifr_ifru r)"
definition ifr_inaddr :: "ifreq \<Rightarrow> u8 list" where "ifr_inaddr r = read_at 4 4 (ifr_ifru r)"

definition put_bytes :: "nat \<Rightarrow> u8 list \<Rightarrow> ifreq \<Rightarrow> ifreq" where
  "put_bytes off bs r = r\<lparr>ifr_ifru := take off (ifr_ifru r) @ bs @ drop (off + length bs) (ifr_ifru r)\<rparr>"

text \<open>The name is stored when it fits with its NUL; otherwise the old one stays.\<close>

definition put_name :: "string \<Rightarrow> ifreq \<Rightarrow> ifreq" where
  "put_name n r = (if length n < IFNAMSIZ then r\<lparr>ifr_name := n\<rparr> else r)"

datatype request = SIOCGIFINDEX | SIOCGIFHWADDR | SIOCGIFMTU | SIOCGIFADDR | SIOCGIFFLAGS | SIOCSIFFLAGS
  | SIOCSIFADDR | SIOCSIFMTU | TUNSETIFF | TUNSETQUEUE

text \<open>What \<^verbatim>\<open>recv\<close> gives: a frame, an interruption by a signal, another error, or nothing ever.\<close>

datatype received = Frame "u8 list" | Interrupted | Failed | Blocked

text \<open>
  The kernel and the resolver, over a state \<open>'w\<close> of their own. A socket is asked for by its
  domain and type, and failure is -1; an \<^verbatim>\<open>ioctl\<close> that fails gives no answer; \<open>lookup\<close> is
  \<^verbatim>\<open>getaddrinfo\<close> with the address bytes of the first result.
\<close>

record 'w kernel =
  k_socket :: "int \<Rightarrow> int \<Rightarrow> 'w \<Rightarrow> int \<times> 'w"
  k_ioctl :: "int \<Rightarrow> request \<Rightarrow> ifreq \<Rightarrow> 'w \<Rightarrow> ifreq option \<times> 'w"
  k_open :: "string \<Rightarrow> 'w \<Rightarrow> int \<times> 'w"
  k_close :: "int \<Rightarrow> 'w \<Rightarrow> 'w"
  k_bind :: "int \<Rightarrow> sockaddr_ll \<Rightarrow> 'w \<Rightarrow> 'w"
  k_sendto :: "int \<Rightarrow> sockaddr_ll \<Rightarrow> u8 list \<Rightarrow> 'w \<Rightarrow> int \<times> 'w"
  k_recv :: "int \<Rightarrow> 'w \<Rightarrow> received \<times> 'w"
  k_time :: "'w \<Rightarrow> int \<times> 'w"
  k_lookup :: "string \<Rightarrow> 'w \<Rightarrow> u8 list option \<times> 'w"

definition AF_UNIX :: int where "AF_UNIX = 1"
definition AF_INET :: int where "AF_INET = 2"
definition AF_PACKET :: int where "AF_PACKET = 17"
definition SOCK_DGRAM :: int where "SOCK_DGRAM = 2"
definition SOCK_RAW :: int where "SOCK_RAW = 3"

datatype query = IFINDEX | IFMTU | IFMAC | IFADDR

fun query_request :: "query \<Rightarrow> request" where
  "query_request IFINDEX = SIOCGIFINDEX"
| "query_request IFMTU = SIOCGIFMTU"
| "query_request IFMAC = SIOCGIFHWADDR"
| "query_request IFADDR = SIOCGIFADDR"

text \<open>One query; whatever fails leaves the structure as it was.\<close>

definition get_interface :: "'w kernel \<Rightarrow> string \<Rightarrow> query \<Rightarrow> ifreq \<Rightarrow> 'w \<Rightarrow> ifreq \<times> 'w" where
  "get_interface k if_name d ifr w =
     (let ifr1 = put_name if_name ifr; (fd, w1) = k_socket k AF_INET SOCK_DGRAM w in
      if fd = - 1 then (ifr1, w1)
      else (let (answer, w2) = k_ioctl k fd (query_request d) ifr1 w1
            in (case answer of None \<Rightarrow> ifr1 | Some ifr2 \<Rightarrow> ifr2, k_close k fd w2)))"

text \<open>Bring an interface up. The socket is not closed, and only the last step can give 1.\<close>

definition ifup :: "'w kernel \<Rightarrow> string \<Rightarrow> ifreq \<Rightarrow> 'w \<Rightarrow> int \<times> 'w" where
  "ifup k if_name ifr w =
     (let (fd, w1) = k_socket k AF_UNIX SOCK_DGRAM w;
          (answer, w2) = k_ioctl k fd SIOCGIFFLAGS (put_name if_name ifr) w1
      in case answer of
           None \<Rightarrow> (0, w2)
         | Some ifr1 \<Rightarrow>
             if ifr_up ifr1 then (0, w2)
             else (let (set, w3) = k_ioctl k fd SIOCSIFFLAGS (put_bytes 0 [ifr_ifru ifr1 ! 0 OR 1] ifr1) w2
                   in (if set = None then 1 else 0, w3)))"

definition set_ip :: "'w kernel \<Rightarrow> string \<Rightarrow> u32 \<Rightarrow> ifreq \<Rightarrow> 'w \<Rightarrow> 'w may_loop" where
  "set_ip k if_name ip ifr w =
     (if IFNAMSIZ \<le> length if_name then die_1
      else let (fd, w1) = k_socket k AF_INET SOCK_DGRAM w in
        if fd = - 1 then die_1
        else let ifr1 = put_bytes 4 (bytes_of_u32 ip) (put_bytes 0 (bytes_of_u16 2) (put_name if_name ifr));
                 (answer, w2) = k_ioctl k fd SIOCSIFADDR ifr1 w1
             in if answer = None then die_1 else done_with w2)"

definition set_mtu :: "'w kernel \<Rightarrow> string \<Rightarrow> int \<Rightarrow> ifreq \<Rightarrow> 'w \<Rightarrow> 'w may_loop" where
  "set_mtu k if_name mtu ifr w =
     (if IFNAMSIZ \<le> length if_name then die_1
      else let (fd, w1) = k_socket k AF_INET SOCK_DGRAM w in
        if fd = - 1 then die_1
        else let (answer, w2) = k_ioctl k fd SIOCSIFMTU (put_bytes 0 (bytes_of_u32 (of_int mtu)) (put_name if_name ifr)) w1
             in if answer = None then die_1 else done_with w2)"

text \<open>The raw socket of a session; what \<^verbatim>\<open>bind\<close> answers is ignored.\<close>

definition init_af_packet :: "'w kernel \<Rightarrow> string \<Rightarrow> sockaddr_ll \<Rightarrow> ifreq \<Rightarrow> 'w \<Rightarrow> (int \<times> 'w) may_loop" where
  "init_af_packet k ifname sll ifr w =
     (let (ifr1, w1) = get_interface k ifname IFINDEX ifr w in
      if ifr_ivalue ifr1 < 1 then die_1
      else let (fd, w2) = k_socket k AF_PACKET SOCK_RAW w1 in
        if fd < 1 then die_1 else done_with (fd, k_bind k fd sll w2))"

text \<open>
  The tunnel device: \<open>flags\<close> is the value for \<open>ifr_flags\<close>, the rest of the structure is zero.
  The file stays open when a later step fails.
\<close>

definition tuntap :: "'w kernel \<Rightarrow> string \<Rightarrow> u16 \<Rightarrow> 'w \<Rightarrow> int \<times> 'w" where
  "tuntap k dev flags w =
     (let (fd, w1) = k_open k ''/dev/net/tun'' w in
      if fd < 0 then (- 1, w1)
      else if length dev < 3 \<or> IFNAMSIZ < length dev then (- 1, w1)
      else let (answer, w2) = k_ioctl k fd TUNSETIFF \<lparr>ifr_name = dev, ifr_ifru = bytes_of_u16 flags @ replicate 22 0\<rparr> w1
           in (if answer = None then - 1 else fd, w2))"

text \<open>\<^verbatim>\<open>IFF_TAP | IFF_NO_PI | IFF_MULTI_QUEUE\<close>\<close>

definition TAP_FLAGS :: u16 where "TAP_FLAGS = 0x1102"

text \<open>A traffic thread attaches to its queue of the device, or detaches from it.\<close>

definition tun_set_queue :: "'w kernel \<Rightarrow> int \<Rightarrow> int \<Rightarrow> 'w \<Rightarrow> int \<times> 'w" where
  "tun_set_queue k fd enable w =
     (let flags = (if enable \<noteq> 0 then 0x0200 else 0x0400);
          (answer, w1) = k_ioctl k fd TUNSETQUEUE \<lparr>ifr_name = [], ifr_ifru = bytes_of_u16 flags @ replicate 22 0\<rparr> w
      in (if answer = None then - 1 else 0, w1))"

text \<open>A name's address in network order, read as a number; 0 when it has none.\<close>

definition host_to_ip :: "'w kernel \<Rightarrow> string \<Rightarrow> 'w \<Rightarrow> u32 \<times> 'w" where
  "host_to_ip k host w =
     (let (a, w1) = k_lookup k host w in (case a of None \<Rightarrow> 0 | Some bs \<Rightarrow> u32_of_bytes bs, w1))"

section \<open>ARP\<close>

definition ARP_HDRLEN :: nat where "ARP_HDRLEN = 28"
definition ARP_TIMEOUT :: int where "ARP_TIMEOUT = 5"
definition IP_MAXPACKET :: nat where "IP_MAXPACKET = 65535"

text \<open>The request as it is sent: broadcast, from \<open>src_mac\<close>, asking who has \<open>target_ip\<close>.\<close>

definition arp_frame :: "u8 list \<Rightarrow> u8 list \<Rightarrow> u8 list \<Rightarrow> u8 list" where
  "arp_frame src_mac sender_ip target_ip =
     replicate 6 0xff @ src_mac @ [0x08, 0x06] @
     [0, 1] @ [0x08, 0] @ [6] @ [4] @ [0, 1] @ src_mac @ sender_ip @ replicate 6 0 @ target_ip"

text \<open>The members of the ARP header in the frame buffer.\<close>

definition arp_sender_mac :: "u8 list \<Rightarrow> u8 list" where "arp_sender_mac held = read_at (ETH_HDRLEN + 8) 6 held"
definition arp_sender_ip :: "u8 list \<Rightarrow> u8 list" where "arp_sender_ip held = read_at (ETH_HDRLEN + 14) 4 held"
definition arp_target_ip :: "u8 list \<Rightarrow> u8 list" where "arp_target_ip held = read_at (ETH_HDRLEN + 24) 4 held"

text \<open>
  The loop that waits for the answer: the buffer that held it, or \<open>None\<close> after the time-out or
  an error. Any frame with the right four bytes ends it; what was received before stays in the
  buffer behind a shorter frame.
\<close>

partial_function (option) arp_wait ::
  "'w kernel \<Rightarrow> int \<Rightarrow> u8 list \<Rightarrow> int \<Rightarrow> u8 list \<Rightarrow> 'w \<Rightarrow> (u8 list option \<times> 'w) option" where
  "arp_wait k fd asking clk held w =
     (if arp_sender_ip held = asking then Some (Some held, w)
      else case k_recv k fd w of
        (Blocked, w1) \<Rightarrow> None
      | (Interrupted, w1) \<Rightarrow> arp_wait k fd asking clk (replicate IP_MAXPACKET 0) w1
      | (Failed, w1) \<Rightarrow> Some (None, w1)
      | (Frame bs, w1) \<Rightarrow>
          (case k_time k w1 of
             (t, w2) \<Rightarrow>
               if ARP_TIMEOUT < t - clk then Some (None, w2)
               else arp_wait k fd asking clk (take IP_MAXPACKET bs @ drop (length bs) held) w2))"

text \<open>
  A whole request: the return value, and the address stored into \<open>result\<close>, if any. \<open>junk\<close> is
  what the frame buffer holds, \<open>addr\<close> the uninitialised rest of the address.
\<close>

definition arp_request ::
  "'w kernel \<Rightarrow> int \<Rightarrow> u8 list \<Rightarrow> string \<Rightarrow> string \<Rightarrow> int \<Rightarrow> u8 list \<Rightarrow> 'w \<Rightarrow> (int \<times> u8 list option \<times> 'w) may_loop" where
  "arp_request k ifindex src_mac src_ip dst_ip fd junk w =
     (let (target, w1) = k_lookup k dst_ip w in
      case (target, inet_pton src_ip) of
        (Some tip, Some sip) \<Rightarrow>
          (let addr = \<lparr>sll_family = of_int AF_PACKET, sll_protocol = 0x0300, sll_ifindex = ifindex, sll_halen = 6,
                       sll_addr = src_mac\<rparr>;
               frame = arp_frame src_mac sip tip;
               held = frame @ drop (ETH_HDRLEN + ARP_HDRLEN) junk;
               (sent, w2) = k_sendto k fd addr frame w1
           in if sent = - 1 then done_with (0, None, w2)
              else (let (clk, w3) = k_time k w2 in
                    case arp_wait k fd (arp_target_ip held) clk held w3 of
                      None \<Rightarrow> None
                    | Some (None, w4) \<Rightarrow> done_with (- 1, None, w4)
                    | Some (Some answer, w4) \<Rightarrow> done_with (0, Some (arp_sender_mac answer), w4)))
      | _ \<Rightarrow> die_1)"

section \<open>The headers of a session\<close>

text \<open>
  The Ethernet and IP headers put in front of every payload. What \<^verbatim>\<open>arp_request\<close> returns is
  ignored. The type of service is \<^verbatim>\<open>htons (16)\<close> cut to 8 bits, the total length 1500 in host
  byte order, the protocol 1.
\<close>

definition fill_headers ::
  "'w kernel \<Rightarrow> peer_context \<Rightarrow> int \<Rightarrow> ifreq \<Rightarrow> u8 list \<Rightarrow> 'w \<Rightarrow> (headers \<times> 'w) may_loop" where
  "fill_headers k pcx fd ifr junk w =
     (let n = field ifname_off pcx;
          (ifr1, w1) = get_interface k n IFMAC ifr w;
          src = ifr_hwaddr ifr1;
          (ifr2, w2) = get_interface k n IFINDEX ifr1 w1;
          (ifr3, w3) = get_interface k n IFADDR ifr2 w2
      in and_then
           (arp_request k (ifr_ivalue ifr2) src (inet_ntoa (ifr_inaddr ifr3)) (field next_hop_off pcx) fd junk w3)
           (\<lambda>(_, mac, w4). done_with
              (\<lparr>eh = (case mac of None \<Rightarrow> replicate 6 0 | Some m \<Rightarrow> m) @ src @ [0x08, 0x00],
                iph = [0x45, ucast (0x1000 :: u16)] @ bytes_of_u16 1500 @ [0, 0, 0, 0] @ [255, 1, 0, 0] @
                  bytes_of_u32 (myip pcx) @ bytes_of_u32 (peerip pcx)\<rparr>, w4)))"

section \<open>What the waiting loop hears\<close>

text \<open>The events that \<^verbatim>\<open>recv\<close> gives from \<open>w\<close> on, each frame with the time read after it.\<close>

fun hears :: "'w kernel \<Rightarrow> int \<Rightarrow> (received \<times> int) list \<Rightarrow> 'w \<Rightarrow> bool" where
  "hears k fd [] w \<longleftrightarrow> True"
| "hears k fd ((r, t) # es) w \<longleftrightarrow>
     (case k_recv k fd w of (r', w1) \<Rightarrow> r' = r \<and>
        (case r of
           Frame bs \<Rightarrow> (case k_time k w1 of (t', w2) \<Rightarrow> t' = t \<and> hears k fd es w2)
         | _ \<Rightarrow> hears k fd es w1))"

text \<open>An event that keeps the loop waiting for \<open>ip\<close>: in time, and from someone else.\<close>

fun ignored :: "u8 list \<Rightarrow> int \<Rightarrow> received \<times> int \<Rightarrow> bool" where
  "ignored ip clk (Frame bs, t) \<longleftrightarrow> 32 \<le> length bs \<and> arp_sender_ip bs \<noteq> ip \<and> t - clk \<le> ARP_TIMEOUT"
| "ignored ip clk (Interrupted, t) \<longleftrightarrow> ip \<noteq> [0, 0, 0, 0]"
| "ignored ip clk _ \<longleftrightarrow> False"

lemma received_bytes:
  "32 \<le> length bs \<Longrightarrow> arp_sender_ip (take IP_MAXPACKET bs @ rest) = arp_sender_ip bs"
  "32 \<le> length bs \<Longrightarrow> arp_sender_mac (take IP_MAXPACKET bs @ rest) = arp_sender_mac bs"
  by (auto simp: arp_sender_ip_def arp_sender_mac_def read_at_def IP_MAXPACKET_def ETH_HDRLEN_def
      drop_take min_def)

lemma zero_sender: "arp_sender_ip (replicate IP_MAXPACKET 0) = [0, 0, 0, 0]"
proof -
  have "arp_sender_ip (replicate IP_MAXPACKET 0) = replicate 4 0"
    by (simp add: arp_sender_ip_def read_at_def IP_MAXPACKET_def ETH_HDRLEN_def)
  then show ?thesis by (simp add: numeral_eq_Suc)
qed

lemma arp_wait_unfold:
  "arp_sender_ip held \<noteq> asking \<Longrightarrow> arp_wait k fd asking clk held w =
    (case k_recv k fd w of
        (Blocked, w1) \<Rightarrow> None
      | (Interrupted, w1) \<Rightarrow> arp_wait k fd asking clk (replicate IP_MAXPACKET 0) w1
      | (Failed, w1) \<Rightarrow> Some (None, w1)
      | (Frame bs, w1) \<Rightarrow>
          (case k_time k w1 of
             (t, w2) \<Rightarrow>
               if ARP_TIMEOUT < t - clk then Some (None, w2)
               else arp_wait k fd asking clk (take IP_MAXPACKET bs @ drop (length bs) held) w2))"
  by (subst arp_wait.simps) simp

lemma arp_wait_skips:
  assumes "arp_sender_ip held \<noteq> ip" and "\<forall>e \<in> set es. ignored ip clk e" and "hears k fd (es @ rest) w"
  shows "\<exists>held' w'. arp_wait k fd ip clk held w = arp_wait k fd ip clk held' w' \<and>
    arp_sender_ip held' \<noteq> ip \<and> hears k fd rest w'"
  using assms
proof (induction es arbitrary: held w)
  case (Cons e es)
  obtain r t where e: "e = (r, t)" by (cases e)
  obtain w1 where w1: "k_recv k fd w = (r, w1)" using Cons.prems(3) e by (auto split: prod.splits)
  have more: "\<forall>e \<in> set es. ignored ip clk e" and ig: "ignored ip clk (r, t)" using Cons.prems(2) e by simp_all
  show ?case
  proof (cases r)
    case (Frame bs)
    obtain w2 where w2: "k_time k w1 = (t, w2)" "hears k fd (es @ rest) w2"
      using Cons.prems(3) e w1 Frame by (auto split: prod.splits)
    have "32 \<le> length bs" "arp_sender_ip bs \<noteq> ip" "\<not> ARP_TIMEOUT < t - clk" using ig Frame by auto
    then have "arp_wait k fd ip clk held w = arp_wait k fd ip clk (take IP_MAXPACKET bs @ drop (length bs) held) w2"
      "arp_sender_ip (take IP_MAXPACKET bs @ drop (length bs) held) \<noteq> ip"
      using w1 w2(1) Frame by (simp_all add: received_bytes arp_wait_unfold [OF Cons.prems(1), of k fd clk w])
    with Cons.IH [OF _ more w2(2)] show ?thesis by auto
  next
    case Interrupted
    then have "arp_wait k fd ip clk held w = arp_wait k fd ip clk (replicate IP_MAXPACKET 0) w1"
      "arp_sender_ip (replicate IP_MAXPACKET 0) \<noteq> ip" "hears k fd (es @ rest) w1"
      using w1 ig Cons.prems(3) e by (auto simp: zero_sender arp_wait_unfold [OF Cons.prems(1), of k fd clk w])
    with Cons.IH [OF _ more] show ?thesis by auto
  qed (use ig in simp_all)
qed auto

lemma arp_frame_parts:
  assumes "length mac = 6" and "length sip = 4" and "length tip = 4"
  shows "arp_sender_ip (arp_frame mac sip tip @ rest) = sip" "arp_target_ip (arp_frame mac sip tip @ rest) = tip"
    "arp_sender_mac (arp_frame mac sip tip @ rest) = mac" "length (arp_frame mac sip tip) = 42"
  using assms by (auto simp: arp_sender_ip_def arp_target_ip_def arp_sender_mac_def read_at_def arp_frame_def
      ETH_HDRLEN_def numeral_eq_Suc length_Suc_conv)

text \<open>A request that has been sent: what the loop makes of it.\<close>

definition asks :: "'w kernel \<Rightarrow> u8 list \<Rightarrow> u8 list \<Rightarrow> string \<Rightarrow> u8 list \<Rightarrow> int \<Rightarrow> int \<Rightarrow> 'w \<Rightarrow> int \<Rightarrow> 'w \<Rightarrow> bool" where
  "asks k mac sip dst tip ifindex fd w clk w' \<longleftrightarrow> length mac = 6 \<and> length sip = 4 \<and> length tip = 4 \<and>
     (\<exists>w1 w2 n. k_lookup k dst w = (Some tip, w1) \<and> n \<noteq> - 1 \<and>
       k_sendto k fd \<lparr>sll_family = 17, sll_protocol = 0x0300, sll_ifindex = ifindex, sll_halen = 6, sll_addr = mac\<rparr>
         (arp_frame mac sip tip) w1 = (n, w2) \<and> k_time k w2 = (clk, w'))"

lemma arp_request_waits:
  assumes "asks k mac sip dst tip ifindex fd w clk w'"
  shows "arp_request k ifindex mac (inet_ntoa sip) dst fd junk w =
    (case arp_wait k fd tip clk (arp_frame mac sip tip @ drop 42 junk) w' of
       None \<Rightarrow> None
     | Some (None, w4) \<Rightarrow> done_with (- 1, None, w4)
     | Some (Some answer, w4) \<Rightarrow> done_with (0, Some (arp_sender_mac answer), w4))"
  using assms
  by (auto simp: asks_def arp_request_def inet_pton_ntoa arp_frame_parts AF_PACKET_def ETH_HDRLEN_def
      ARP_HDRLEN_def Let_def)

section \<open>The shape of the headers\<close>

text \<open>
  What the kernel's answers look like: an interface query gives the whole union, a lookup an
  IPv4 address.
\<close>

definition kernel_ok :: "'w kernel \<Rightarrow> bool" where
  "kernel_ok k \<longleftrightarrow>
     (\<forall>fd r x w x' w'. k_ioctl k fd r x w = (Some x', w') \<longrightarrow> length (ifr_ifru x') = 24) \<and>
     (\<forall>n w a w'. k_lookup k n w = (Some a, w') \<longrightarrow> length a = 4)"

lemma put_name_ifru [simp]: "ifr_ifru (put_name n r) = ifr_ifru r"
  by (simp add: put_name_def)

lemma get_interface_24:
  assumes "kernel_ok k" and "length (ifr_ifru ifr) = 24"
  shows "length (ifr_ifru (fst (get_interface k n d ifr w))) = 24"
  using assms by (auto simp: get_interface_def kernel_ok_def Let_def split: prod.split option.split)

lemma ifr_hwaddr_6: "length (ifr_ifru r) = 24 \<Longrightarrow> length (ifr_hwaddr r) = 6"
  by (simp add: ifr_hwaddr_def)

lemma arp_wait_length:
  "arp_wait k fd asking clk held w = Some r \<Longrightarrow> 28 \<le> length held \<longrightarrow> (\<forall>h. fst r = Some h \<longrightarrow> 28 \<le> length h)"
proof (induction rule: arp_wait.raw_induct [rotated, consumes 1])
  case (1 arp_wait k fd asking clk held w r)
  show ?case
  proof (cases "arp_sender_ip held = asking")
    case True
    with 1(2) show ?thesis by auto
  next
    case False
    obtain e w1 where e: "k_recv k fd w = (e, w1)" by (cases "k_recv k fd w")
    show ?thesis
    proof (cases e)
      case (Frame bs)
      obtain t w2 where t: "k_time k w1 = (t, w2)" by (cases "k_time k w1")
      show ?thesis
      proof (cases "ARP_TIMEOUT < t - clk")
        case True
        with 1(2) False e Frame t show ?thesis by auto
      next
        case in_time: False
        have "28 \<le> length held \<longrightarrow> 28 \<le> length (take IP_MAXPACKET bs @ drop (length bs) held)"
          by (auto simp: IP_MAXPACKET_def)
        with 1 False e Frame t in_time show ?thesis by auto
      qed
    next
      case Interrupted
      have "28 \<le> length (replicate IP_MAXPACKET (0 :: u8))" by (simp add: IP_MAXPACKET_def)
      with 1 False e Interrupted show ?thesis by auto
    qed (use 1(2) False e in auto)
  qed
qed

lemma arp_request_mac:
  assumes "kernel_ok k" and "length mac = 6"
    and "arp_request k ifindex mac src_ip dst fd junk w = done_with (r, Some m, w')"
  shows "length m = 6"
proof -
  obtain tip w1 sip where q: "k_lookup k dst w = (Some tip, w1)" "inet_pton src_ip = Some sip"
    using assms(3) by (auto simp: arp_request_def Let_def split: prod.splits option.splits)
  have "28 \<le> length (arp_frame mac sip tip @ drop (ETH_HDRLEN + ARP_HDRLEN) junk)"
    using assms(2) by (simp add: arp_frame_def)
  with assms(3) q show ?thesis
    by (auto simp: arp_request_def Let_def arp_sender_mac_def ETH_HDRLEN_def split: prod.splits option.splits if_splits
        dest!: arp_wait_length)
qed

lemma fill_headers_shape:
  assumes "kernel_ok k" and "length (ifr_ifru ifr) = 24" and "fill_headers k pcx fd ifr junk w = done_with (hdr, w')"
  shows "headers_ok hdr \<and> drop 12 (eh hdr) = [8, 0] \<and>
    iph hdr = [0x45, 0, 0xdc, 5, 0, 0, 0, 0, 255, 1, 0, 0] @ bytes_of_u32 (myip pcx) @ bytes_of_u32 (peerip pcx)"
proof -
  obtain ifr1 w1 where q1: "get_interface k (field ifname_off pcx) IFMAC ifr w = (ifr1, w1)"
    by (cases "get_interface k (field ifname_off pcx) IFMAC ifr w")
  then have src: "length (ifr_hwaddr ifr1) = 6"
    using get_interface_24 [OF assms(1,2), of "field ifname_off pcx" IFMAC w] by (simp add: ifr_hwaddr_6)
  have vals: "(4096 :: u8) = 0" "bytes_of_u16 1500 = [0xdc, 5]" by code_simp+
  from assms(3) q1 obtain r mac w4 where m: "(\<exists>i s d w3. arp_request k i (ifr_hwaddr ifr1) s d fd junk w3 = done_with (r, mac, w4))"
    "hdr = \<lparr>eh = (case mac of None \<Rightarrow> replicate 6 0 | Some m \<Rightarrow> m) @ ifr_hwaddr ifr1 @ [0x08, 0x00],
            iph = [0x45, 0] @ [0xdc, 5] @ [0, 0, 0, 0] @ [255, 1, 0, 0] @ bytes_of_u32 (myip pcx) @ bytes_of_u32 (peerip pcx)\<rparr>"
    by (auto simp: fill_headers_def Let_def and_then_done vals split: prod.splits; blast)
  have "length (case mac of None \<Rightarrow> replicate 6 (0 :: u8) | Some m \<Rightarrow> m) = 6"
    using m(1) arp_request_mac [OF assms(1) src] by (auto split: option.split)
  with src show ?thesis by (simp add: m(2) headers_ok_def)
qed

section \<open>Properties\<close>


text \<open>A scripted kernel: its state is the list of what is heard, with the times.\<close>

fun sample_answer :: "request \<Rightarrow> u8 list" where
  "sample_answer SIOCGIFINDEX = [2, 0, 0, 0] @ replicate 20 0"
| "sample_answer SIOCGIFMTU = [220, 5, 0, 0] @ replicate 20 0"
| "sample_answer SIOCGIFHWADDR = [1, 0, 2, 0, 0, 0, 0, 7] @ replicate 16 0"
| "sample_answer SIOCGIFADDR = [2, 0, 0, 0, 10, 0, 0, 1] @ replicate 16 0"
| "sample_answer _ = replicate 24 0"

lemma sample_answer_length [simp]: "length (sample_answer r) = 24"
  by (cases r) simp_all

definition sample_kernel :: "(received \<times> int) list kernel" where
  "sample_kernel =
     \<lparr>k_socket = (\<lambda>_ _ w. (3, w)), k_ioctl = (\<lambda>_ r x w. (Some (x\<lparr>ifr_ifru := sample_answer r\<rparr>), w)),
      k_open = (\<lambda>_ w. (4, w)), k_close = (\<lambda>_ w. w), k_bind = (\<lambda>_ _ w. w),
      k_sendto = (\<lambda>_ _ bs w. (int (length bs), w)),
      k_recv = (\<lambda>_ w. case w of [] \<Rightarrow> (Blocked, []) | (Frame bs, t) # es \<Rightarrow> (Frame bs, (Failed, t) # es)
         | (r, t) # es \<Rightarrow> (r, es)),
      k_time = (\<lambda>w. case w of [] \<Rightarrow> (0, []) | (_, t) # es \<Rightarrow> (t, es)),
      k_lookup = (\<lambda>_ w. (Some [10, 0, 0, 2], w))\<rparr>"

definition sample_mac :: "u8 list" where "sample_mac = [2, 0, 0, 0, 0, 7]"

text \<open>An ARP reply of 10.0.0.9, and an answer of 10.0.0.2 that is not an ARP frame at all.\<close>

definition sample_reply :: "u8 list" where
  "sample_reply = replicate 22 0 @ [2, 0, 0, 0, 0, 8] @ [10, 0, 0, 2]"

definition sample_events :: "(received \<times> int) list" where
  "sample_events =
     [(Frame (arp_frame [2, 0, 0, 0, 0, 9] [10, 0, 0, 9] [10, 0, 0, 1]), 101), (Interrupted, 0),
      (Frame sample_reply, 102)]"




end
