(* ===== verification/Traffic.thy ===== *)
theory Traffic
  imports Workers
begin

text \<open>
  What the traffic threads do with a ring, from one payload to whole schedules. The invariant
  \<open>quiet\<close> describes a ring between passes on the current lap of its array; a producer pass and a
  consumer pass are then one enqueue and one dequeue of a list.
\<close>

section \<open>Memory outside a region\<close>

definition untouched :: "nat \<Rightarrow> nat \<Rightarrow> 'a list \<Rightarrow> 'a list \<Rightarrow> bool" where
  "untouched lo hi mem mem' \<longleftrightarrow> length mem' = length mem \<and>
     (\<forall>a n. a + n \<le> lo \<or> hi \<le> a \<longrightarrow> read_at a n mem' = read_at a n mem)"

lemma untouched_write:
  "write_at off bs mem = Inr mem' \<Longrightarrow> untouched off (off + length bs) mem mem'"
  using read_write_disjoint write_at_length by (fastforce simp: untouched_def)

lemma untouched_read:
  "untouched lo hi mem mem' \<Longrightarrow> a + n \<le> lo \<or> hi \<le> a \<Longrightarrow> read_at a n mem' = read_at a n mem"
  by (auto simp: untouched_def)

lemma untouched_mono: "untouched lo hi mem mem' \<Longrightarrow> lo' \<le> lo \<Longrightarrow> hi \<le> hi' \<Longrightarrow> untouched lo' hi' mem mem'"
  by (auto simp: untouched_def)

lemma untouched_trans: "untouched lo hi m m' \<Longrightarrow> untouched lo hi m' m'' \<Longrightarrow> untouched lo hi m m''"
  by (auto simp: untouched_def)

lemma untouched_length: "untouched lo hi m m' \<Longrightarrow> length m' = length m"
  by (simp add: untouched_def)

section \<open>The shape of a ring\<close>

text \<open>Descriptors as \<^verbatim>\<open>init_ring_buffer\<close> lays them out; only length and lock word vary.\<close>

definition frame_at :: "nat \<Rightarrow> nat \<Rightarrow> RNG \<Rightarrow> bool" where
  "frame_at b j r \<longleftrightarrow> header r = HEADER \<and> bindex r = j \<and> footer r = (j + 1) * b - 4 \<and>
     ethernet_frame r = j * b \<and> ipheader r = j * b + 14 \<and> bdata r = j * b + 34"

definition geom :: "Q \<Rightarrow> bool" where
  "geom q \<longleftrightarrow> 38 \<le> unat (bsz q) \<and> length (pool q) = (unat (rsz q) + 1) * unat (bsz q) \<and>
     (\<forall>j < length (R q). frame_at (unat (bsz q)) j (R q ! j))"

lemma frame_at_block_desc: "frame_at b j (block_desc b j)"
  by (simp add: frame_at_def block_desc_def frame_consts)

lemma frame_at_updates [simp]:
  "frame_at b j (r\<lparr>blen := n\<rparr>) = frame_at b j r" "frame_at b j (r\<lparr>block_lock := l\<rparr>) = frame_at b j r"
  by (simp_all add: frame_at_def)

lemma geom_fields:
  assumes "geom q" and "j < length (R q)"
  shows "ethernet_frame (R q ! j) = j * unat (bsz q)" "ipheader (R q ! j) = j * unat (bsz q) + 14"
    "bdata (R q ! j) = j * unat (bsz q) + 34"
  using assms by (simp_all add: geom_def frame_at_def)

text \<open>Blocks do not overlap, and after the last one there is room for one more.\<close>

lemma block_span:
  assumes "i < j"
  shows "(i + 1) * b \<le> j * (b :: nat)" "i * b + b \<le> j * b"
  using assms mult_le_mono1 [of "i + 1" j b] by simp_all

lemma geom_pool: "geom q \<Longrightarrow> j < unat (rsz q) \<Longrightarrow> j * unat (bsz q) + 2 * unat (bsz q) \<le> length (pool q)"
  using block_span(1) [of j "unat (rsz q)" "unat (bsz q)"] by (simp add: geom_def)

lemma set_blen_simps [simp]:
  "qid (set_blen i l q) = qid q" "bsz (set_blen i l q) = bsz q"
  "rsz (set_blen i l q) = rsz q" "q_in (set_blen i l q) = q_in q"
  "q_out (set_blen i l q) = q_out q" "sz (set_blen i l q) = sz q"
  "qlock (set_blen i l q) = qlock q" "full (set_blen i l q) = full q"
  "pool (set_blen i l q) = pool q" "length (R (set_blen i l q)) = length (R q)"
  by (simp_all add: set_blen_def)

lemma nth_set_blen [simp]:
  "i < length (R q) \<Longrightarrow> R (set_blen i l q) ! j = (if i = j then (R q ! j)\<lparr>blen := l\<rparr> else R q ! j)"
  by (simp add: set_blen_def)

lemma nth_set_slot_lock:
  "i < length (R q) \<Longrightarrow> R (set_slot_lock i l q) ! j = (if i = j then (R q ! j)\<lparr>block_lock := l\<rparr> else R q ! j)"
  by (simp add: set_slot_lock_def)

lemma ring_wf_set_blen: "ring_wf q \<Longrightarrow> ring_wf (set_blen j n q)"
  unfolding ring_wf_def set_blen_def by (simp add: list_all_upd_at)

lemma geom_updates [simp]:
  "geom (q\<lparr>q_in := a\<rparr>) = geom q" "geom (q\<lparr>q_out := b\<rparr>) = geom q" "geom (q\<lparr>sz := c\<rparr>) = geom q"
  "geom (q\<lparr>full := f\<rparr>) = geom q" "geom (q\<lparr>qts := ts\<rparr>) = geom q"
  by (simp_all add: geom_def)

lemma geom_set_blen: "geom q \<Longrightarrow> j < length (R q) \<Longrightarrow> geom (set_blen j n q)"
  by (auto simp: geom_def)

lemma geom_set_slot_lock: "geom q \<Longrightarrow> j < length (R q) \<Longrightarrow> geom (set_slot_lock j l q)"
  by (auto simp: geom_def nth_set_slot_lock)

lemma geom_pool_update: "geom q \<Longrightarrow> length mem = length (pool q) \<Longrightarrow> geom (q\<lparr>pool := mem\<rparr>)"
  by (auto simp: geom_def)

section \<open>What publishing and releasing a slot do\<close>

lemma relock_same: "block_lock r = 0 \<Longrightarrow> r\<lparr>blen := n, block_lock := 0\<rparr> = r\<lparr>blen := n\<rparr>"
  by (cases r) simp

lemma unlocked_again:
  "block_lock (xs ! j) = 0 \<Longrightarrow>
     upd_at j (\<lambda>b. b\<lparr>blen := n, block_lock := 0\<rparr>) xs = upd_at j (\<lambda>b. b\<lparr>blen := n\<rparr>) xs"
  unfolding upd_at_def by (simp only: relock_same)

lemma commit_push_effect:
  assumes "j < length (R q)" and "block_lock (R q ! j) = 0" and "sz q < rsz q"
  shows "commit_push j ((set_blen j n (set_slot_lock j 1 q))\<lparr>pool := mem\<rparr>) =
    (set_blen j n q)\<lparr>pool := mem, sz := sz q + 1, q_in := (if rsz q \<le> q_in q + 1 then 0 else q_in q + 1)\<rparr>"
proof -
  have "unlock_slot j ((set_blen j n (set_slot_lock j 1 q))\<lparr>pool := mem\<rparr>) = (set_blen j n q)\<lparr>pool := mem\<rparr>"
    using assms(1,2)
    by (simp add: unlock_slot_def set_slot_lock_def set_blen_def upd_at_twice unlocked_again)
  then show ?thesis using assms(3) by (simp add: commit_push_def Let_def not_le [symmetric])
qed

lemma commit_pop_effect:
  assumes "j < length (R q)" and "block_lock (R q ! j) = 0" and "sz q \<noteq> 0"
  shows "commit_pop j (set_slot_lock j 1 (q\<lparr>q_out := c\<rparr>)) = (set_blen j (- 1) q)\<lparr>q_out := c, sz := sz q - 1\<rparr>"
proof -
  have "\<not> sz q < 1" using assms(3) by (simp add: word_less_nat_alt unsigned_eq_0_iff)
  then show ?thesis
    using assms(1,2)
    by (simp add: commit_pop_def unlock_slot_def set_slot_lock_def set_blen_def upd_at_twice
        unlocked_again Let_def)
qed


section \<open>The invariant between passes\<close>

text \<open>
  Nobody holds a lock, and \<open>in\<close> is \<open>sz\<close> slots ahead of \<open>out\<close>: the cursors are on the same lap.
  \<open>cap\<close> is the longest payload a block has room for.
\<close>

definition quiet :: "nat \<Rightarrow> Q \<Rightarrow> bool" where
  "quiet cap q \<longleftrightarrow> ring_wf q \<and> geom q \<and> unat (bsz q) = cap + 38 \<and> qlock q = 0 \<and>
     (\<forall>j < length (R q). block_lock (R q ! j) = 0) \<and> unat (q_in q) = unat (q_out q) + unat (sz q) \<and>
     (\<forall>j \<in> {unat (q_out q)..<unat (q_in q)}. 14 < blen (R q ! j) \<and> blen (R q ! j) \<le> int cap)"

definition room :: "Q \<Rightarrow> nat" where
  "room q = unat (rsz q) - 1 - unat (q_in q)"

definition live :: "Q \<Rightarrow> nat list" where
  "live q = [unat (q_out q)..<unat (q_in q)]"

lemma quietD:
  assumes "quiet cap q"
  shows "ring_wf q" "geom q" "unat (bsz q) = cap + 38" "qlock q = 0"
    "j < unat (rsz q) \<Longrightarrow> block_lock (R q ! j) = 0" "unat (q_in q) = unat (q_out q) + unat (sz q)"
    "j \<in> set (live q) \<Longrightarrow> 14 < blen (R q ! j) \<and> blen (R q ! j) \<le> int cap"
    "length (R q) = unat (rsz q)" "j \<in> set (live q) \<Longrightarrow> j < unat (rsz q)"
  using assms ring_wfD(1,3) [of q] by (auto simp: quiet_def live_def)

lemma live_Nil: "quiet cap q \<Longrightarrow> live q = [] \<longleftrightarrow> sz q = 0"
  using quietD(6) [of cap q] by (auto simp: live_def unsigned_eq_0_iff)

text \<open>Room for one more slot: what \<^verbatim>\<open>push\<close> answers, and where the cursors are afterwards.\<close>

lemma push_quiet:
  assumes "quiet cap q" and "0 < room q"
  shows "push q = Some (Inr (Slot (unat (q_in q)), set_slot_lock (unat (q_in q)) 1 q))"
proof -
  note wf = ring_wfD [OF quietD(1) [OF assms(1)]]
  have in': "unat (q_in q) < unat (rsz q) - 1" using assms(2) by (simp add: room_def)
  have "rsz q \<noteq> 0" using wf(2) by auto
  then have "unat (rsz q - 1) = unat (rsz q) - 1" by (rule unat_pred)
  then have "\<not> rsz q - 1 \<le> sz q" using in' quietD(6) [OF assms(1)] by (simp add: word_le_nat_alt)
  moreover have "q_in q \<noteq> q_out q - 1"
  proof (cases "q_out q = 0")
    case True
    have "unat (rsz q) < 2 ^ 32" using unsigned_less [of "rsz q", where 'a = nat] by simp
    moreover have "unat (- 1 :: u32) = 2 ^ 32 - 1" by (simp add: unsigned_minus_1_eq_mask mask_eq_exp_minus_1)
    ultimately have "unat (q_in q) \<noteq> unat (- 1 :: u32)" using in' by simp
    then show ?thesis using True by auto
  next
    case False
    then have "unat (q_out q - 1) < unat (q_out q)" by (simp add: unat_pred unat_gt_0)
    then show ?thesis using quietD(6) [OF assms(1)] by auto
  qed
  ultimately show ?thesis
    using push_unlocked [OF quietD(1,4) [OF assms(1)]] quietD(5) [OF assms(1)] wf(3) by simp
qed

text \<open>The first entry of the lap is what \<^verbatim>\<open>pop\<close> takes.\<close>

lemma pop_quiet:
  assumes "quiet cap q" and "sz q \<noteq> 0" and "unat (q_in q) < unat (rsz q)"
  shows "pop q = Some (Inr (Slot (unat (q_out q)), set_slot_lock (unat (q_out q)) 1 (q\<lparr>q_out := q_out q + 1\<rparr>)))"
proof -
  note wf = ring_wfD [OF quietD(1) [OF assms(1)]]
  have sz: "0 < unat (sz q)" using assms(2) by (simp add: unat_gt_0)
  then have out: "unat (q_out q) + 1 < unat (rsz q)" and ne: "q_in q \<noteq> q_out q"
    using quietD(6) [OF assms(1)] wf(3) by auto
  have "rsz q \<noteq> 0" using wf(2) by auto
  then have "\<not> rsz q - 1 \<le> q_out q" using out by (simp add: word_le_nat_alt unat_pred)
  then have "pop_start q = unat (q_out q)" by (simp add: pop_start_def)
  then have "unat (q_out q) = (pop_start q + 0) mod unat (rsz q)" using wf(4) by simp
  from pop_outcome [OF quietD(1,4) [OF assms(1)] assms(2) ne _ _ quietD(5) [OF assms(1) wf(4)] this] wf(2)
  have "pop q = Some (if unat (q_out q) + 1 = unat (rsz q) then Inl (Fault OutOfBounds)
      else Inr (Slot (unat (q_out q)),
        set_slot_lock (unat (q_out q)) 1 (q\<lparr>q_out := of_nat (unat (q_out q) + 1)\<rparr>)))" by simp
  moreover have "of_nat (unat (q_out q) + 1) = q_out q + 1" by simp
  ultimately show ?thesis using out by (simp only: less_not_refl2 [symmetric] if_False)
qed

text \<open>How the invariant moves when a slot is published, and when one is released.\<close>

lemma quiet_publish:
  assumes "quiet cap q" and "0 < room q" and "length mem = length (pool q)" and "14 < n" and "n \<le> int cap"
  defines "q' \<equiv> (set_blen (unat (q_in q)) n q)\<lparr>pool := mem, sz := sz q + 1,
      q_in := (if rsz q \<le> q_in q + 1 then 0 else q_in q + 1)\<rparr>"
  shows "quiet cap q'" and "live q' = live q @ [unat (q_in q)]" and "Suc (room q') = room q"
proof -
  note wf = ring_wfD [OF quietD(1) [OF assms(1)]] and qd = quietD [OF assms(1)]
  have in': "unat (q_in q) + 1 < unat (rsz q)" using assms(2) by (simp add: room_def)
  then have suc: "unat (q_in q + 1) = unat (q_in q) + 1" "\<not> rsz q \<le> q_in q + 1"
    using unat_suc_below [of "q_in q" "rsz q"] by (simp_all add: word_less_nat_alt word_le_nat_alt)
  have "unat (sz q + 1) = unat (sz q) + 1"
    using unat_suc_below [of "sz q" "rsz q"] in' qd(6) by (simp add: word_less_nat_alt)
  moreover have "ring_wf q'"
    using ring_wf_set_blen [OF qd(1), of "unat (q_in q)" n] suc in' by (simp add: q'_def ring_wf_def word_less_nat_alt)
  moreover have "geom (set_blen (unat (q_in q)) n q)" using qd(2,8) wf(3) by (intro geom_set_blen) auto
  then have "geom q'" using suc assms(3) by (simp add: q'_def geom_def)
  ultimately show "quiet cap q'"
    using suc qd(3-8) wf(3) assms(4,5) by (auto simp: q'_def quiet_def live_def)
  show "live q' = live q @ [unat (q_in q)]" using suc qd(6) by (simp add: q'_def live_def)
  show "Suc (room q') = room q" using suc in' by (simp add: q'_def room_def)
qed

lemma quiet_release:
  assumes "quiet cap q" and "sz q \<noteq> 0"
  defines "q' \<equiv> (set_blen (unat (q_out q)) (- 1) q)\<lparr>q_out := q_out q + 1, sz := sz q - 1\<rparr>"
  shows "quiet cap q'" and "live q = unat (q_out q) # live q'" and "room q' = room q"
proof -
  note wf = ring_wfD [OF quietD(1) [OF assms(1)]] and qd = quietD [OF assms(1)]
  have sz: "0 < unat (sz q)" using assms(2) by (simp add: unat_gt_0)
  then have out: "unat (q_out q) + 1 < unat (rsz q)" using qd(6) wf(3) by simp
  then have suc: "unat (q_out q + 1) = unat (q_out q) + 1"
    using unat_suc_below [of "q_out q" "rsz q"] by (simp add: word_less_nat_alt)
  have pred: "unat (sz q - 1) = unat (sz q) - 1" using assms(2) by (rule unat_pred)
  have "ring_wf q'"
    using ring_wf_set_blen [OF qd(1), of "unat (q_out q)" "- 1"] suc out by (simp add: q'_def ring_wf_def word_less_nat_alt)
  moreover have "geom q'" using geom_set_blen [of q "unat (q_out q)" "- 1"] qd(2,8) wf(4) by (simp add: q'_def)
  ultimately show "quiet cap q'"
    using suc pred sz qd(3-8) wf(4) by (auto simp: q'_def quiet_def live_def)
  show "live q = unat (q_out q) # live q'" using suc qd(6) sz by (simp add: q'_def live_def upt_rec)
  show "room q' = room q" by (simp add: q'_def room_def)
qed

end
