(* ===== verification/Tunnel.thy ===== *)
theory Tunnel
  imports Traffic
begin

text \<open>
  The rings as FIFO buffers, and the tunnel they make: payloads put into a ring by \<^verbatim>\<open>tx_io\<close>
  leave it as encapsulated frames through \<^verbatim>\<open>tx\<close>; frames from the peer put into a ring by
  \<^verbatim>\<open>rx_io\<close> leave it as payloads through \<^verbatim>\<open>rx\<close>.
\<close>

section \<open>Storing into a block\<close>

definition data_event :: "u8 list \<Rightarrow> poll_event" where
  "data_event bs = \<lparr>pollin = True, got = Some bs\<rparr>"

lemma read_at_within: "k + m \<le> n \<Longrightarrow> read_at (off + k) m mem = read_at k m (read_at off n mem)"
  by (simp add: read_at_def drop_take min_def add.commute)

lemma set_blen_pool: "set_blen j n (q\<lparr>pool := m\<rparr>) = (set_blen j n q)\<lparr>pool := m\<rparr>"
  by (simp add: set_blen_def)

lemma write_pool_fits:
  assumes "off + length bs \<le> length (pool q)"
  obtains mem where "write_pool off bs q = Inr (q\<lparr>pool := mem\<rparr>)" and "write_at off bs (pool q) = Inr mem"
  using write_at_fits [OF assms] by (auto simp: write_pool_def)

lemma length_u16s_of_bytes: "length (u16s_of_bytes bs) = length bs div 2"
  by (induction bs rule: u16s_of_bytes.induct) simp_all

lemma csum_loop_in_bounds: "m \<le> length ws \<Longrightarrow> \<exists>s'. csum_loop ws m s = Inr s'"
  by (induction ws m s rule: csum_loop.induct) auto

lemma csum_in_bounds: "nat n \<le> length ws \<Longrightarrow> \<exists>c. csum ws n = Inr c"
  using csum_loop_in_bounds [of "nat n" ws 0] by (auto simp: csum_def Let_def)

text \<open>
  What \<^verbatim>\<open>tx_io\<close> does to the pool when it reads a payload into block \<open>j\<close>: the payload, the total
  length and the checksum field change; the Ethernet header, the addresses, the block's footer
  and every other block do not.
\<close>

lemma tx_store:
  assumes "geom q" and b: "unat (bsz q) = cap + 38" and "length (R q) = unat (rsz q)"
    and "j < unat (rsz q)" and "length bs \<le> cap"
  defines "base \<equiv> j * unat (bsz q)"
  shows "\<exists>mem. tx_io_poll j (data_event bs) q = Inr ((set_blen j (int (length bs)) q)\<lparr>pool := mem\<rparr>) \<and>
    untouched (base + 16) (base + 34 + cap) (pool q) mem \<and> read_at (base + 34) (length bs) mem = bs \<and>
    read_at (base + 16) 2 mem = bytes_of_u16 (of_nat (length bs + 20)) \<and>
    read_at (base + 26) 8 mem = read_at (base + 26) 8 (pool q)"
proof -
  note fields = geom_fields [OF assms(1), of j, unfolded assms(3), OF assms(4), folded base_def]
  have pool: "base + 2 * (cap + 38) \<le> length (pool q)" using geom_pool [OF assms(1,4)] b by (simp add: base_def)
  let ?q1 = "\<lambda>m. (set_blen j (int (length bs)) q)\<lparr>pool := m\<rparr>"
  have fields': "ipheader (R (?q1 m) ! j) = base + 14" "bdata (R (?q1 m) ! j) = base + 34"
    "blen (R (?q1 m) ! j) = int (length bs)" for m using fields assms(3,4) by simp_all
  obtain m1 where m1: "write_pool (base + 34) bs q = Inr (q\<lparr>pool := m1\<rparr>)" "write_at (base + 34) bs (pool q) = Inr m1"
    using pool assms(5) by (rule_tac write_pool_fits [of "base + 34" bs q]) auto
  note l1 = write_at_length [OF m1(2)]
  obtain m2 where m2: "write_pool (base + 16) (bytes_of_u16 (of_nat (length bs + 20))) (?q1 m1) = Inr (?q1 m2)"
    "write_at (base + 16) (bytes_of_u16 (of_nat (length bs + 20))) m1 = Inr m2"
    using pool l1 by (rule_tac write_pool_fits [of "base + 16" "bytes_of_u16 (of_nat (length bs + 20))" "?q1 m1"]) auto
  note l2 = write_at_length [OF m2(2)]
  obtain c where c: "csum (u16s_of_bytes (read_at (base + 48) 20 m2)) 10 = Inr c"
    using csum_in_bounds [of 10 "u16s_of_bytes (read_at (base + 48) 20 m2)"] pool l1 l2
    by (auto simp: length_u16s_of_bytes)
  obtain m3 where m3: "write_pool (base + 24) (bytes_of_u16 c) (?q1 m2) = Inr (?q1 m3)"
    "write_at (base + 24) (bytes_of_u16 c) m2 = Inr m3"
    using pool l1 l2 by (rule_tac write_pool_fits [of "base + 24" "bytes_of_u16 c" "?q1 m2"]) auto
  have poll: "tx_io_poll j (data_event bs) q = Inr (?q1 m3)"
    using m1(1) m2(1) m3(1) c fields fields'
    by (simp add: tx_io_poll_def data_event_def read_into_def set_blen_pool tx_encap_def Let_def
        frame_consts add.commute [of base])
  have "untouched (base + 16) (base + 34 + cap) (pool q) m1" "untouched (base + 16) (base + 34 + cap) m1 m2"
    "untouched (base + 16) (base + 34 + cap) m2 m3"
    using untouched_write [OF m1(2)] untouched_write [OF m2(2)] untouched_write [OF m3(2)] assms(5)
    by (auto elim: untouched_mono)
  then have "untouched (base + 16) (base + 34 + cap) (pool q) m3" by (blast intro: untouched_trans)
  moreover have "read_at (base + 34) (length bs) m3 = bs"
    using read_write_same [OF m1(2)] read_write_disjoint [OF m2(2), of "base + 34" "length bs"]
      read_write_disjoint [OF m3(2), of "base + 34" "length bs"] by simp
  moreover have "read_at (base + 16) 2 m3 = bytes_of_u16 (of_nat (length bs + 20))"
    using read_write_same [OF m2(2)] read_write_disjoint [OF m3(2), of "base + 16" 2] by simp
  moreover have "read_at (base + 26) 8 m3 = read_at (base + 26) 8 (pool q)"
    using read_write_disjoint [OF m1(2), of "base + 26" 8] read_write_disjoint [OF m2(2), of "base + 26" 8]
      read_write_disjoint [OF m3(2), of "base + 26" 8] by simp
  ultimately show ?thesis using poll by blast
qed

text \<open>The same for \<^verbatim>\<open>rx_io\<close>, which reads a whole frame into the block.\<close>

lemma rx_store:
  assumes "geom q" and b: "unat (bsz q) = cap + 38" and "length (R q) = unat (rsz q)"
    and "j < unat (rsz q)" and "34 \<le> length f" and "length f \<le> cap + 34"
  defines "base \<equiv> j * unat (bsz q)"
  shows "\<exists>mem. rx_io_poll peer j (data_event f) q =
      Inr (read_at 26 4 f \<noteq> bytes_of_u32 peer, (set_blen j (int (length f)) q)\<lparr>pool := mem\<rparr>) \<and>
    untouched base (base + 34 + cap) (pool q) mem \<and> read_at base (length f) mem = f"
proof -
  note fields = geom_fields [OF assms(1), of j, unfolded assms(3), OF assms(4), folded base_def]
  have pool: "base + 2 * (cap + 38) \<le> length (pool q)" using geom_pool [OF assms(1,4)] b by (simp add: base_def)
  obtain m where m: "write_pool base f q = Inr (q\<lparr>pool := m\<rparr>)" "write_at base f (pool q) = Inr m"
    using pool assms(6) by (rule_tac write_pool_fits [of base f q]) auto
  let ?q = "(set_blen j (int (length f)) q)\<lparr>pool := m\<rparr>"
  have fields': "ipheader (R ?q ! j) = base + 14" "blen (R ?q ! j) = int (length f)"
    using fields assms(3,4) by simp_all
  have same: "read_at base (length f) m = f" by (rule read_write_same [OF m(2)])
  have "read_at (base + 26) 4 m = read_at 26 4 (read_at base (length f) m)"
    using assms(5) by (simp add: read_at_within)
  then have "read_at (base + 26) 4 m = read_at 26 4 f" using same by simp
  then have "rx_io_poll peer j (data_event f) q = Inr (read_at 26 4 f \<noteq> bytes_of_u32 peer, ?q)"
    using m(1) fields fields' pool write_at_length [OF m(2)] assms(5)
    by (auto simp: rx_io_poll_def data_event_def read_into_def set_blen_pool add.commute [of base])
  moreover have "untouched base (base + 34 + cap) (pool q) m"
    using untouched_write [OF m(2)] assms(6) by (auto elim: untouched_mono)
  ultimately show ?thesis using same by blast
qed


section \<open>Sending rings\<close>

text \<open>
  The payloads that wait in a ring, and what a ring of \<^verbatim>\<open>tx_io\<close> keeps: every block still
  starts with the session's Ethernet header and holds its addresses, and the total length of
  a waiting block fits its payload.
\<close>

definition payload :: "Q \<Rightarrow> nat \<Rightarrow> u8 list" where
  "payload q j = read_at (j * unat (bsz q) + 34) (nat (blen (R q ! j))) (pool q)"

definition payloads :: "Q \<Rightarrow> u8 list list" where
  "payloads q = map (payload q) (live q)"

definition stamped :: "headers \<Rightarrow> Q \<Rightarrow> nat \<Rightarrow> bool" where
  "stamped hdr q j \<longleftrightarrow> read_at (j * unat (bsz q)) 14 (pool q) = eh hdr \<and>
     read_at (j * unat (bsz q) + 26) 8 (pool q) = read_at 12 8 (iph hdr)"

definition length_field :: "Q \<Rightarrow> nat \<Rightarrow> bool" where
  "length_field q j \<longleftrightarrow>
     read_at (j * unat (bsz q) + 16) 2 (pool q) = bytes_of_u16 (of_int (blen (R q ! j) + 20))"

definition tx_inv :: "nat \<Rightarrow> headers \<Rightarrow> Q \<Rightarrow> bool" where
  "tx_inv cap hdr q \<longleftrightarrow> quiet cap q \<and> (\<forall>j < unat (rsz q). stamped hdr q j) \<and>
     (\<forall>j \<in> set (live q). length_field q j)"

text \<open>\<open>encapsulates hdr f p\<close>: the frame \<open>f\<close> carries \<open>p\<close> under the headers of the session.\<close>

definition encapsulates :: "headers \<Rightarrow> u8 list \<Rightarrow> u8 list \<Rightarrow> bool" where
  "encapsulates hdr f p \<longleftrightarrow> length f = 34 + length p \<and> drop 34 f = p \<and>
     take 14 f = eh hdr \<and> read_at 26 8 f = read_at 12 8 (iph hdr) \<and>
     read_at 16 2 f = bytes_of_u16 (of_nat (length p + 20))"

definition fits :: "nat \<Rightarrow> u8 list \<Rightarrow> bool" where
  "fits cap p \<longleftrightarrow> 14 < length p \<and> length p \<le> cap"

text \<open>\<^verbatim>\<open>tx_io\<close> reading one payload, and \<^verbatim>\<open>tx\<close> sending one frame, as operations of a buffer.\<close>

definition tx_put :: "u8 list \<Rightarrow> Q \<Rightarrow> Q option" where
  "tx_put p q = (case tx_io_queue [data_event p] q of
     Some (Inr (Some n, _, q')) \<Rightarrow> Some q' | _ \<Rightarrow> None)"

definition tx_get :: "Q \<Rightarrow> (u8 list option \<times> Q) option" where
  "tx_get q = (case tx_queue q of Some (Inr (_, f, q')) \<Rightarrow> Some (f, q') | _ \<Rightarrow> None)"

text \<open>A block other than the one written is as before.\<close>

lemma other_block:
  assumes "untouched (j * b + lo) (j * b + hi) mem mem'" and "hi \<le> b" and "i \<noteq> j" and "k + n \<le> b"
  shows "read_at (i * b + k) n mem' = read_at (i * b + k) n mem"
proof -
  have "i * b + b \<le> j * b \<or> j * b + b \<le> i * b"
    using assms(3) block_span(2) [of i j b] block_span(2) [of j i b] by linarith
  then show ?thesis using assms(2,4) by (intro untouched_read [OF assms(1)]) linarith
qed

lemma map_live_cong: "(\<And>j. j \<in> set (live q) \<Longrightarrow> f j = g j) \<Longrightarrow> map f (live q) = map g (live q)"
  by simp

text \<open>The effect of \<open>tx_put\<close> on a ring whose \<^verbatim>\<open>push\<close> gives the slot at \<open>in\<close>.\<close>

lemma tx_put_effect:
  assumes "geom q" and "unat (bsz q) = cap + 38" and "length (R q) = unat (rsz q)" and "fits cap p"
    and j: "unat (q_in q) < unat (rsz q)" and "block_lock (R q ! unat (q_in q)) = 0" and "sz q < rsz q"
    and push: "push q = Some (Inr (Slot (unat (q_in q)), set_slot_lock (unat (q_in q)) 1 q))"
  defines "base \<equiv> unat (q_in q) * unat (bsz q)"
  obtains mem where "tx_put p q = Some ((set_blen (unat (q_in q)) (int (length p)) q)\<lparr>pool := mem,
      sz := sz q + 1, q_in := (if rsz q \<le> q_in q + 1 then 0 else q_in q + 1)\<rparr>)"
    and "untouched (base + 16) (base + 34 + cap) (pool q) mem"
    and "read_at (base + 34) (length p) mem = p"
    and "read_at (base + 16) 2 mem = bytes_of_u16 (of_nat (length p + 20))"
    and "read_at (base + 26) 8 mem = read_at (base + 26) 8 (pool q)"
proof -
  let ?j = "unat (q_in q)"
  let ?q1 = "set_slot_lock ?j 1 q"
  have "geom ?q1" using assms(1,3) j by (simp add: geom_set_slot_lock)
  then obtain mem where
    poll: "tx_io_poll ?j (data_event p) ?q1 = Inr ((set_blen ?j (int (length p)) ?q1)\<lparr>pool := mem\<rparr>)"
    and mem: "untouched (base + 16) (base + 34 + cap) (pool q) mem" "read_at (base + 34) (length p) mem = p"
    "read_at (base + 16) 2 mem = bytes_of_u16 (of_nat (length p + 20))"
    "read_at (base + 26) 8 mem = read_at (base + 26) 8 (pool q)"
    using tx_store [of ?q1 cap ?j p] assms(2-4) j by (auto simp: fits_def base_def)
  have "commit_push ?j ((set_blen ?j (int (length p)) ?q1)\<lparr>pool := mem\<rparr>) =
      (set_blen ?j (int (length p)) q)\<lparr>pool := mem, sz := sz q + 1,
        q_in := (if rsz q \<le> q_in q + 1 then 0 else q_in q + 1)\<rparr>"
    using assms(3,6,7) j by (intro commit_push_effect) auto
  moreover have "blen (R ((set_blen ?j (int (length p)) ?q1)\<lparr>pool := mem\<rparr>) ! ?j) = int (length p)"
    using assms(3) j by simp
  ultimately have "tx_put p q = Some ((set_blen ?j (int (length p)) q)\<lparr>pool := mem, sz := sz q + 1,
      q_in := (if rsz q \<le> q_in q + 1 then 0 else q_in q + 1)\<rparr>)"
    using push poll by (simp add: tx_put_def tx_io_queue_def)
  then show ?thesis using that mem by blast
qed

lemma tx_put_law:
  assumes "tx_inv cap hdr q" and "fits cap p" and "0 < room q"
  shows "\<exists>q'. tx_put p q = Some q' \<and> tx_inv cap hdr q' \<and> payloads q' = payloads q @ [p] \<and>
           room q \<le> Suc (room q')"
proof -
  have qt: "quiet cap q" using assms(1) by (simp add: tx_inv_def)
  note qd = quietD [OF qt]
  let ?j = "unat (q_in q)" and ?b = "unat (bsz q)"
  have j: "?j < unat (rsz q)" using assms(3) by (simp add: room_def)
  have "sz q < rsz q" using qd(6) j by (simp add: word_less_nat_alt)
  from tx_put_effect [OF qd(2,3,8) assms(2) j qd(5) [OF j] this push_quiet [OF qt assms(3)]]
  obtain mem where put: "tx_put p q = Some ((set_blen ?j (int (length p)) q)\<lparr>pool := mem,
      sz := sz q + 1, q_in := (if rsz q \<le> q_in q + 1 then 0 else q_in q + 1)\<rparr>)"
    and mem: "untouched (?j * ?b + 16) (?j * ?b + 34 + cap) (pool q) mem"
    "read_at (?j * ?b + 34) (length p) mem = p"
    "read_at (?j * ?b + 16) 2 mem = bytes_of_u16 (of_nat (length p + 20))"
    "read_at (?j * ?b + 26) 8 mem = read_at (?j * ?b + 26) 8 (pool q)" by blast
  define q' where "q' = (set_blen ?j (int (length p)) q)\<lparr>pool := mem, sz := sz q + 1,
      q_in := (if rsz q \<le> q_in q + 1 then 0 else q_in q + 1)\<rparr>"
  have put': "tx_put p q = Some q'" using put by (simp add: q'_def)
  have len: "length mem = length (pool q)" using mem(1) by (rule untouched_length)
  have n: "14 < int (length p)" "int (length p) \<le> int cap" using assms(2) by (auto simp: fits_def)
  note pub = quiet_publish [OF qt assms(3) len n, folded q'_def]
  have sel: "bsz q' = bsz q" "rsz q' = rsz q" "pool q' = mem" by (simp_all add: q'_def)
  have blen': "blen (R q' ! i) = (if i = ?j then int (length p) else blen (R q ! i))" for i
    using qd(8) j by (simp add: q'_def)
  have live: "i \<noteq> ?j" if "i \<in> set (live q)" for i using that by (auto simp: live_def)
  have fit: "nat (blen (R q ! i)) \<le> cap" if "i \<in> set (live q)" for i using qd(7) [OF that] by linarith
  have region: "untouched (?j * ?b + 16) (?j * ?b + (34 + cap)) (pool q) mem" using mem(1) by (simp add: add.assoc)
  have same: "read_at (i * ?b + k) n mem = read_at (i * ?b + k) n (pool q)"
    if "i \<noteq> ?j" "k + n \<le> ?b" for i k n
    using other_block [OF region _ that] qd(3) by simp
  have "payload q' i = payload q i" if "i \<in> set (live q)" for i
    using same [OF live [OF that], of 34 "nat (blen (R q ! i))"] fit [OF that] qd(3) live [OF that]
    by (simp add: payload_def sel blen')
  then have "payloads q' = payloads q @ [p]"
    using mem(2) by (simp add: payloads_def pub(2) payload_def [of q' ?j] sel blen')
  moreover have "stamped hdr q' i" if "i < unat (rsz q)" for i
  proof (cases "i = ?j")
    case True
    have "read_at (?j * ?b) 14 mem = read_at (?j * ?b) 14 (pool q)" by (rule untouched_read [OF mem(1)]) simp
    then show ?thesis using assms(1) True mem(4) j by (simp add: tx_inv_def stamped_def sel)
  next
    case False
    then show ?thesis using assms(1) that same [OF False, of 0 14] same [OF False, of 26 8] qd(3)
      by (simp add: tx_inv_def stamped_def sel)
  qed
  moreover have "length_field q' i" if "i \<in> set (live q')" for i
    using that mem(3) same [of i 16 2] assms(1) qd(3)
    by (auto simp: pub(2) length_field_def sel blen' tx_inv_def dest: live)
  ultimately show ?thesis using put' pub(1,3) sel by (auto simp: tx_inv_def)
qed


text \<open>Releasing a slot touches no byte and no other length.\<close>

lemma payloads_release:
  assumes "quiet cap q" and "sz q \<noteq> 0"
  defines "q' \<equiv> (set_blen (unat (q_out q)) (- 1) q)\<lparr>q_out := q_out q + 1, sz := sz q - 1\<rparr>"
  shows "\<And>i. i \<in> set (live q') \<Longrightarrow> blen (R q' ! i) = blen (R q ! i)"
    and "\<And>i. i \<in> set (live q') \<Longrightarrow> i \<in> set (live q)"
proof -
  have out: "unat (q_out q) < length (R q)" using ring_wfD(1,4) [OF quietD(1) [OF assms(1)]] by simp
  have "live q = unat (q_out q) # live q'" unfolding q'_def by (rule quiet_release(2) [OF assms(1,2)])
  moreover have "distinct (live q)" by (simp add: live_def)
  ultimately have "i \<noteq> unat (q_out q) \<and> i \<in> set (live q)" if "i \<in> set (live q')" for i using that by auto
  then show "\<And>i. i \<in> set (live q') \<Longrightarrow> blen (R q' ! i) = blen (R q ! i)"
    and "\<And>i. i \<in> set (live q') \<Longrightarrow> i \<in> set (live q)"
    using out by (auto simp: q'_def)
qed

lemma frame_encapsulates:
  assumes "stamped hdr q j" and "length_field q j" and "0 \<le> blen (R q ! j)"
    and "j * unat (bsz q) + 34 + nat (blen (R q ! j)) \<le> length (pool q)"
  shows "encapsulates hdr (read_at (j * unat (bsz q)) (34 + nat (blen (R q ! j))) (pool q)) (payload q j)"
proof -
  let ?o = "j * unat (bsz q)" and ?n = "nat (blen (R q ! j))"
  let ?f = "read_at ?o (34 + ?n) (pool q)"
  have part: "read_at (?o + k) m (pool q) = read_at k m ?f" if "k + m \<le> 34 + ?n" for k m
    by (rule read_at_within [OF that])
  have "drop 34 ?f = payload q j"
    using part [of 34 ?n] assms(4) by (simp add: payload_def) (simp add: read_at_def)
  moreover have "length (payload q j) = ?n" using assms(4) by (simp add: payload_def)
  moreover have "take 14 ?f = eh hdr"
    using part [of 0 14] assms(1) by (simp add: stamped_def) (simp add: read_at_def)
  moreover have "of_int (blen (R q ! j) + 20) = (of_nat (?n + 20) :: u16)"
    using assms(3) by (simp add: of_nat_nat)
  ultimately show ?thesis
    using part [of 26 8] part [of 16 2] assms by (simp add: encapsulates_def stamped_def length_field_def)
qed

lemma tx_get_law:
  assumes "tx_inv cap hdr q" and "payloads q = p # ps"
  shows "\<exists>f q'. tx_get q = Some (Some f, q') \<and> encapsulates hdr f p \<and> tx_inv cap hdr q' \<and>
           payloads q' = ps \<and> room q \<le> room q'"
proof -
  have qt: "quiet cap q" using assms(1) by (simp add: tx_inv_def)
  note qd = quietD [OF qt]
  let ?j = "unat (q_out q)"
  define q' where "q' = (set_blen ?j (- 1) q)\<lparr>q_out := q_out q + 1, sz := sz q - 1\<rparr>"
  have sz: "sz q \<noteq> 0" using live_Nil [OF qt] assms(2) by (auto simp: payloads_def)
  note rel = quiet_release [OF qt sz, folded q'_def] and keep = payloads_release [OF qt sz, folded q'_def]
  have j: "?j \<in> set (live q)" by (simp add: rel(2))
  note j' = qd(9) [OF j]
  have sel: "bsz q' = bsz q" "rsz q' = rsz q" "pool q' = pool q" by (simp_all add: q'_def)
  have len: "14 < blen (R q ! ?j)" "blen (R q ! ?j) \<le> int cap" using qd(7) [OF j] by auto
  let ?n = "nat (blen (R q ! ?j))"
  have pool: "?j * unat (bsz q) + 34 + ?n \<le> length (pool q)"
    using geom_pool [OF qd(2) j'] qd(3) len by linarith
  let ?f = "read_at (?j * unat (bsz q)) (34 + ?n) (pool q)"
  have enc: "encapsulates hdr ?f (payload q ?j)"
    using frame_encapsulates [of hdr q ?j] assms(1) j j' len(1) pool by (simp add: tx_inv_def)
  have "unat (q_in q) < unat (rsz q)" by (rule ring_wfD(3) [OF qd(1)])
  note pop = pop_quiet [OF qt sz this]
  have "commit_pop ?j (set_slot_lock ?j 1 (q\<lparr>q_out := q_out q + 1\<rparr>)) = q'"
    unfolding q'_def using qd(5,8) j' sz by (intro commit_pop_effect) auto
  moreover have "R (set_slot_lock ?j 1 (q\<lparr>q_out := q_out q + 1\<rparr>)) ! ?j = (R q ! ?j)\<lparr>block_lock := 1\<rparr>"
    using qd(8) j' by (simp add: set_slot_lock_def)
  moreover have "ethernet_frame (R q ! ?j) = ?j * unat (bsz q)" using geom_fields(1) [OF qd(2)] qd(8) j' by simp
  ultimately have "tx_get q = Some (Some ?f, q')"
    using pop len(1) pool by (simp add: tx_get_def tx_queue_def Let_def frame_consts add.commute)
  moreover have "payloads q' = ps"
    using assms(2) keep(1) by (auto simp: payloads_def rel(2) payload_def sel)
  moreover have "payload q ?j = p" using assms(2) by (simp add: payloads_def rel(2))
  moreover have "tx_inv cap hdr q'"
    using assms(1) rel(1) keep by (auto simp: tx_inv_def stamped_def length_field_def sel)
  ultimately show ?thesis using enc rel(3) by auto
qed

text \<open>
  A pass over an empty ring: the ring is reset if it was marked full, and the interval before
  the next look is set.
\<close>

lemma next_interval_simps [simp]:
  "bsz (next_interval q) = bsz q" "rsz (next_interval q) = rsz q" "q_in (next_interval q) = q_in q"
  "q_out (next_interval q) = q_out q" "sz (next_interval q) = sz q" "qlock (next_interval q) = qlock q"
  "R (next_interval q) = R q" "pool (next_interval q) = pool q" "full (next_interval q) = full q"
  by (simp_all add: next_interval_def)

lemma quiet_next_interval [simp]: "quiet cap (next_interval q) = quiet cap q"
  by (simp add: quiet_def ring_wf_def geom_def)

definition emptied :: "Q \<Rightarrow> Q" where
  "emptied q = (if full q \<noteq> 0 then reset_ring (q\<lparr>sz := 0\<rparr>) else q\<lparr>sz := 0\<rparr>)"

lemma emptied_quiet:
  assumes "quiet cap q" and "sz q = 0"
  shows "quiet cap (emptied q)" "live (emptied q) = []" "room q \<le> room (emptied q)"
    "bsz (emptied q) = bsz q" "rsz (emptied q) = rsz q" "pool (emptied q) = pool q" "sz (emptied q) = 0"
proof -
  note qd = quietD [OF assms(1)]
  have eq: "R (reset_ring q) = map (\<lambda>b. b\<lparr>blen := 0\<rparr>) (R q)" using qd(8) by (simp add: reset_ring_def)
  have same: "q\<lparr>sz := 0\<rparr> = q" using assms(2) by simp
  have "ring_wf (reset_ring q)" by (rule reset_ring_wf [OF qd(1)])
  moreover have "geom (reset_ring q)" using qd(2) eq by (simp add: geom_def) (simp add: reset_ring_def)
  ultimately have "quiet cap (reset_ring q)"
    using qd(3,5,8) eq by (simp add: quiet_def) (simp add: reset_ring_def)
  then show "quiet cap (emptied q)" using assms(1) same by (simp add: emptied_def)
  show "live (emptied q) = []" "sz (emptied q) = 0"
    using live_Nil [OF assms(1)] assms(2) same by (simp_all add: emptied_def reset_ring_def live_def)
  show "room q \<le> room (emptied q)" "bsz (emptied q) = bsz q" "rsz (emptied q) = rsz q"
    "pool (emptied q) = pool q" by (simp_all add: emptied_def reset_ring_def room_def diff_le_mono2)
qed

lemma live_next_interval [simp]: "live (next_interval q) = live q" "room (next_interval q) = room q"
  by (simp_all add: live_def room_def)

lemma tx_get_empty:
  assumes "tx_inv cap hdr q" and "payloads q = []"
  shows "\<exists>q'. tx_get q = Some (None, q') \<and> tx_inv cap hdr q' \<and> payloads q' = [] \<and> room q \<le> room q'"
proof -
  have qt: "quiet cap q" using assms(1) by (simp add: tx_inv_def)
  have sz: "sz q = 0" using live_Nil [OF qt] assms(2) by (simp add: payloads_def)
  note em = emptied_quiet [OF qt sz]
  have "tx_get q = Some (None, next_interval (emptied q))"
    using pop_empty [of q] quietD(4) [OF qt] sz by (simp add: tx_get_def tx_queue_def emptied_def)
  moreover have "tx_inv cap hdr (next_interval (emptied q))"
    using assms(1) em by (simp add: tx_inv_def stamped_def)
  ultimately show ?thesis using em by (simp add: payloads_def)
qed

interpretation tx_ring: bounded_fifo tx_put tx_get "tx_inv cap hdr" payloads room "fits cap" "encapsulates hdr"
  for cap hdr
proof (unfold_locales)
  fix q p assume inv: "tx_inv cap hdr q" and p: "p \<in> set (payloads q)"
  then obtain j where j: "j \<in> set (live q)" "p = payload q j" by (auto simp: payloads_def)
  have qt: "quiet cap q" using inv by (simp add: tx_inv_def)
  from quietD(7) [OF qt j(1)] geom_pool [OF quietD(2) [OF qt] quietD(9) [OF qt j(1)]] quietD(3) [OF qt]
  show "fits cap p" unfolding j(2) payload_def fits_def by (subst (1 2) length_read_at) linarith+
qed (fact tx_put_law tx_get_law tx_get_empty)+


section \<open>Receiving rings\<close>

text \<open>A frame \<^verbatim>\<open>rx_io\<close> keeps: the source address of its IP header is the peer's.\<close>

definition from_peer :: "nat \<Rightarrow> u32 \<Rightarrow> u8 list \<Rightarrow> bool" where
  "from_peer cap peer f \<longleftrightarrow> 48 < length f \<and> length f \<le> cap + 34 \<and> read_at 26 4 f = bytes_of_u32 peer"

definition frame :: "Q \<Rightarrow> nat \<Rightarrow> u8 list" where
  "frame q j = read_at (j * unat (bsz q)) (34 + nat (blen (R q ! j))) (pool q)"

definition frames :: "Q \<Rightarrow> u8 list list" where
  "frames q = map (frame q) (live q)"

definition rx_inv :: "nat \<Rightarrow> u32 \<Rightarrow> Q \<Rightarrow> bool" where
  "rx_inv cap peer q \<longleftrightarrow> quiet cap q \<and> (\<forall>f \<in> set (frames q). from_peer cap peer f)"

definition rx_put :: "u32 \<Rightarrow> u8 list \<Rightarrow> Q \<Rightarrow> Q option" where
  "rx_put peer f q = (case rx_io_queue peer [data_event f] q of Some (Inr (_, q')) \<Rightarrow> Some q' | _ \<Rightarrow> None)"

definition rx_get :: "Q \<Rightarrow> (u8 list option \<times> Q) option" where
  "rx_get q = (case rx_queue q of Some (Inr (_, p, q')) \<Rightarrow> Some (p, q') | _ \<Rightarrow> None)"

lemma set_blen_twice: "set_blen j n (set_blen j m q) = set_blen j n q"
  by (simp add: set_blen_def upd_at_twice)

lemma rx_put_law:
  assumes "rx_inv cap peer q" and "from_peer cap peer f" and "0 < room q"
  shows "\<exists>q'. rx_put peer f q = Some q' \<and> rx_inv cap peer q' \<and> frames q' = frames q @ [f] \<and>
           room q \<le> Suc (room q')"
proof -
  have qt: "quiet cap q" using assms(1) by (simp add: rx_inv_def)
  note qd = quietD [OF qt]
  let ?j = "unat (q_in q)" and ?b = "unat (bsz q)" and ?n = "int (length f) - 34"
  let ?q1 = "set_slot_lock ?j 1 q"
  have j: "?j < unat (rsz q)" using assms(3) by (simp add: room_def)
  have f: "48 < length f" "length f \<le> cap + 34" "read_at 26 4 f = bytes_of_u32 peer"
    using assms(2) by (auto simp: from_peer_def)
  have "geom ?q1" using qd(2,8) j by (simp add: geom_set_slot_lock)
  then obtain mem where
    poll: "rx_io_poll peer ?j (data_event f) ?q1 = Inr (False, (set_blen ?j (int (length f)) ?q1)\<lparr>pool := mem\<rparr>)"
    and mem: "untouched (?j * ?b) (?j * ?b + 34 + cap) (pool q) mem" "read_at (?j * ?b) (length f) mem = f"
    using rx_store [of ?q1 cap ?j f peer] qd(3,8) j f by auto
  define q' where "q' = (set_blen ?j ?n q)\<lparr>pool := mem, sz := sz q + 1,
      q_in := (if rsz q \<le> q_in q + 1 then 0 else q_in q + 1)\<rparr>"
  have len: "length mem = length (pool q)" using mem(1) by (rule untouched_length)
  have n: "14 < ?n" "?n \<le> int cap" using f by linarith+
  note pub = quiet_publish [OF qt assms(3) len n, folded q'_def]
  have "sz q < rsz q" using qd(6) j by (simp add: word_less_nat_alt)
  then have "commit_push ?j ((set_blen ?j ?n ?q1)\<lparr>pool := mem\<rparr>) = q'"
    unfolding q'_def using qd(5,8) j by (intro commit_push_effect) auto
  then have put: "rx_put peer f q = Some q'"
    using push_quiet [OF qt assms(3)] poll qd(8) j
    by (simp add: rx_put_def rx_io_queue_def set_blen_pool set_blen_twice frame_consts)
  have sel: "bsz q' = bsz q" "pool q' = mem" by (simp_all add: q'_def)
  have blen': "blen (R q' ! i) = (if i = ?j then ?n else blen (R q ! i))" for i
    using qd(8) j by (simp add: q'_def)
  have region: "untouched (?j * ?b + 0) (?j * ?b + (34 + cap)) (pool q) mem" using mem(1) by (simp add: add.assoc)
  have "frame q' i = frame q i" if i: "i \<in> set (live q)" for i
  proof -
    have "i \<noteq> ?j" using i by (auto simp: live_def)
    have "read_at (i * ?b + 0) (34 + nat (blen (R q ! i))) mem =
        read_at (i * ?b + 0) (34 + nat (blen (R q ! i))) (pool q)"
      using qd(7) [OF i] qd(3) by (intro other_block [OF region _ \<open>i \<noteq> ?j\<close>]) linarith+
    with \<open>i \<noteq> ?j\<close> show ?thesis by (simp add: frame_def sel blen')
  qed
  moreover have "frame q' ?j = f"
  proof -
    have "34 + nat ?n = length f" using f(1) by simp
    then show ?thesis using mem(2) by (simp only: frame_def sel blen' simp_thms if_True)
  qed
  ultimately have fr: "frames q' = frames q @ [f]" by (simp add: frames_def pub(2))
  moreover have "rx_inv cap peer q'" using pub(1) assms(1,2) fr by (auto simp: rx_inv_def)
  moreover have "room q \<le> Suc (room q')" using pub(3) by simp
  ultimately show ?thesis using put by blast
qed

lemma rx_get_law:
  assumes "rx_inv cap peer q" and "frames q = f # fs"
  shows "\<exists>p q'. rx_get q = Some (Some p, q') \<and> p = drop 34 f \<and> rx_inv cap peer q' \<and>
           frames q' = fs \<and> room q \<le> room q'"
proof -
  have qt: "quiet cap q" using assms(1) by (simp add: rx_inv_def)
  note qd = quietD [OF qt]
  let ?j = "unat (q_out q)"
  define q' where "q' = (set_blen ?j (- 1) q)\<lparr>q_out := q_out q + 1, sz := sz q - 1\<rparr>"
  have sz: "sz q \<noteq> 0" using live_Nil [OF qt] assms(2) by (auto simp: frames_def)
  note rel = quiet_release [OF qt sz, folded q'_def] and keep = payloads_release [OF qt sz, folded q'_def]
  have j: "?j \<in> set (live q)" by (simp add: rel(2))
  note j' = qd(9) [OF j]
  have sel: "bsz q' = bsz q" "pool q' = pool q" by (simp_all add: q'_def)
  have len: "14 < blen (R q ! ?j)" "blen (R q ! ?j) \<le> int cap" using qd(7) [OF j] by auto
  let ?n = "nat (blen (R q ! ?j))"
  have pool: "?j * unat (bsz q) + 34 + ?n \<le> length (pool q)"
    using geom_pool [OF qd(2) j'] qd(3) len by linarith
  have "f = frame q ?j" using assms(2) by (simp add: frames_def rel(2))
  moreover have "drop 34 (frame q ?j) = read_at (?j * unat (bsz q) + 34) ?n (pool q)"
    using read_at_within [of 34 ?n "34 + ?n" "?j * unat (bsz q)" "pool q"] pool
    by (simp add: frame_def) (simp add: read_at_def)
  moreover have "unat (q_in q) < unat (rsz q)" by (rule ring_wfD(3) [OF qd(1)])
  note pop = pop_quiet [OF qt sz this]
  have "commit_pop ?j (set_slot_lock ?j 1 (q\<lparr>q_out := q_out q + 1\<rparr>)) = q'"
    unfolding q'_def using qd(5,8) j' sz by (intro commit_pop_effect) auto
  moreover have "R (set_slot_lock ?j 1 (q\<lparr>q_out := q_out q + 1\<rparr>)) ! ?j = (R q ! ?j)\<lparr>block_lock := 1\<rparr>"
    using qd(8) j' by (simp add: set_slot_lock_def)
  moreover have "ethernet_frame (R q ! ?j) = ?j * unat (bsz q)" using geom_fields(1) [OF qd(2)] qd(8) j' by simp
  ultimately have "rx_get q = Some (Some (drop 34 f), q')"
    using pop len(1) pool by (simp add: rx_get_def rx_queue_def Let_def frame_consts)
  moreover have fr: "frames q' = fs"
    using assms(2) keep(1) by (auto simp: frames_def rel(2) frame_def sel)
  moreover have "rx_inv cap peer q'" using assms rel(1) fr by (auto simp: rx_inv_def)
  ultimately show ?thesis using rel(3) by auto
qed

lemma rx_get_empty:
  assumes "rx_inv cap peer q" and "frames q = []"
  shows "\<exists>q'. rx_get q = Some (None, q') \<and> rx_inv cap peer q' \<and> frames q' = [] \<and> room q \<le> room q'"
proof -
  have qt: "quiet cap q" using assms(1) by (simp add: rx_inv_def)
  have sz: "sz q = 0" using live_Nil [OF qt] assms(2) by (simp add: frames_def)
  note em = emptied_quiet [OF qt sz]
  have "rx_get q = Some (None, next_interval (emptied q))"
    using pop_empty [of q] quietD(4) [OF qt] sz by (simp add: rx_get_def rx_queue_def emptied_def)
  then show ?thesis using em by (simp add: rx_inv_def frames_def)
qed

interpretation rx_ring: bounded_fifo "rx_put peer" rx_get "rx_inv cap peer" frames room "from_peer cap peer"
  "\<lambda>p f. p = drop 34 f" for cap peer
  by unfold_locales (fact rx_put_law rx_get_law rx_get_empty | simp add: rx_inv_def)+

section \<open>The tunnel\<close>

text \<open>
  A sending ring whose headers hold the address the receiving side expects, and a receiving
  ring with blocks at least as large, form a link.
\<close>

definition sends_as :: "headers \<Rightarrow> u32 \<Rightarrow> bool" where
  "sends_as hdr ip \<longleftrightarrow> read_at 12 4 (iph hdr) = bytes_of_u32 ip"

lemma encapsulated_from_peer:
  assumes "fits cap p" and "encapsulates hdr f p" and "sends_as hdr peer" and "cap \<le> cap'"
  shows "from_peer cap' peer f"
proof -
  have "read_at 26 4 f = take 4 (read_at 26 8 f)" by (simp add: read_at_def)
  also have "\<dots> = take 4 (read_at 12 8 (iph hdr))" using assms(2) by (simp add: encapsulates_def)
  also have "\<dots> = bytes_of_u32 peer" using assms(3) by (simp add: sends_as_def read_at_def)
  finally show ?thesis using assms(1,2,4) by (simp add: from_peer_def fits_def encapsulates_def)
qed

interpretation tunnel: fifo_link
  tx_put tx_get "\<lambda>q. tx_inv cap hdr q \<and> sends_as hdr peer" payloads room "fits cap"
  "\<lambda>f p. encapsulates hdr f p \<and> sends_as hdr peer"
  "rx_put peer" rx_get "rx_inv (cap + spare) peer" frames room "from_peer (cap + spare) peer"
  "\<lambda>p f. p = drop 34 f" "drop 34"
  for cap hdr peer spare
proof (unfold_locales)
  fix q p ps
  show "tx_inv cap hdr q \<and> sends_as hdr peer \<Longrightarrow> fits cap p \<Longrightarrow> 0 < room q \<Longrightarrow>
      \<exists>q'. tx_put p q = Some q' \<and> (tx_inv cap hdr q' \<and> sends_as hdr peer) \<and>
        payloads q' = payloads q @ [p] \<and> room q \<le> Suc (room q')"
    using tx_ring.enq_law by blast
  show "tx_inv cap hdr q \<and> sends_as hdr peer \<Longrightarrow> payloads q = p # ps \<Longrightarrow>
      \<exists>f q'. tx_get q = Some (Some f, q') \<and> (encapsulates hdr f p \<and> sends_as hdr peer) \<and>
        (tx_inv cap hdr q' \<and> sends_as hdr peer) \<and> payloads q' = ps \<and> room q \<le> room q'"
    using tx_ring.deq_law by blast
  show "tx_inv cap hdr q \<and> sends_as hdr peer \<Longrightarrow> payloads q = [] \<Longrightarrow>
      \<exists>q'. tx_get q = Some (None, q') \<and> (tx_inv cap hdr q' \<and> sends_as hdr peer) \<and>
        payloads q' = [] \<and> room q \<le> room q'"
    using tx_ring.deq_empty_law by blast
  show "tx_inv cap hdr q \<and> sends_as hdr peer \<Longrightarrow> p \<in> set (payloads q) \<Longrightarrow> fits cap p"
    using tx_ring.contents_ok by blast
next
  fix p f
  show "fits cap p \<Longrightarrow> encapsulates hdr f p \<and> sends_as hdr peer \<Longrightarrow>
      from_peer (cap + spare) peer f \<and> drop 34 f = p"
    using encapsulated_from_peer [of cap p hdr f peer "cap + spare"] by (simp add: encapsulates_def)
qed

section \<open>A ring after initialisation\<close>

text \<open>
  Initialisation gives a ring that is ready for both uses, provided that the cursors it does
  not write were zero before.
\<close>

lemma read_at_part: "read_at a n xs = ys \<Longrightarrow> k + m \<le> n \<Longrightarrow> read_at (a + k) m xs = read_at k m ys"
  using read_at_within by blast

lemma init_ring_ready:
  assumes "init_ok calloc bytes chunks hdr" and "2 * (chunks + 4) \<le> bytes"
    and zero: "q_in q = 0" "q_out q = 0" "sz q = 0"
  shows "\<exists>q'. init_ring_buffer calloc q bytes chunks hdr = Inr q' \<and> tx_inv (nat chunks - 34) hdr q' \<and>
           rx_inv (nat chunks - 34) peer q' \<and> payloads q' = [] \<and> frames q' = [] \<and>
           room q' = nat bytes div nat (chunks + 4) - 1"
proof -
  define b where "b = nat (chunks + 4)"
  define n where "n = nat bytes div b"
  from init_ring_result [OF assms(1), of q, folded b_def, folded n_def] obtain mem where
    init: "init_ring_buffer calloc q bytes chunks hdr = Inr (q\<lparr>bsz := of_nat b, rsz := of_nat n,
      R := map (block_desc b) [0..<n], pool := mem, qlock := 0, full := 0\<rparr>)"
    and mem: "length mem = (n + 1) * b" "\<forall>i < n. block_bytes b hdr mem i" by blast
  define q' where "q' = q\<lparr>bsz := of_nat b, rsz := of_nat n, R := map (block_desc b) [0..<n],
      pool := mem, qlock := 0, full := 0\<rparr>"
  from assms(1) have c: "34 \<le> chunks" "bytes < 2 ^ 31" by (auto simp: init_ok_def)
  then have b: "38 \<le> b" "b < 2 ^ 32" "b = nat chunks - 34 + 38" using assms(2) by (auto simp: b_def)
  have "2 * b \<le> nat bytes" using assms(2) c by (simp add: b_def)
  then have n2: "2 \<le> n" using b(1) div_le_mono [of "2 * b" "nat bytes" b] by (simp add: n_def)
  have "n \<le> nat bytes" by (simp add: n_def)
  moreover have "nat bytes < 2 ^ 31" using c by simp
  ultimately have n32: "n < 2 ^ 32" by simp
  have w: "unat (of_nat b :: u32) = b" "unat (of_nat n :: u32) = n"
    using b(2) n32 by (simp_all add: unat_of_nat_u32)
  have "ring_wf q'" using zero n2 w by (auto simp: ring_wf_def q'_def word_less_nat_alt list_all_iff block_desc_def)
  moreover have "geom q'" using w b(1) mem(1) by (auto simp: geom_def q'_def frame_at_block_desc)
  moreover have live: "live q' = []" using zero by (simp add: live_def q'_def)
  ultimately have qt: "quiet (nat chunks - 34) q'"
    using w b zero by (auto simp: quiet_def q'_def block_desc_def)
  have "stamped hdr q' j" if "j < n" for j
  proof -
    have hdrs: "read_at (j * b) 14 mem = eh hdr" "read_at (j * b + 14) 20 mem = iph hdr"
      using mem(2) that by (auto simp: block_bytes_def)
    from read_at_part [OF hdrs(2), of 12 8] have "read_at (j * b + 26) 8 mem = read_at 12 8 (iph hdr)"
      by (simp add: add.assoc)
    with hdrs(1) w show ?thesis by (simp add: stamped_def q'_def)
  qed
  then have "tx_inv (nat chunks - 34) hdr q'" using qt live w by (simp add: tx_inv_def q'_def)
  moreover have "rx_inv (nat chunks - 34) peer q'" using qt live by (simp add: rx_inv_def frames_def)
  moreover have "room q' = n - 1" using zero w by (simp add: room_def q'_def)
  moreover have "init_ring_buffer calloc q bytes chunks hdr = Inr q'" using init by (simp add: q'_def)
  moreover have "payloads q' = []" "frames q' = []" using live by (simp_all add: payloads_def frames_def)
  ultimately show ?thesis unfolding n_def b_def by blast
qed


text \<open>It is blank: its cursors are at the start and no slot holds anything.\<close>

definition blank :: "Q \<Rightarrow> bool" where
  "blank q \<longleftrightarrow> q_in q = 0 \<and> q_out q = 0 \<and> sz q = 0 \<and> full q = 0 \<and> list_all (\<lambda>b. blen b = 0) (R q)"

lemma blank_qid [simp]: "blank (q\<lparr>qid := x\<rparr>) = blank q"
  by (simp add: blank_def)

lemma init_ring_blank:
  assumes "init_ok calloc bytes chunks hdr" and "q_in q = 0" "q_out q = 0" "sz q = 0"
    and "init_ring_buffer calloc q bytes chunks hdr = Inr q'"
  shows "blank q'"
  using init_ring_result [OF assms(1), of q] assms(2-5) by (auto simp: blank_def list_all_iff block_desc_def)


lemma init_ring_valid:
  assumes "init_ok calloc bytes chunks hdr" and "init_ring_buffer calloc q bytes chunks hdr = Inr q'"
  shows "\<forall>i < unat (rsz q'). valid_RNG (pool q') (R q' ! i)"
proof -
  have "list_all (valid_RNG (pool q')) (R q')"
    using assms(2) by (auto simp: init_ring_buffer_def Let_def list_all_iff split: if_splits sum.splits prod.splits)
  moreover from init_ring_result [OF assms(1), of q] assms(2) have
    "R q' = map (block_desc (nat (chunks + 4))) [0..<nat bytes div nat (chunks + 4)]"
    "rsz q' = of_nat (nat bytes div nat (chunks + 4))" by auto
  moreover have "nat bytes div nat (chunks + 4) < 2 ^ 32"
    using assms(1) by (intro le_less_trans [OF div_le_dividend]) (auto simp: init_ok_def)
  ultimately show ?thesis by (simp add: list_all_length unat_of_nat_u32)
qed

section \<open>The last slot\<close>

lemma rsz_pred: "ring_wf q \<Longrightarrow> unat (rsz q - 1) = unat (rsz q) - 1"
  using ring_wfD(2) [of q] by (intro unat_pred) auto

lemma tx_put_at_last:
  assumes "quiet cap q" and "fits cap p" and "q_in q = rsz q - 1" and "sz q = 0"
  obtains mem where "tx_put p q = Some ((set_blen (unat (q_in q)) (int (length p)) q)\<lparr>pool := mem,
      sz := 1, q_in := 0\<rparr>)"
proof -
  note qd = quietD [OF assms(1)]
  note wf = ring_wfD [OF qd(1)]
  have last: "unat (q_in q) = unat (rsz q) - 1" using assms(3) rsz_pred [OF qd(1)] by simp
  have "q_in q = q_out q" using qd(6) assms(4) by (simp add: word_eq_iff_unat)
  moreover have "\<not> rsz q - 1 \<le> sz q" using assms(3,4) last wf(2) by (simp add: word_le_nat_alt)
  ultimately have "push q = Some (Inr (Slot (unat (q_in q)), set_slot_lock (unat (q_in q)) 1 q))"
    using push_unlocked [OF qd(1,4)] qd(5) wf(3) by simp
  moreover have "sz q < rsz q" using assms(4) wf(2) by (simp add: word_less_nat_alt)
  ultimately show ?thesis
    using tx_put_effect [OF qd(2,3,8) assms(2) wf(3) qd(5) [OF wf(3)]] that assms(3,4) by auto
qed

lemma pop_past_last:
  fixes n :: int and mem :: "u8 list"
  assumes "quiet cap q" and "q_in q = rsz q - 1" and "sz q = 0"
  defines "q1 \<equiv> (set_blen (unat (q_in q)) n q)\<lparr>pool := mem, sz := 1, q_in := 0\<rparr>"
  shows "pop q1 = Some (Inr (Slot 0, set_slot_lock 0 1 (q1\<lparr>q_out := 1\<rparr>)))"
proof -
  note qd = quietD [OF assms(1)]
  note wf = ring_wfD [OF qd(1)]
  have out: "q_out q1 = rsz q1 - 1" using qd(6) assms(2,3) by (simp add: q1_def word_eq_iff_unat)
  have "ring_wf q1"
    using ring_wf_set_blen [OF qd(1), of "unat (q_in q)" n] by (simp add: q1_def ring_wf_def word_less_nat_alt)
  moreover have "q_in q1 \<noteq> q_out q1"
  proof -
    have "1 \<le> unat (rsz q1 - 1)" using wf(2) rsz_pred [OF qd(1)] by (simp add: q1_def)
    then show ?thesis using out by (auto simp: q1_def)
  qed
  moreover have "pop_start q1 = 0" by (simp add: pop_start_def out)
  moreover have "block_lock (R q1 ! 0) = 0" using qd(5) [of 0] qd(8) wf(2,3) by (simp add: q1_def)
  ultimately show ?thesis using pop_outcome [of q1 0 0] qd(4) wf(2) by (simp add: q1_def)
qed

section \<open>Properties\<close>

text \<open>An initialised ring of three blocks with room for payloads of 15 bytes, for examples.\<close>

lemma sample_ready:
  obtains q where "tx_inv 15 sample_headers q" "rx_inv 15 peer q" "payloads q = []" "frames q = []" "room q = 2"
proof -
  have "init_ok (\<lambda>_ _. True) 200 49 sample_headers"
    by (simp add: init_ok_def headers_ok_def sample_headers_def)
  from init_ring_ready [OF this, of "sample_ring [] 0 0 0" peer] that show ?thesis by auto
qed

lemma sample_sends_as: "sends_as sample_headers 0x0100000a"
  by code_simp

lemma tunnel_delivers:
  assumes "tx_inv cap hdr q" and "sends_as hdr ip" and "rx_inv (cap + spare) ip r"
    and "\<forall>p \<in> set (sent ops). fits cap p"
    and "length (sent ops) \<le> room q" and "length (payloads q) + length (sent ops) \<le> room r"
  shows "\<exists>q' r' got. run_all (link_step tx_put tx_get (rx_put ip) rx_get) ops (q, r, []) = Some (q', r', got) \<and>
    got @ map (drop 34) (frames r') @ payloads q' = map (drop 34) (frames r) @ payloads q @ sent ops"
proof -
  have "tunnel.linked_ok cap hdr ip spare (length (sent ops)) (q, r, [])"
    unfolding tunnel.linked_ok_def using assms by simp
  from tunnel.conservation [OF this assms(4)] show ?thesis
    by (auto simp: tunnel.in_flight_def split: prod.splits)
qed

text \<open>
  C7: a sending and a receiving ring make a tunnel that neither loses, doubles nor reorders
  anything within a lap: under every schedule of \<^verbatim>\<open>tx_io\<close> reading a payload (\<open>Send\<close>), \<^verbatim>\<open>tx\<close>
  sending a frame that the peer's \<^verbatim>\<open>rx_io\<close> reads (\<open>Hop\<close>) and \<^verbatim>\<open>rx\<close> writing a payload out
  (\<open>Deliver\<close>), the run succeeds, and what was delivered, followed by what waits in the
  receiving and in the sending ring, is what was there at the start followed by what was sent.
\<close>

theorem tunnel_in_order:
  assumes "tx_inv cap hdr q" and "sends_as hdr ip" and "rx_inv (cap + spare) ip r"
    and "\<forall>p \<in> set (sent ops). fits cap p"
    and "length (sent ops) \<le> room q" and "length (payloads q) + length (sent ops) \<le> room r"
  shows "\<exists>q' r' got. run_all (link_step tx_put tx_get (rx_put ip) rx_get) ops (q, r, []) = Some (q', r', got) \<and>
    got @ map (drop 34) (frames r') @ payloads q' = map (drop 34) (frames r) @ payloads q @ sent ops"
  by (rule tunnel_delivers [OF assms])

theorem tunnel_in_order_witness:
  "\<exists>q r q' r' got. run_all (link_step tx_put tx_get (rx_put 0x0100000a) rx_get)
      [Send (replicate 15 1), Send (replicate 15 2), Hop, Deliver] (q, r, []) = Some (q', r', got) \<and>
    got @ map (drop 34) (frames r') @ payloads q' = [replicate 15 1, replicate 15 (2 :: u8)]"
proof -
  obtain q where q: "tx_inv 15 sample_headers q" "payloads q = []" "room q = 2"
    using sample_ready by blast
  obtain r where r: "rx_inv 15 0x0100000a r" "frames r = []" "room r = 2"
    using sample_ready by blast
  show ?thesis
    using tunnel_in_order [OF q(1) sample_sends_as, of 0 r
        "[Send (replicate 15 1), Send (replicate 15 2), Hop, Deliver]"] q r
    by (simp add: fits_def) blast
qed

text \<open>
  A sending ring is a queue: whatever \<^verbatim>\<open>tx_io\<close> and \<^verbatim>\<open>tx\<close> do, in any order within a lap, the
  frames sent carry the payloads read, in order, each behind the session's Ethernet header and
  addresses with a total length field that fits it; a pass over an empty ring sends nothing.
\<close>

theorem tx_ring_is_queue:
  assumes "tx_inv cap hdr q" and "\<forall>p \<in> set (enqueued ops). fits cap p" and "length (enqueued ops) \<le> room q"
  shows "\<exists>outs q'. fifo_run tx_put tx_get q ops = Some (outs, q') \<and> tx_inv cap hdr q' \<and>
    list_all2 (rel_option (encapsulates hdr)) outs (fst (list_run (payloads q) ops)) \<and>
    payloads q' = snd (list_run (payloads q) ops)"
  by (rule tx_ring.run_refines [OF assms])

theorem tx_ring_is_queue_witness:
  "\<exists>q outs q'. fifo_run tx_put tx_get q [Enq (replicate 15 7), Deq, Deq] = Some (outs, q') \<and>
    list_all2 (rel_option (encapsulates sample_headers)) outs [Some (replicate 15 7), None]"
proof -
  obtain q where q: "tx_inv 15 sample_headers q" "payloads q = []" "room q = 2" using sample_ready by blast
  from tx_ring_is_queue [OF q(1), of "[Enq (replicate 15 7), Deq, Deq]"] q(2,3) show ?thesis
    by (simp add: fits_def) blast
qed

text \<open>
  A receiving ring is a queue: whatever \<^verbatim>\<open>rx_io\<close> and \<^verbatim>\<open>rx\<close> do, in any order within a lap,
  \<^verbatim>\<open>rx\<close> writes out the payloads of the frames read from the peer, in order.
\<close>

theorem rx_ring_is_queue:
  assumes "rx_inv cap ip q" and "\<forall>f \<in> set (enqueued ops). from_peer cap ip f" and "length (enqueued ops) \<le> room q"
  shows "\<exists>outs q'. fifo_run (rx_put ip) rx_get q ops = Some (outs, q') \<and> rx_inv cap ip q' \<and>
    list_all2 (rel_option (\<lambda>p f. p = drop 34 f)) outs (fst (list_run (frames q) ops)) \<and>
    frames q' = snd (list_run (frames q) ops)"
  by (rule rx_ring.run_refines [OF assms])

theorem rx_ring_is_queue_witness:
  "\<exists>q outs q'. fifo_run (rx_put 0) rx_get q [Enq (replicate 49 0), Deq, Deq] = Some (outs, q') \<and>
    list_all2 (rel_option (\<lambda>p f. p = drop 34 f)) outs [Some (replicate 49 0), None]"
proof -
  obtain q where q: "rx_inv 15 0 q" "frames q = []" "room q = 2" using sample_ready by blast
  have "from_peer 15 0 (replicate 49 0)" by code_simp
  with rx_ring_is_queue [OF q(1), of "[Enq (replicate 49 0), Deq, Deq]"] q(2,3) show ?thesis
    by simp blast
qed

text \<open>
  The end of a lap breaks the order: a payload put into the last slot of a drained ring is
  never sent. The next pass of \<^verbatim>\<open>tx\<close> takes the released slot 0 instead, sends nothing, and
  leaves the ring counted as empty with its cursors past the payload.
\<close>

theorem last_slot_lost:
  assumes "quiet cap q" and "fits cap p" and "q_in q = rsz q - 1" and "sz q = 0"
    and "blen (R q ! 0) \<le> 14"
  shows "\<exists>q1 q2. tx_put p q = Some q1 \<and> sz q1 = 1 \<and> tx_get q1 = Some (None, q2) \<and>
    sz q2 = 0 \<and> q_in q2 = 0 \<and> q_out q2 = 1"
proof -
  note wf = ring_wfD [OF quietD(1) [OF assms(1)]]
  obtain mem where put: "tx_put p q = Some ((set_blen (unat (q_in q)) (int (length p)) q)\<lparr>pool := mem,
      sz := 1, q_in := 0\<rparr>)" using tx_put_at_last [OF assms(1-4)] by blast
  define q1 where "q1 = (set_blen (unat (q_in q)) (int (length p)) q)\<lparr>pool := mem, sz := 1, q_in := 0\<rparr>"
  have pop: "pop q1 = Some (Inr (Slot 0, set_slot_lock 0 1 (q1\<lparr>q_out := 1\<rparr>)))"
    unfolding q1_def by (rule pop_past_last [OF assms(1,3,4)])
  have "unat (q_in q) \<noteq> 0" using assms(3) wf(2) rsz_pred [OF quietD(1) [OF assms(1)]] by simp
  then have "blen (R (set_slot_lock 0 1 (q1\<lparr>q_out := 1\<rparr>)) ! 0) \<le> 14"
    using assms(5) wf(1-3) by (simp add: q1_def set_slot_lock_def)
  then have "tx_get q1 = Some (None, commit_pop 0 (set_slot_lock 0 1 (q1\<lparr>q_out := 1\<rparr>)))"
    using pop by (simp add: tx_get_def tx_queue_def Let_def)
  then show ?thesis using put
    by (intro exI [of _ q1] exI conjI) (auto simp: q1_def commit_pop_def unlock_slot_def Let_def)
qed

text \<open>Three blocks that have all been sent: both cursors are on the last.\<close>

lemma all_less_three: "(\<forall>j < Suc (Suc (Suc 0)). P j) \<longleftrightarrow> P 0 \<and> P (Suc 0) \<and> P (Suc (Suc 0))"
  by (auto simp: less_Suc_eq)

theorem last_slot_lost_witness:
  "\<exists>q1 q2. tx_put (replicate 15 7) (sample_ring [0, 0, 0] 2 2 0) = Some q1 \<and> sz q1 = 1 \<and>
     tx_get q1 = Some (None, q2) \<and> sz q2 = 0 \<and> q_in q2 = 0 \<and> q_out q2 = 1"
proof (rule last_slot_lost)
  let ?q = "sample_ring [0, 0, 0] 2 2 0"
  have R: "R ?q = [block_desc 53 0, block_desc 53 1, block_desc 53 (Suc (Suc 0))]"
    by (simp add: sample_ring_def upt_3 block_desc_def)
  have "geom ?q" unfolding geom_def R
    by (simp add: sample_ring_def frame_at_block_desc all_less_three)
  then show "quiet 15 ?q"
    unfolding quiet_def by (simp add: sample_ring_wf R all_less_three) (simp add: sample_ring_def block_desc_def)
  show "blen (R ?q ! 0) \<le> 14" by (simp add: R block_desc_def)
qed (simp_all add: fits_def sample_ring_def)

text \<open>
  C21: no payload that fits a block damages a guard word: after \<^verbatim>\<open>tx_io\<close> has stored one, every
  block of the ring still passes \<^verbatim>\<open>valid_RNG\<close>.
\<close>

theorem tx_io_keeps_guards:
  assumes "quiet cap q" and "fits cap p" and "0 < room q"
    and "\<forall>i < unat (rsz q). valid_RNG (pool q) (R q ! i)"
  shows "\<exists>q'. tx_put p q = Some q' \<and> (\<forall>i < unat (rsz q'). valid_RNG (pool q') (R q' ! i))"
proof -
  note qd = quietD [OF assms(1)]
  let ?j = "unat (q_in q)" and ?b = "unat (bsz q)"
  have j: "?j < unat (rsz q)" using assms(3) by (simp add: room_def)
  have "sz q < rsz q" using qd(6) j by (simp add: word_less_nat_alt)
  from tx_put_effect [OF qd(2,3,8) assms(2) j qd(5) [OF j] this push_quiet [OF assms(1,3)]]
  obtain mem where put: "tx_put p q = Some ((set_blen ?j (int (length p)) q)\<lparr>pool := mem,
      sz := sz q + 1, q_in := (if rsz q \<le> q_in q + 1 then 0 else q_in q + 1)\<rparr>)"
    and mem: "untouched (?j * ?b + 16) (?j * ?b + 34 + cap) (pool q) mem" by blast
  have region: "untouched (?j * ?b + 16) (?j * ?b + (34 + cap)) (pool q) mem" using mem by (simp add: add.assoc)
  have "valid_RNG mem (R (set_blen ?j (int (length p)) q) ! i)" if i: "i < unat (rsz q)" for i
  proof -
    have foot: "footer (R q ! i) = i * ?b + (34 + cap)"
      using qd(2,3,8) i by (simp add: geom_def frame_at_def)
    have "read_at (i * ?b + (34 + cap)) 4 mem = read_at (i * ?b + (34 + cap)) 4 (pool q)"
    proof (cases "i = ?j")
      case True
      then show ?thesis by (intro untouched_read [OF region]) simp
    next
      case False
      with qd(3) show ?thesis by (intro other_block [OF region]) simp_all
    qed
    moreover have "valid_RNG (pool q) (R q ! i)" using assms(4) i by blast
    ultimately have "valid_RNG mem (R q ! i)" unfolding valid_RNG_def foot by simp
    then show ?thesis using qd(8) j by (simp add: valid_RNG_def)
  qed
  with put show ?thesis by auto
qed

theorem tx_io_keeps_guards_witness:
  "\<exists>q q'. quiet 15 q \<and> tx_put (replicate 15 7) q = Some q' \<and>
     (\<forall>i < unat (rsz q'). valid_RNG (pool q') (R q' ! i))"
proof -
  have "init_ok (\<lambda>_ _. True) 200 49 sample_headers"
    by (simp add: init_ok_def headers_ok_def sample_headers_def)
  from init_ring_ready [OF this, of "sample_ring [] 0 0 0" 0] init_ring_valid [OF this, of "sample_ring [] 0 0 0"]
  obtain q where "tx_inv 15 sample_headers q" "room q = 2" "\<forall>i < unat (rsz q). valid_RNG (pool q) (R q ! i)"
    by auto
  with tx_io_keeps_guards [of 15 q "replicate 15 7"] show ?thesis
    by (auto simp: tx_inv_def fits_def)
qed

end
