(* ===== verification/Loops.thy ===== *)
theory Loops
  imports Traffic
begin

text \<open>
  The loops around the rings: what every pass of a traffic thread keeps, the queue index the
  producers advance, the source filter of \<^verbatim>\<open>rx_io\<close>, load balancing, and the start of workers.
\<close>

section \<open>Every pass keeps the ring well formed\<close>

lemma write_pool_wf: "write_pool off bs q = Inr q' \<Longrightarrow> ring_wf q \<Longrightarrow> ring_wf q'"
  by (auto simp: write_pool_def ring_wf_def split: sum.splits)

lemma read_into_wf: "read_into off j answer q = Inr q' \<Longrightarrow> ring_wf q \<Longrightarrow> ring_wf q'"
  by (auto simp: read_into_def ring_wf_set_blen write_pool_wf split: option.splits sum.splits)

lemma tx_encap_wf: "tx_encap j q = Inr q' \<Longrightarrow> ring_wf q \<Longrightarrow> ring_wf q'"
  by (auto simp: tx_encap_def Let_def split: sum.splits dest!: write_pool_wf)

lemma tx_io_poll_wf: "tx_io_poll j ev q = Inr q' \<Longrightarrow> ring_wf q \<Longrightarrow> ring_wf q'"
  by (auto simp: tx_io_poll_def split: sum.splits if_splits dest: read_into_wf tx_encap_wf)

lemma tx_io_fill_wf: "tx_io_fill j evs q = Some (Inr (q', evs')) \<Longrightarrow> ring_wf q \<Longrightarrow> ring_wf q'"
  by (induction j evs q rule: tx_io_fill.induct)
    (auto split: sum.splits if_splits dest: tx_io_poll_wf)

lemma rx_io_poll_wf: "rx_io_poll peer j ev q = Inr (nope, q') \<Longrightarrow> ring_wf q \<Longrightarrow> ring_wf q'"
  by (auto simp: rx_io_poll_def split: sum.splits if_splits dest: read_into_wf)

lemma rx_io_fill_wf: "rx_io_fill peer j evs q = Some (Inr (q', evs')) \<Longrightarrow> ring_wf q \<Longrightarrow> ring_wf q'"
  by (induction peer j evs q rule: rx_io_fill.induct)
    (auto split: sum.splits if_splits prod.splits intro: ring_wf_set_blen dest: rx_io_poll_wf)

lemma ring_wf_unlock_slot: "ring_wf q \<Longrightarrow> j < unat (rsz q) \<Longrightarrow> ring_wf (unlock_slot j q)"
  unfolding unlock_slot_def using ring_wfD(6) [of q j]
  by (intro ring_wf_set_slot_lock) auto

lemma commit_push_wf:
  assumes "ring_wf q" and "j < unat (rsz q)"
  shows "ring_wf (commit_push j q)"
proof -
  let ?q = "unlock_slot j q"
  have wf: "ring_wf ?q" by (rule ring_wf_unlock_slot [OF assms])
  have "0 < rsz ?q" using ring_wfD(2) [OF wf] by (simp add: word_less_nat_alt)
  then show ?thesis
    using wf by (auto simp: commit_push_def Let_def ring_wf_def not_le)
qed

lemma commit_pop_wf: "ring_wf q \<Longrightarrow> j < unat (rsz q) \<Longrightarrow> ring_wf (commit_pop j q)"
  unfolding commit_pop_def Let_def by (intro ring_wf_unlock_slot) (simp_all add: ring_wf_set_blen)

lemma next_interval_wf: "ring_wf q \<Longrightarrow> ring_wf (next_interval q)"
  by (simp add: next_interval_def ring_wf_def)

text \<open>The filling loops leave the number of slots alone.\<close>

lemma write_pool_rsz: "write_pool off bs q = Inr q' \<Longrightarrow> rsz q' = rsz q"
  by (auto simp: write_pool_def split: sum.splits)

lemma read_into_rsz: "read_into off j answer q = Inr q' \<Longrightarrow> rsz q' = rsz q"
  by (auto simp: read_into_def split: option.splits sum.splits dest: write_pool_rsz)

lemma tx_io_poll_rsz: "tx_io_poll j ev q = Inr q' \<Longrightarrow> rsz q' = rsz q"
  by (auto simp: tx_io_poll_def tx_encap_def Let_def split: sum.splits if_splits
      dest!: read_into_rsz write_pool_rsz)

lemma tx_io_fill_rsz: "tx_io_fill j evs q = Some (Inr (q', evs')) \<Longrightarrow> rsz q' = rsz q"
  by (induction j evs q rule: tx_io_fill.induct) (auto split: sum.splits if_splits dest: tx_io_poll_rsz)

lemma rx_io_poll_rsz: "rx_io_poll peer j ev q = Inr (nope, q') \<Longrightarrow> rsz q' = rsz q"
  by (auto simp: rx_io_poll_def split: sum.splits if_splits dest: read_into_rsz)

lemma rx_io_fill_rsz: "rx_io_fill peer j evs q = Some (Inr (q', evs')) \<Longrightarrow> rsz q' = rsz q"
  by (induction peer j evs q rule: rx_io_fill.induct)
    (auto split: sum.splits if_splits prod.splits dest: rx_io_poll_rsz)

lemma push_slot_below:
  assumes "ring_wf q" and "push q = Some (Inr (Slot j, q1))"
  shows "j < unat (rsz q1)"
proof -
  let ?f = "first_free (R q) (unat (q_in q)) (unat (rsz q) - unat (q_in q))"
  from assms(2) push_outcome [OF assms(1)] have f: "?f = Some j" and "rsz q1 = rsz q"
    by (cases ?f; auto split: if_splits)+
  then show ?thesis using first_free_Some [OF f] by auto
qed

lemma pop_slot_below:
  assumes "ring_wf q" and "pop q = Some (Inr (Slot j, q1))"
  shows "j < unat (rsz q1)"
  using assms by (cases rule: pop_cases) simp_all

lemma tx_io_queue_wf:
  assumes "ring_wf q" and "tx_io_queue evs q = Some (Inr (n, evs', q'))"
  shows "ring_wf q'"
  using assms push_wf [OF assms(1)] push_slot_below [OF assms(1)]
  by (auto simp: tx_io_queue_def split: option.splits sum.splits ring_ptr.splits
      intro!: commit_push_wf) (auto dest: tx_io_fill_rsz tx_io_fill_wf)

lemma rx_io_queue_wf:
  assumes "ring_wf q" and "rx_io_queue peer evs q = Some (Inr (evs', q'))"
  shows "ring_wf q'"
  using assms push_wf [OF assms(1)] push_slot_below [OF assms(1)]
  by (auto simp: rx_io_queue_def split: option.splits sum.splits ring_ptr.splits
      intro!: commit_push_wf) (auto dest: rx_io_fill_rsz rx_io_fill_wf)

lemma tx_queue_wf:
  assumes "ring_wf q" and "tx_queue q = Some (Inr (p, f, q'))"
  shows "ring_wf q'"
  using assms ring_wf_kept(2) [OF assms(1)] pop_slot_below [OF assms(1)]
  by (auto simp: tx_queue_def Let_def split: option.splits sum.splits ring_ptr.splits if_splits
      intro: commit_pop_wf next_interval_wf)

lemma rx_queue_wf:
  assumes "ring_wf q" and "rx_queue q = Some (Inr (p, f, q'))"
  shows "ring_wf q'"
  using assms ring_wf_kept(2) [OF assms(1)] pop_slot_below [OF assms(1)]
  by (auto simp: rx_queue_def Let_def split: option.splits sum.splits ring_ptr.splits if_splits
      intro: commit_pop_wf next_interval_wf)


section \<open>The queue index\<close>

lemma next_queue_below:
  assumes "unat i < nat n" and "n < 2 ^ 31"
  shows "unat (next_queue i n) = unat i + 1"
proof -
  have "unat (of_int n :: u32) = nat n" using assms by (intro unat_of_int_u32) auto
  then have "i < of_int n" using assms(1) by (simp add: word_less_nat_alt)
  then show ?thesis using unat_suc_below [of i "of_int n"] by (simp add: next_queue_def)
qed

lemma next_queue_orbit:
  assumes "m \<le> nat n" and "n < 2 ^ 31"
  shows "unat (((\<lambda>i. next_queue i n) ^^ m) 0) = m"
  using assms(1)
proof (induction m)
  case (Suc m)
  then show ?case using next_queue_below [OF _ assms(2), of "((\<lambda>i. next_queue i n) ^^ m) 0"] by simp
qed simp

section \<open>The source filter\<close>

lemma rx_io_poll_accepts:
  assumes "rx_io_poll peer j ev q = Inr (False, q')"
  shows "read_at (ipheader (R q' ! j) + 12) 4 (pool q') = bytes_of_u32 peer \<and> 1 \<le> blen (R q' ! j)"
  using assms by (auto simp: rx_io_poll_def split: sum.splits if_splits)

lemma rx_io_fill_accepts:
  assumes "rx_io_fill peer j evs q = Some (Inr (q', evs'))"
  obtains q1 where "q' = set_blen j (blen (R q1 ! j) - int ETHIP4) q1"
    and "read_at (ipheader (R q1 ! j) + 12) 4 (pool q1) = bytes_of_u32 peer" and "1 \<le> blen (R q1 ! j)"
  using assms
proof (induction peer j evs q rule: rx_io_fill.induct)
  case (2 peer j ev evs q)
  show ?case
  proof (cases "rx_io_poll peer j ev q")
    case (Inr r)
    obtain nope q1 where r: "r = (nope, q1)" by (cases r)
    show ?thesis
    proof (cases nope)
      case True
      with Inr r 2 show ?thesis by simp
    next
      case False
      with Inr r 2(3) have "q' = set_blen j (blen (R q1 ! j) - int ETHIP4) q1" by simp
      moreover have "rx_io_poll peer j ev q = Inr (False, q1)" using Inr r False by simp
      ultimately show ?thesis using 2(2) rx_io_poll_accepts [of peer j ev q q1] by blast
    qed
  qed (use 2(3) in simp)
qed simp

section \<open>Load balancing\<close>

text \<open>The scan returns the first index at which the smallest size occurs.\<close>

lemma lb_scan_least:
  assumes "i = length seen" and "lowest < length seen" and "sz (seen ! lowest) = smallest"
    and "\<forall>x < length seen. smallest \<le> sz (seen ! x)" and "\<forall>x < lowest. smallest < sz (seen ! x)"
    and "qs \<noteq> []"
  shows "\<exists>k < length (seen @ qs). lb_scan i lowest smallest qnow qs = int k \<and>
    (\<forall>x < length (seen @ qs). sz ((seen @ qs) ! k) \<le> sz ((seen @ qs) ! x)) \<and>
    (\<forall>x < k. sz ((seen @ qs) ! k) < sz ((seen @ qs) ! x))"
  using assms
proof (induction qs arbitrary: seen i lowest smallest qnow)
  case (Cons q qs)
  define low where "low = (if sz q < smallest then i else lowest)"
  define small where "small = (if sz q < smallest then sz q else smallest)"
  have step: "lb_scan i lowest smallest qnow (q # qs) = lb_scan (Suc i) low small (int low) qs"
    by (simp add: low_def small_def)
  have at: "low < length (seen @ [q])" "sz ((seen @ [q]) ! low) = small"
    using Cons.prems(1-3) by (simp_all add: nth_append low_def small_def)
  have least: "small \<le> sz ((seen @ [q]) ! x)" if "x < length (seen @ [q])" for x
    using Cons.prems(4) that by (fastforce simp: nth_append less_Suc_eq small_def)
  have first: "small < sz ((seen @ [q]) ! x)" if "x < low" for x
    using Cons.prems(1,2,4,5) that by (fastforce simp: nth_append low_def small_def split: if_splits)
  show ?case
  proof (cases "qs = []")
    case True
    have "lb_scan i lowest smallest qnow (q # qs) = int low" by (simp add: True low_def)
    then show ?thesis using at least first True by (intro exI [of _ low]) auto
  next
    case False
    have "Suc i = length (seen @ [q])" using Cons.prems(1) by simp
    from Cons.IH [OF this at _ _ False, of "int low"] least first show ?thesis by (simp only: step) simp
  qed
qed simp

section \<open>Worker start\<close>

text \<open>Starting \<open>n\<close> workers of a session one after the other; the queue indices they take.\<close>

fun start_workers :: "nat \<Rightarrow> txq \<Rightarrow> (nat list \<times> txq) res" where
  "start_workers 0 h = Inr ([], h)"
| "start_workers (Suc n) h =
     (case worker_start h of
        Inl e \<Rightarrow> Inl e
      | Inr (i, h1) \<Rightarrow> (case start_workers n h1 of Inl e \<Rightarrow> Inl e | Inr (js, h2) \<Rightarrow> Inr (i # js, h2)))"

lemma start_workers_ids:
  assumes "unat (tx_id h) + n \<le> length (tx_q h)" and "length (tx_q h) < 2 ^ 32"
  shows "\<exists>h'. start_workers n h = Inr ([unat (tx_id h)..<unat (tx_id h) + n], h') \<and>
           unat (tx_id h') = unat (tx_id h) + n \<and> length (tx_q h') = length (tx_q h)"
  using assms
proof (induction n arbitrary: h)
  case (Suc n)
  let ?i = "unat (tx_id h)"
  obtain h1 where h1: "worker_start h = Inr (?i, h1)" "tx_id h1 = tx_id h + 1" "length (tx_q h1) = length (tx_q h)"
    using Suc.prems by (simp add: worker_start_def Let_def)
  have "unat (tx_id h + 1) = ?i + 1"
    using Suc.prems unat_suc_below [of "tx_id h" "of_nat (length (tx_q h))"]
    by (simp add: word_less_nat_alt unat_of_nat_u32)
  with Suc.IH [of h1] Suc.prems h1 obtain h2 where "start_workers n h1 = Inr ([Suc ?i..<Suc ?i + n], h2)"
    "unat (tx_id h2) = Suc ?i + n" "length (tx_q h2) = length (tx_q h)" by auto
  moreover have "[?i..<?i + Suc n] = ?i # [Suc ?i..<Suc ?i + n]" by (simp add: upt_conv_Cons)
  ultimately show ?case using h1(1) by simp
qed auto

section \<open>Properties\<close>

text \<open>
  C18: one pass of any traffic thread over a well-formed ring leaves it well formed, whatever
  arrives: the number of descriptors, the cursors inside the array, the lock words at 0 or 1.
\<close>

theorem ring_wf_preserved:
  assumes "ring_wf q"
  shows "(\<forall>evs n evs' q'. tx_io_queue evs q = Some (Inr (n, evs', q')) \<longrightarrow> ring_wf q') \<and>
    (\<forall>p f q'. tx_queue q = Some (Inr (p, f, q')) \<longrightarrow> ring_wf q') \<and>
    (\<forall>ip evs evs' q'. rx_io_queue ip evs q = Some (Inr (evs', q')) \<longrightarrow> ring_wf q') \<and>
    (\<forall>p f q'. rx_queue q = Some (Inr (p, f, q')) \<longrightarrow> ring_wf q') \<and> ring_wf (reset_ring q)"
  using tx_io_queue_wf [OF assms] tx_queue_wf [OF assms] rx_io_queue_wf [OF assms] rx_queue_wf [OF assms]
    reset_ring_wf [OF assms] by blast

theorem ring_wf_preserved_witness:
  "\<exists>p f q'. tx_queue (sample_ring [0, 1, 0] 1 0 1) = Some (Inr (p, f, q')) \<and> ring_wf q' \<and>
     ring_wf (reset_ring (sample_ring [0, 1, 0] 1 0 1))"
proof -
  let ?q = "sample_ring [0, 1, 0] 1 0 1"
  have "\<exists>q'. tx_queue ?q = Some (Inr (Again, None, q'))"
    by (simp add: tx_queue_def pop_def sample_ring_def atomic_lock_def val_compare_and_swap_def Let_def upt_3
        pop_scan.simps set_slot_lock_def unlock_queue_def block_desc_def)
  moreover have "ring_wf ?q" by (simp add: sample_ring_wf)
  ultimately show ?thesis using ring_wf_preserved [of ?q] by blast
qed

text \<open>
  The producers' queue index runs from 0 to \<open>qnum\<close> inclusive, one more than there are
  queues: the pass that follows the one on the last queue uses an index outside the array, in
  \<^verbatim>\<open>tx_io\<close>, which starts behind queue 0, and in \<^verbatim>\<open>rx_io\<close>.
\<close>

theorem dispatch_leaves_array:
  assumes "0 < qnum" and "qnum < 2 ^ 31"
    and "tx_qnum h = qnum" and "length (tx_q h) = nat qnum"
    and "rx_qnum g = qnum" and "length (rx_q g) = nat qnum"
  shows "tx_io_iter (((\<lambda>i. next_queue i qnum) ^^ (nat qnum - 1)) 0) evs h = Some (Inl (Fault OutOfBounds)) \<and>
    rx_io_iter (((\<lambda>i. next_queue i qnum) ^^ nat qnum) 0) evs g = Some (Inl (Fault OutOfBounds))"
proof
  let ?i = "((\<lambda>i. next_queue i qnum) ^^ (nat qnum - 1)) 0"
  have "unat ?i = nat qnum - 1" by (rule next_queue_orbit) (use assms in auto)
  then have "unat (next_queue ?i qnum) = nat qnum" using next_queue_below [OF _ assms(2), of ?i] assms(1) by simp
  then show "tx_io_iter ?i evs h = Some (Inl (Fault OutOfBounds))" using assms(3,4) by (simp add: tx_io_iter_def)
  have "unat (((\<lambda>i. next_queue i qnum) ^^ nat qnum) 0) = nat qnum" by (rule next_queue_orbit) (use assms in auto)
  then show "rx_io_iter (((\<lambda>i. next_queue i qnum) ^^ nat qnum) 0) evs g = Some (Inl (Fault OutOfBounds))"
    using assms(6) by (simp add: rx_io_iter_def)
qed

definition sample_sll :: sockaddr_ll where
  "sample_sll = \<lparr>sll_family = 0, sll_protocol = 0, sll_ifindex = 0, sll_halen = 0, sll_addr = []\<rparr>"

definition sample_txq :: "Q list \<Rightarrow> txq" where
  "sample_txq qs = \<lparr>tx_type = 90, tx_ifname = ''eth1'', tx_tifname = ''tap0'', tx_id = 0, tx_fd = 5, tx_af = 6,
     tx_mtu = 49, tx_qnum = int (length qs), tx_qnow = 0, tx_packets_in = 0, tx_packets_out = 0, tx_bytes_in = 0,
     tx_bytes_out = 0, tx_peer_ip = 0x0200000a, tx_my_ip = 0x0100000a,
     tx_lb_delay = \<lparr>tv_sec = 0, tv_nsec = 5000000\<rparr>, tx_sll = sample_sll, tx_pcx = 0, tx_q = qs\<rparr>"

definition sample_rxq :: "Q list \<Rightarrow> rxq" where
  "sample_rxq qs = \<lparr>rx_type = 90, rx_ifname = ''eth1'', rx_tifname = ''tap0'', rx_id = 0, rx_fd = 5, rx_af = 6,
     rx_mtu = 49, rx_tmtu = 15, rx_qnum = int (length qs), rx_qnow = 0, rx_packets_out = 0, rx_bytes_out = 0,
     rx_peer_ip = 0x0100000a, rx_my_ip = 0x0200000a, rx_sll = sample_sll, rx_pcx = 0,
     rx_lb_delay = \<lparr>tv_sec = 0, tv_nsec = 5000000\<rparr>, rx_q = qs\<rparr>"

theorem dispatch_leaves_array_witness:
  "tx_io_iter 0 [] (sample_txq [sample_ring [0, 0, 0] 0 0 0]) = Some (Inl (Fault OutOfBounds)) \<and>
   rx_io_iter 1 [] (sample_rxq [sample_ring [0, 0, 0] 0 0 0]) = Some (Inl (Fault OutOfBounds))"
  using dispatch_leaves_array [of 1 "sample_txq [sample_ring [0, 0, 0] 0 0 0]"
      "sample_rxq [sample_ring [0, 0, 0] 0 0 0]" "[]"]
  by (simp add: sample_txq_def sample_rxq_def next_queue_def)



text \<open>
  With two or more queues one pass of \<^verbatim>\<open>tx_lb\<close> sets \<open>qnow\<close> to the least loaded queue, the
  first of them when several are, and changes nothing else.
\<close>

theorem tx_lb_picks_least_loaded:
  assumes "2 \<le> length (tx_q h)" and "tx_qnum h = int (length (tx_q h))"
  shows "\<exists>k < length (tx_q h). tx_lb_pass h = Inr (h\<lparr>tx_qnow := int k\<rparr>) \<and>
    (\<forall>x < length (tx_q h). sz (tx_q h ! k) \<le> sz (tx_q h ! x)) \<and>
    (\<forall>x < k. sz (tx_q h ! k) < sz (tx_q h ! x))"
proof -
  obtain q qs where q: "tx_q h = q # qs" using assms(1) by (cases "tx_q h") auto
  then have ne: "qs \<noteq> []" using assms(1) by auto
  from q have "take (max 1 (nat (tx_qnum h))) (tx_q h) = q # qs" using assms(2) by simp
  moreover have "\<not> length (tx_q h) < nat (tx_qnum h)" using assms(2) by simp
  ultimately have "tx_lb_pass h = Inr (h\<lparr>tx_qnow := lb_scan 1 0 (sz q) (tx_qnow h) qs\<rparr>)"
    by (simp add: tx_lb_pass_def)
  with lb_scan_least [of 1 "[q]" 0 "sz q" qs "tx_qnow h"] q ne show ?thesis by auto
qed

theorem tx_lb_picks_least_loaded_witness:
  "tx_lb_pass (sample_txq [sample_ring [] 0 0 5, sample_ring [] 0 0 2, sample_ring [] 0 0 2]) =
     Inr (sample_txq [sample_ring [] 0 0 5, sample_ring [] 0 0 2, sample_ring [] 0 0 2]\<lparr>tx_qnow := 1\<rparr>)"
proof -
  let ?h = "sample_txq [sample_ring [] 0 0 5, sample_ring [] 0 0 2, sample_ring [] 0 0 2]"
  obtain k where k: "k < 3" "tx_lb_pass ?h = Inr (?h\<lparr>tx_qnow := int k\<rparr>)"
    "\<forall>x < 3. sz (tx_q ?h ! k) \<le> sz (tx_q ?h ! x)" "\<forall>x < k. sz (tx_q ?h ! k) < sz (tx_q ?h ! x)"
    using tx_lb_picks_least_loaded [of ?h] by (auto simp: sample_txq_def)
  have "k = 1" using k(1,3,4)
    by (auto simp: all_below_3 numeral_3_eq_3 less_Suc_eq sample_txq_def word_le_nat_alt word_less_nat_alt)
  with k(2) show ?thesis by simp
qed

text \<open>
  The workers of a session take the queue indices 0, 1, 2, ... in the order they start, each
  index once; a worker started beyond the number of queues writes outside the array.
\<close>

theorem workers_get_distinct_queues:
  assumes "tx_id h = 0" and "length (tx_q h) < 2 ^ 32"
  shows "(\<forall>n \<le> length (tx_q h). \<exists>h'. start_workers n h = Inr ([0..<n], h')) \<and>
    (\<exists>h'. start_workers (length (tx_q h)) h = Inr ([0..<length (tx_q h)], h') \<and>
       worker_start h' = Inl (Fault OutOfBounds))"
proof -
  have "\<exists>h'. start_workers n h = Inr ([0..<n], h') \<and> unat (tx_id h') = n \<and> length (tx_q h') = length (tx_q h)"
    if "n \<le> length (tx_q h)" for n
    using start_workers_ids [of h n] assms that by simp
  then show ?thesis by (fastforce simp: worker_start_def Let_def)
qed

theorem workers_get_distinct_queues_witness:
  "\<exists>h'. start_workers 2 (sample_txq [sample_ring [] 0 0 0, sample_ring [] 0 0 0]) = Inr ([0, 1], h') \<and>
     worker_start h' = Inl (Fault OutOfBounds)"
proof -
  let ?h = "sample_txq [sample_ring [] 0 0 0, sample_ring [] 0 0 0]"
  have n: "tx_id ?h = 0" "length (tx_q ?h) = 2" by (simp_all add: sample_txq_def)
  have "[0..<2] = [0, 1 :: nat]" by (simp add: upt_rec)
  with workers_get_distinct_queues [of ?h] n show ?thesis by simp
qed

end
