(* ===== verification/Sessions.thy ===== *)
theory Sessions
  imports Network Tunnel Loops
begin

text \<open>
  The sessions of \<^verbatim>\<open>network.c\<close>: \<^verbatim>\<open>enumerate_interfaces\<close> counts the peers, allocates the session
  arrays and sets up one session per peer, with its socket, its tunnel device, its rings and
  its threads. The threads are recorded when they are started; what they then do is the other
  theories' subject.
\<close>

section \<open>Environment and state\<close>

text \<open>
  What a set-up depends on: the kernel, whether \<^verbatim>\<open>calloc\<close> succeeds, the structure \<^verbatim>\<open>malloc\<close> gives
  the next thread, and what is in memory that is not initialised: the queue array, the local
  \<^verbatim>\<open>struct ifreq\<close>, the frame buffer, the local \<^verbatim>\<open>fd\<close>.
\<close>

record 'w env =
  kern :: "'w kernel"
  calloc_ok :: "nat \<Rightarrow> nat \<Rightarrow> bool"
  fresh_tm :: "int \<Rightarrow> ptr \<times> node"
  fresh_q :: "nat \<Rightarrow> Q"
  junk_ifr :: ifreq
  junk_frame :: "u8 list"
  junk_fd :: int

record 'w net =
  world :: 'w
  thr :: threads
  TXs :: "txq list"
  RXs :: "rxq list"

definition BUFSIZE :: int where "BUFSIZE = 62914560"
definition LBDELAY :: int where "LBDELAY = 5000000"
definition TUN :: int where "TUN = 90"
definition PIPE :: int where "PIPE = 110"

abbreviation "out_of_bounds \<equiv> Some (Inl (Fault OutOfBounds))"

definition start_thread :: "'w env \<Rightarrow> int \<Rightarrow> 'w net \<Rightarrow> 'w net may_loop" where
  "start_thread e job s =
     (let (tm, junk) = fresh_tm e (gtc (thr s)) in
      case new_thread tm junk job (thr s) of Inl er \<Rightarrow> Some (Inl er) | Inr t \<Rightarrow> done_with (s\<lparr>thr := t\<rparr>))"

text \<open>\<open>m\<close> rings from index \<open>j\<close> on, of \<open>n\<close> in all, and a worker for each.\<close>

fun start_rings :: "'w env \<Rightarrow> headers \<Rightarrow> int \<Rightarrow> int \<Rightarrow> nat \<Rightarrow> nat \<Rightarrow> 'w net \<Rightarrow> (Q list \<times> 'w net) may_loop" where
  "start_rings e hdr mtu n j 0 s = done_with ([], s)"
| "start_rings e hdr mtu n j (Suc m) s =
     (case init_ring_buffer (calloc_ok e) (fresh_q e j) (BUFSIZE div n) mtu hdr of
        Inl er \<Rightarrow> Some (Inl er)
      | Inr q \<Rightarrow>
          and_then (start_thread e job_LBR s) (\<lambda>s1.
          and_then (start_rings e hdr mtu n (Suc j) m s1) (\<lambda>(qs, s2).
          done_with (q\<lparr>qid := of_nat j\<rparr> # qs, s2))))"

section \<open>The tunnel device\<close>

text \<open>The 16 characters of an interface name, and \<^verbatim>\<open>strncmp\<close> of them with a name.\<close>

definition raw_name :: "nat \<Rightarrow> peer_context \<Rightarrow> string" where
  "raw_name off p = map (text_mem p) [off..<off + IFNAMSIZ]"

definition same_name :: "string \<Rightarrow> string \<Rightarrow> bool" where
  "same_name raw n \<longleftrightarrow> strncmp0 (takeWhile (\<lambda>c. c \<noteq> NUL) raw) n IFNAMSIZ"

text \<open>
  The file descriptor of a session of the other direction with the same tunnel, if there is
  one; otherwise \<^verbatim>\<open>fd\<close> keeps what it held. The sessions are addressed as \<^verbatim>\<open>RX[k]\<close> with \<^verbatim>\<open>RX\<close> the
  address of the pointer, so that only \<open>k = 0\<close> stays inside it.
\<close>

definition shared_fd :: "nat \<Rightarrow> (int \<times> string) list \<Rightarrow> string \<Rightarrow> int \<Rightarrow> int res" where
  "shared_fd count others n junk =
     (if count = 0 then Inr junk
      else if 1 < count then Inl (Fault OutOfBounds)
      else case others of
        [] \<Rightarrow> Inl (Fault OutOfBounds)
      | (fd, raw) # _ \<Rightarrow> Inr (if 0 < fd \<and> same_name raw n then fd else junk))"

text \<open>The device of the session: shared, or opened when \<^verbatim>\<open>fd\<close> holds no positive number.\<close>

definition tunnel_fd :: "'w env \<Rightarrow> string \<Rightarrow> int \<Rightarrow> 'w \<Rightarrow> int \<times> 'w" where
  "tunnel_fd e n fd0 w =
     (let (fd, w1) = (if fd0 < 1 then tuntap (kern e) n TAP_FLAGS w else (fd0, w));
          (_, w2) = ifup (kern e) n (junk_ifr e) w1
      in (fd, w2))"

text \<open>A pipe as the local side: opened, nothing else.\<close>

definition open_pipe :: "'w env \<Rightarrow> peer_context \<Rightarrow> 'w \<Rightarrow> (int \<times> 'w) may_loop" where
  "open_pipe e p w = (let (fd, w1) = k_open (kern e) (field pipe_off p) w in if fd < 0 then die_1 else done_with (fd, w1))"

section \<open>Sending sessions\<close>

definition tx_tunnel :: "'w env \<Rightarrow> ptr \<Rightarrow> peer_context \<Rightarrow> int \<Rightarrow> ifreq \<Rightarrow> txq \<Rightarrow> 'w net \<Rightarrow> 'w net may_loop" where
  "tx_tunnel e pc p fd ifr t s =
     (let k = kern e; ifn = field ifname_off p; tun = field tifname_off p;
          (ifr1, w1) = get_interface k ifn IFMAC ifr (world s);
          (ifr2, w2) = get_interface k ifn IFINDEX ifr1 w1;
          t1 = t\<lparr>tx_type := TUN, tx_fd := fd, tx_tifname := raw_name tifname_off p, tx_ifname := raw_name ifname_off p,
                 tx_sll := \<lparr>sll_family = 17, sll_protocol = 0x0300, sll_ifindex = ifr_ivalue ifr2, sll_halen = 6,
                            sll_addr = ifr_hwaddr ifr1\<rparr>\<rparr>
      in and_then (set_ip k tun (myip p) (junk_ifr e) w2) (\<lambda>w3.
         let t2 = t1\<lparr>tx_peer_ip := peerip p, tx_my_ip := myip p\<rparr> in
         and_then (set_mtu k tun (tx_mtu t - int (ETH_HDRLEN + IP4_HDRLEN)) (junk_ifr e) w3) (\<lambda>w4.
         let t3 = t2\<lparr>tx_pcx := pc, tx_qnum := threadcount p, tx_lb_delay := (tx_lb_delay t)\<lparr>tv_nsec := LBDELAY\<rparr>\<rparr> in
         and_then (fill_headers k p (tx_af t) (junk_ifr e) (junk_frame e) w4) (\<lambda>(hdr, w5).
         and_then (start_rings e hdr (tx_mtu t) (threadcount p) 0 (nat (threadcount p)) (s\<lparr>world := w5\<rparr>)) (\<lambda>(qs, s1).
         start_thread e job_IO (s1\<lparr>TXs := (TXs s1)[0 := t3\<lparr>tx_q := qs\<rparr>]\<rparr>))))))"

definition tx_session :: "'w env \<Rightarrow> nat \<Rightarrow> nat \<Rightarrow> ptr \<Rightarrow> peer_context \<Rightarrow> 'w net \<Rightarrow> 'w net may_loop" where
  "tx_session e txc rxc pc p s =
     (if 0 < txc then out_of_bounds
      else if field ifname_off p = [] then die_1
      else if TXs s = [] then out_of_bounds
      else let k = kern e; ifn = field ifname_off p; tun = field tifname_off p; t = TXs s ! 0 in
        and_then (init_af_packet k ifn (tx_sll t) (junk_ifr e) (world s)) (\<lambda>(af, w1).
        let (ifr, w2) = get_interface k ifn IFMTU (junk_ifr e) w1;
            t1 = t\<lparr>tx_af := af, tx_mtu := ifr_ivalue ifr\<rparr>
        in if tun \<noteq> [] then
             (case shared_fd rxc (map (\<lambda>r. (rx_fd r, rx_tifname r)) (RXs s)) tun (junk_fd e) of
                Inl er \<Rightarrow> Some (Inl er)
              | Inr fd0 \<Rightarrow>
                  (let (fd, w3) = tunnel_fd e tun fd0 w2 in
                   if 0 < fd then tx_tunnel e pc p fd ifr t1 (s\<lparr>world := w3\<rparr>)
                   else done_with (s\<lparr>world := w3, TXs := (TXs s)[0 := t1]\<rparr>)))
           else if field socket_off p \<noteq> [] then done_with (s\<lparr>world := w2, TXs := (TXs s)[0 := t1]\<rparr>)
           else if field pipe_off p \<noteq> [] then
             and_then (open_pipe e p w2) (\<lambda>(fd, w3).
             done_with (s\<lparr>world := w3, TXs := (TXs s)[0 := t1\<lparr>tx_type := PIPE, tx_fd := fd\<rparr>]\<rparr>))
           else die_1))"

section \<open>Receiving sessions\<close>

definition rx_tunnel :: "'w env \<Rightarrow> ptr \<Rightarrow> peer_context \<Rightarrow> int \<Rightarrow> ifreq \<Rightarrow> rxq \<Rightarrow> 'w net \<Rightarrow> 'w net may_loop" where
  "rx_tunnel e pc p fd ifr r s =
     (let k = kern e; ifn = field ifname_off p; tun = field tifname_off p;
          (ifr1, w1) = get_interface k tun IFMAC ifr (world s);
          (ifr2, w2) = get_interface k ifn IFINDEX ifr1 w1;
          r1 = r\<lparr>rx_type := TUN, rx_fd := fd, rx_tifname := raw_name tifname_off p, rx_ifname := raw_name ifname_off p,
                 rx_sll := \<lparr>sll_family = 17, sll_protocol = 0x0300, sll_ifindex = ifr_ivalue ifr2, sll_halen = 6,
                            sll_addr = ifr_hwaddr ifr1\<rparr>,
                 rx_tmtu := rx_mtu r - int (ETH_HDRLEN + IP4_HDRLEN), rx_peer_ip := peerip p, rx_my_ip := myip p,
                 rx_pcx := pc, rx_qnum := threadcount p, rx_lb_delay := \<lparr>tv_sec = 0, tv_nsec = LBDELAY\<rparr>\<rparr>
      in and_then (fill_headers k p (rx_af r) (junk_ifr e) (junk_frame e) w2) (\<lambda>(hdr, w3).
         and_then (start_rings e hdr (rx_mtu r) (threadcount p) 0 (nat (threadcount p)) (s\<lparr>world := w3\<rparr>)) (\<lambda>(qs, s1).
         start_thread e job_IO (s1\<lparr>RXs := (RXs s1)[0 := r1\<lparr>rx_q := qs\<rparr>]\<rparr>))))"

definition rx_session :: "'w env \<Rightarrow> nat \<Rightarrow> nat \<Rightarrow> ptr \<Rightarrow> peer_context \<Rightarrow> 'w net \<Rightarrow> 'w net may_loop" where
  "rx_session e rxc txc pc p s =
     (if 0 < rxc then out_of_bounds
      else if field ifname_off p = [] then die_1
      else if RXs s = [] then out_of_bounds
      else let k = kern e; ifn = field ifname_off p; tun = field tifname_off p; r = RXs s ! 0 in
        and_then (init_af_packet k ifn (rx_sll r) (junk_ifr e) (world s)) (\<lambda>(af, w1).
        let (ifr, w2) = get_interface k ifn IFMTU (junk_ifr e) w1;
            r1 = r\<lparr>rx_af := af, rx_mtu := ifr_ivalue ifr\<rparr>
        in if tun \<noteq> [] then
             (case shared_fd txc (map (\<lambda>t. (tx_fd t, tx_tifname t)) (TXs s)) tun (junk_fd e) of
                Inl er \<Rightarrow> Some (Inl er)
              | Inr fd0 \<Rightarrow>
                  (let (fd, w3) = tunnel_fd e tun fd0 w2 in
                   if 0 < fd then rx_tunnel e pc p fd ifr r1 (s\<lparr>world := w3\<rparr>)
                   else done_with (s\<lparr>world := w3, RXs := (RXs s)[0 := r1]\<rparr>)))
           else if field socket_off p \<noteq> [] then done_with (s\<lparr>world := w2, RXs := (RXs s)[0 := r1]\<rparr>)
           else if field pipe_off p \<noteq> [] then
             and_then (open_pipe e p w2) (\<lambda>(fd, w3).
             done_with (s\<lparr>world := w3, RXs := (RXs s)[0 := r1\<lparr>rx_type := PIPE, rx_fd := fd\<rparr>]\<rparr>))
           else die_1))"

section \<open>All peers\<close>

text \<open>The first pass: how many sessions of each kind to allocate.\<close>

fun count_peers :: "'w env \<Rightarrow> (ptr \<times> peer_context) list \<Rightarrow> nat \<times> nat \<times> nat \<Rightarrow> 'w \<Rightarrow> (nat \<times> nat \<times> nat) \<times> 'w" where
  "count_peers e [] c w = (c, w)"
| "count_peers e ((pc, p) # ps) (txc, rxc, mpc) w =
     (let k = kern e; ifn = field ifname_off p; ifm = field ifmap_off p;
          (up, w1) = ifup k ifn (junk_ifr e) w;
          rxc1 = (if up = 0 then rxc + 1 else rxc);
          (mup, w2) = (if ifm \<noteq> [] then ifup k ifm (junk_ifr e) w1 else (1, w1));
          mpc1 = (if mup = 0 then mpc + 1 else mpc);
          (ifr1, w3) = get_interface k ifn IFINDEX (junk_ifr e) w2;
          (ifr2, w4) = get_interface k ifn IFMTU ifr1 w3;
          (ifr3, w5) = get_interface k ifn IFADDR ifr2 w4;
          (ifr4, w6) = get_interface k ifn IFMAC ifr3 w5;
          txc1 = (if field tifname_off p \<noteq> [] \<or> field socket_off p \<noteq> [] then txc + 1 else txc)
      in count_peers e ps (txc1, rxc1, mpc1) w6)"

text \<open>The second pass. A map peer starts its threads; their sessions are never filled in.\<close>

fun start_maps :: "'w env \<Rightarrow> nat \<Rightarrow> 'w net \<Rightarrow> 'w net may_loop" where
  "start_maps e 0 s = done_with s"
| "start_maps e (Suc n) s = and_then (start_thread e job_IO s) (start_maps e n)"

fun setup_peers :: "'w env \<Rightarrow> (ptr \<times> peer_context) list \<Rightarrow> nat \<Rightarrow> nat \<Rightarrow> 'w net \<Rightarrow> 'w net may_loop" where
  "setup_peers e [] txc rxc s = done_with s"
| "setup_peers e ((pc, p) # ps) txc rxc s =
     (if direction p = DIR_OUT then and_then (tx_session e txc rxc pc p s) (setup_peers e ps (txc + 1) rxc)
      else if direction p = DIR_IN then and_then (rx_session e rxc txc pc p s) (setup_peers e ps txc (rxc + 1))
      else if direction p = DIR_MAP then
        and_then (start_thread e job_IO s) (\<lambda>s1.
        and_then (start_maps e (nat (threadcount p)) s1) (setup_peers e ps txc rxc))
      else setup_peers e ps txc rxc s)"

text \<open>
  The whole: \<open>fresh_tx\<close> and \<open>fresh_rx\<close> are what the allocated session arrays hold. The peers
  are those of the master list, in the order of \<open>peers_in_setup_order\<close>.
\<close>

definition enumerate_interfaces ::
  "'w env \<Rightarrow> (nat \<Rightarrow> txq) \<Rightarrow> (nat \<Rightarrow> rxq) \<Rightarrow> (ptr \<times> peer_context) list \<Rightarrow> 'w net \<Rightarrow> 'w net may_loop" where
  "enumerate_interfaces e fresh_tx fresh_rx ps s =
     (let ((txc, rxc, mpc), w) = count_peers e ps (0, 0, 0) (world s)
      in setup_peers e ps 0 0 (s\<lparr>world := w, TXs := map fresh_tx [0..<txc], RXs := map fresh_rx [0..<rxc]\<rparr>))"

section \<open>Rings and workers\<close>

text \<open>A ring's number does not matter to what it holds.\<close>

lemma qid_irrelevant [simp]:
  "tx_inv cap hdr (q\<lparr>qid := n\<rparr>) = tx_inv cap hdr q" "rx_inv cap ip (q\<lparr>qid := n\<rparr>) = rx_inv cap ip q"
  "payloads (q\<lparr>qid := n\<rparr>) = payloads q" "frames (q\<lparr>qid := n\<rparr>) = frames q" "room (q\<lparr>qid := n\<rparr>) = room q"
  by (simp_all add: tx_inv_def rx_inv_def quiet_def geom_def ring_wf_def stamped_def length_field_def payloads_def
      payload_def frames_def frame_def live_def room_def)

text \<open>A ring as a session finds it after its set-up.\<close>

definition ring_ready :: "int \<Rightarrow> int \<Rightarrow> headers \<Rightarrow> u32 \<Rightarrow> Q \<Rightarrow> bool" where
  "ring_ready mtu n hdr ip q \<longleftrightarrow> tx_inv (nat mtu - 34) hdr q \<and> rx_inv (nat mtu - 34) ip q \<and>
     payloads q = [] \<and> frames q = [] \<and> room q = nat (BUFSIZE div n) div nat (mtu + 4) - 1 \<and> blank q"

text \<open>Thread numbers are positive \<^verbatim>\<open>int\<close>s.\<close>

definition max_threads :: int where "max_threads = 2 ^ 31"

text \<open>The memory a session needs: room for two blocks per ring, cursors that hold 0, threads apart.\<close>

definition memory_ok :: "'w env \<Rightarrow> int \<Rightarrow> int \<Rightarrow> bool" where
  "memory_ok e mtu n \<longleftrightarrow> 34 \<le> mtu \<and> 0 < n \<and> 2 * (mtu + 4) \<le> BUFSIZE div n \<and> (\<forall>a b. calloc_ok e a b) \<and>
     (\<forall>j. q_in (fresh_q e j) = 0 \<and> q_out (fresh_q e j) = 0 \<and> sz (fresh_q e j) = 0) \<and>
     inj_on (\<lambda>i. fst (fresh_tm e i)) {0..<max_threads}"

text \<open>
  The addresses of the threads to come are not in use: they are neither in the thread list nor
  \<open>held\<close> by a thread that is not in the list yet.
\<close>

definition threads_free :: "ptr set \<Rightarrow> 'w env \<Rightarrow> threads \<Rightarrow> ptr list \<Rightarrow> bool" where
  "threads_free held e t tml \<longleftrightarrow> threads_ok t tml \<and> 0 \<le> gtc t \<and> held \<inter> set tml = {} \<and> tl_node ` held \<subseteq> dom (nodes t) \<and>
     (\<forall>i \<in> {gtc t..<max_threads}. fst (fresh_tm e i) \<notin> set tml \<and> fst (fresh_tm e i) \<notin> held) \<and>
     (\<forall>i \<in> {0..<max_threads}. tl_node (fst (fresh_tm e i)) \<noteq> MTL t)"

lemma start_thread_ok:
  assumes "memory_ok e mtu n" and "threads_free held e (thr s) tml" and "job \<in> {job_SUP, job_IO, job_LBR}"
    and "gtc (thr s) < max_threads"
  shows "\<exists>t tml'. start_thread e job s = done_with (s\<lparr>thr := t\<rparr>) \<and> threads_free held e t tml' \<and> gtc t = gtc (thr s) + 1"
proof -
  let ?i = "gtc (thr s)"
  obtain tm junk where tm: "fresh_tm e ?i = (tm, junk)" by (cases "fresh_tm e ?i")
  have i: "?i \<in> {0..<max_threads}" using assms(2,4) by (simp add: threads_free_def)
  then have free: "threads_ok (thr s) tml" "tl_node tm \<noteq> MTL (thr s)" "tm \<notin> set tml"
    using assms(2) tm by (auto simp: threads_free_def dest!: bspec [of _ _ ?i])
  obtain t where t: "new_thread tm junk job (thr s) = Inr t" "threads_ok t (tm # tml)" "MTL t = MTL (thr s)"
    "gtc t = ?i + 1" "dom (nodes (thr s)) \<subseteq> dom (nodes t)"
    using new_thread_ok [OF free assms(3), of junk] by blast
  have "fst (fresh_tm e k) \<noteq> tm" if k: "k \<in> {gtc t..<max_threads}" for k
  proof
    assume "fst (fresh_tm e k) = tm"
    moreover have "k \<in> {0..<max_threads}" "k \<noteq> ?i" using k t(4) i by auto
    moreover have "inj_on (\<lambda>i. fst (fresh_tm e i)) {0..<max_threads}" using assms(1) by (simp add: memory_ok_def)
    ultimately show False using inj_onD [of "\<lambda>i. fst (fresh_tm e i)" "{0..<max_threads}" k ?i] i tm by simp
  qed
  moreover have "tm \<notin> held" using assms(2) i tm by (auto simp: threads_free_def dest!: bspec [of _ _ ?i])
  moreover have "tl_node ` held \<subseteq> dom (nodes t)" using assms(2) t(5) unfolding threads_free_def by blast
  ultimately have "threads_free held e t (tm # tml)" using assms(2) t by (auto simp: threads_free_def)
  with t tm show ?thesis by (auto simp: start_thread_def)
qed

lemma start_rings_ok:
  assumes "memory_ok e mtu n" and "headers_ok hdr" and "threads_free held e (thr s) tml"
    and "gtc (thr s) + int m \<le> max_threads"
  shows "\<exists>qs t tml'. start_rings e hdr mtu n j m s = done_with (qs, s\<lparr>thr := t\<rparr>) \<and> length qs = m \<and>
    (\<forall>q \<in> set qs. ring_ready mtu n hdr ip q) \<and> threads_free held e t tml' \<and> gtc t = gtc (thr s) + int m"
  using assms(3,4)
proof (induction m arbitrary: j s tml)
  case 0
  then show ?case by (intro exI [of _ "[]"] exI [of _ "thr s"] exI [of _ tml]) simp
next
  case (Suc m)
  have mem: "34 \<le> mtu" "0 < n" "2 * (mtu + 4) \<le> BUFSIZE div n" using assms(1) by (simp_all add: memory_ok_def)
  have "BUFSIZE div n \<le> BUFSIZE" using mem(2) zdiv_mono2 [of BUFSIZE 1 n] by (simp add: BUFSIZE_def)
  then have init: "init_ok (calloc_ok e) (BUFSIZE div n) mtu hdr"
    using assms(1,2) mem by (simp add: init_ok_def memory_ok_def BUFSIZE_def)
  from init_ring_ready [OF init mem(3), of "fresh_q e j" ip] init_ring_blank [OF init, of "fresh_q e j"] assms(1)
  obtain q where q: "init_ring_buffer (calloc_ok e) (fresh_q e j) (BUFSIZE div n) mtu hdr = Inr q" "ring_ready mtu n hdr ip q"
    by (auto simp: memory_ok_def ring_ready_def)
  obtain t tml1 where t: "start_thread e job_LBR s = done_with (s\<lparr>thr := t\<rparr>)" "threads_free held e t tml1"
    "gtc t = gtc (thr s) + 1"
    using start_thread_ok [OF assms(1) Suc.prems(1), of job_LBR] Suc.prems(2) by auto
  obtain qs t' tml' where more: "start_rings e hdr mtu n (Suc j) m (s\<lparr>thr := t\<rparr>) = done_with (qs, s\<lparr>thr := t'\<rparr>)"
    "length qs = m" "\<forall>q \<in> set qs. ring_ready mtu n hdr ip q" "threads_free held e t' tml'" "gtc t' = gtc t + int m"
    using Suc.IH [of "s\<lparr>thr := t\<rparr>" tml1 "Suc j"] t(2,3) Suc.prems(2) by auto
  show ?case using q t more by (auto simp: ring_ready_def)
qed

section \<open>A kernel that grants everything\<close>

definition grants :: "'w kernel \<Rightarrow> int \<Rightarrow> bool" where
  "grants k mtu \<longleftrightarrow> kernel_ok k \<and> (\<forall>d t w. 0 < fst (k_socket k d t w)) \<and>
     (\<forall>fd r x w. \<exists>x'. fst (k_ioctl k fd r x w) = Some x' \<and>
        (r = SIOCGIFINDEX \<longrightarrow> 1 \<le> ifr_ivalue x') \<and> (r = SIOCGIFMTU \<longrightarrow> ifr_ivalue x' = mtu)) \<and>
     (\<forall>n w. 0 < fst (k_open k n w))"

lemma grantsD:
  assumes "grants k mtu"
  shows "\<exists>fd w'. k_socket k d t w = (fd, w') \<and> 0 < fd" "\<exists>fd w'. k_open k n w = (fd, w') \<and> 0 < fd"
    "\<exists>x' w'. k_ioctl k fd r x w = (Some x', w') \<and>
        (r = SIOCGIFINDEX \<longrightarrow> 1 \<le> ifr_ivalue x') \<and> (r = SIOCGIFMTU \<longrightarrow> ifr_ivalue x' = mtu)"
proof -
  show "\<exists>fd w'. k_socket k d t w = (fd, w') \<and> 0 < fd"
    by (intro exI [of _ "fst (k_socket k d t w)"] exI [of _ "snd (k_socket k d t w)"])
      (use assms in \<open>simp add: grants_def\<close>)
  show "\<exists>fd w'. k_open k n w = (fd, w') \<and> 0 < fd"
    by (intro exI [of _ "fst (k_open k n w)"] exI [of _ "snd (k_open k n w)"])
      (use assms in \<open>simp add: grants_def\<close>)
  have "\<forall>fd r x w. \<exists>x'. fst (k_ioctl k fd r x w) = Some x' \<and>
      (r = SIOCGIFINDEX \<longrightarrow> 1 \<le> ifr_ivalue x') \<and> (r = SIOCGIFMTU \<longrightarrow> ifr_ivalue x' = mtu)"
    using assms unfolding grants_def by (elim conjE)
  then obtain x' where "fst (k_ioctl k fd r x w) = Some x'"
    "(r = SIOCGIFINDEX \<longrightarrow> 1 \<le> ifr_ivalue x') \<and> (r = SIOCGIFMTU \<longrightarrow> ifr_ivalue x' = mtu)"
    by (elim allE [of _ fd] allE [of _ r] allE [of _ x] allE [of _ w]) blast
  then show "\<exists>x' w'. k_ioctl k fd r x w = (Some x', w') \<and>
        (r = SIOCGIFINDEX \<longrightarrow> 1 \<le> ifr_ivalue x') \<and> (r = SIOCGIFMTU \<longrightarrow> ifr_ivalue x' = mtu)"
    by (intro exI [of _ x'] exI [of _ "snd (k_ioctl k fd r x w)"]) (simp add: prod_eq_iff)
qed

lemma granted_query:
  assumes "grants k mtu"
  obtains x w' where "get_interface k n d ifr w = (x, w')" "d = IFINDEX \<longrightarrow> 1 \<le> ifr_ivalue x"
    "d = IFMTU \<longrightarrow> ifr_ivalue x = mtu"
proof -
  obtain fd w1 where s: "k_socket k AF_INET SOCK_DGRAM w = (fd, w1)" "0 < fd"
    using grantsD(1) [OF assms, of AF_INET SOCK_DGRAM w] by blast
  obtain x w2 where "k_ioctl k fd (query_request d) (put_name n ifr) w1 = (Some x, w2)"
    "query_request d = SIOCGIFINDEX \<longrightarrow> 1 \<le> ifr_ivalue x" "query_request d = SIOCGIFMTU \<longrightarrow> ifr_ivalue x = mtu"
    using grantsD(3) [OF assms, of fd "query_request d" "put_name n ifr" w1] by blast
  with s that [of x "k_close k fd w2"] show ?thesis by (cases d) (simp_all add: get_interface_def Let_def)
qed

lemma granted_packet:
  assumes "grants k mtu"
  obtains fd w' where "init_af_packet k n sll ifr w = done_with (fd, w')"
proof -
  obtain x w1 where q: "get_interface k n IFINDEX ifr w = (x, w1)" "1 \<le> ifr_ivalue x"
    using granted_query [OF assms, of n IFINDEX ifr w] by blast
  obtain fd w2 where "k_socket k AF_PACKET SOCK_RAW w1 = (fd, w2)" "0 < fd"
    using grantsD(1) [OF assms, of AF_PACKET SOCK_RAW w1] by blast
  with q that show ?thesis by (simp add: init_af_packet_def Let_def)
qed

lemma granted_set:
  assumes "grants k mtu" and "length n < IFNAMSIZ"
  obtains w' w'' where "set_ip k n ip ifr w = done_with w'" "set_mtu k n m ifr v = done_with w''"
proof -
  obtain fd w1 where s: "k_socket k AF_INET SOCK_DGRAM w = (fd, w1)" "0 < fd"
    using grantsD(1) [OF assms(1), of AF_INET SOCK_DGRAM w] by blast
  obtain x w2 where a: "k_ioctl k fd SIOCSIFADDR (put_bytes 4 (bytes_of_u32 ip) (put_bytes 0 (bytes_of_u16 2) (put_name n ifr))) w1
      = (Some x, w2)" using grantsD(3) [OF assms(1), of fd SIOCSIFADDR _ w1] by blast
  obtain fd' v1 where s': "k_socket k AF_INET SOCK_DGRAM v = (fd', v1)" "0 < fd'"
    using grantsD(1) [OF assms(1), of AF_INET SOCK_DGRAM v] by blast
  obtain y v2 where "k_ioctl k fd' SIOCSIFMTU (put_bytes 0 (bytes_of_u32 (of_int m)) (put_name n ifr)) v1 = (Some y, v2)"
    using grantsD(3) [OF assms(1), of fd' SIOCSIFMTU _ v1] by blast
  with s s' a assms(2) that show ?thesis by (simp add: set_ip_def set_mtu_def Let_def)
qed

lemma granted_tunnel:
  assumes "grants (kern e) mtu" and "3 \<le> length n" and "length n < IFNAMSIZ"
  obtains fd w' where "tunnel_fd e n fd0 w = (fd, w')" "0 < fd" "0 < fd0 \<longrightarrow> fd = fd0"
proof -
  obtain fd w1 where o: "k_open (kern e) ''/dev/net/tun'' w = (fd, w1)" "0 < fd"
    using grantsD(2) [OF assms(1), of "''/dev/net/tun''" w] by blast
  obtain x w2 where "k_ioctl (kern e) fd TUNSETIFF \<lparr>ifr_name = n, ifr_ifru = bytes_of_u16 TAP_FLAGS @ replicate 22 0\<rparr> w1 = (Some x, w2)"
    using grantsD(3) [OF assms(1), of fd TUNSETIFF _ w1] by blast
  then have t: "tuntap (kern e) n TAP_FLAGS w = (fd, w2)" using o assms(2,3) by (simp add: tuntap_def Let_def)
  define v where "v = (if fd0 < 1 then (fd, w2) else (fd0, w))"
  have "tunnel_fd e n fd0 w = (fst v, snd (ifup (kern e) n (junk_ifr e) (snd v)))"
    by (simp add: tunnel_fd_def t v_def Let_def split_beta)
  with that o(2) show ?thesis by (auto simp: v_def split: if_splits)
qed

section \<open>Sessions that come up\<close>

text \<open>
  What a session with a tunnel device needs: a kernel that grants everything, names of the right
  length, memory, and an ARP exchange that comes to an end, whatever its end.
\<close>

definition session_ok :: "'w env \<Rightarrow> int \<Rightarrow> peer_context \<Rightarrow> bool" where
  "session_ok e mtu p \<longleftrightarrow> grants (kern e) mtu \<and> length (ifr_ifru (junk_ifr e)) = 24 \<and> memory_ok e mtu (threadcount p) \<and>
     field ifname_off p \<noteq> [] \<and> 3 \<le> length (field tifname_off p) \<and> length (field tifname_off p) < IFNAMSIZ \<and>
     (\<forall>fd w. \<exists>hdr w'. fill_headers (kern e) p fd (junk_ifr e) (junk_frame e) w = done_with (hdr, w'))"

lemma session_headers:
  assumes "session_ok e mtu p"
  obtains hdr w' where "fill_headers (kern e) p fd (junk_ifr e) (junk_frame e) w = done_with (hdr, w')"
    "headers_ok hdr" "sends_as hdr (myip p)"
proof -
  obtain hdr w' where f: "fill_headers (kern e) p fd (junk_ifr e) (junk_frame e) w = done_with (hdr, w')"
    using assms unfolding session_ok_def by blast
  have "kernel_ok (kern e)" "length (ifr_ifru (junk_ifr e)) = 24" using assms by (simp_all add: session_ok_def grants_def)
  from fill_headers_shape [OF this f] have "headers_ok hdr" "sends_as hdr (myip p)"
    by (simp_all add: sends_as_def read_at_def bytes_of_u32_def)
  with f that show ?thesis by blast
qed

lemma session_rings:
  assumes "session_ok e mtu p" and "headers_ok hdr" and "threads_free held e (thr s) tml"
    and "gtc (thr s) + threadcount p \<le> max_threads"
  obtains qs t tml' where "start_rings e hdr mtu (threadcount p) 0 (nat (threadcount p)) s = done_with (qs, s\<lparr>thr := t\<rparr>)"
    "length qs = nat (threadcount p)" "\<forall>q \<in> set qs. ring_ready mtu (threadcount p) hdr ip q"
    "threads_free held e t tml'" "gtc t = gtc (thr s) + threadcount p"
proof -
  have mem: "memory_ok e mtu (threadcount p)" using assms(1) by (simp add: session_ok_def)
  then have "int (nat (threadcount p)) = threadcount p" by (simp add: memory_ok_def)
  with start_rings_ok [OF mem assms(2,3), of "nat (threadcount p)" 0 ip] assms(4) that show ?thesis by auto
qed

lemma tx_session_ok:
  assumes "session_ok e mtu p" and "threads_free held e (thr s) tml"
    and room: "gtc (thr s) + threadcount p < max_threads" and "TXs s = t # ts"
    and "shared_fd rxc (map (\<lambda>r. (rx_fd r, rx_tifname r)) (RXs s)) (field tifname_off p) (junk_fd e) = Inr fd0"
  shows "\<exists>hdr t' s' tml'. tx_session e 0 rxc pc p s = done_with s' \<and> TXs s' = t' # ts \<and> RXs s' = RXs s \<and>
    headers_ok hdr \<and> sends_as hdr (myip p) \<and> length (tx_q t') = nat (threadcount p) \<and>
    (\<forall>q \<in> set (tx_q t'). ring_ready mtu (threadcount p) hdr ip q) \<and>
    tx_peer_ip t' = peerip p \<and> tx_qnum t' = threadcount p \<and> tx_mtu t' = mtu \<and> tx_tifname t' = raw_name tifname_off p \<and>
    0 < tx_fd t' \<and> (0 < fd0 \<longrightarrow> tx_fd t' = fd0) \<and> tx_id t' = tx_id t \<and>
    threads_free held e (thr s') tml' \<and> gtc (thr s') = gtc (thr s) + threadcount p + 1"
proof -
  let ?k = "kern e" and ?ifn = "field ifname_off p" and ?tun = "field tifname_off p" and ?j = "junk_ifr e"
  have g: "grants ?k mtu" and mem: "memory_ok e mtu (threadcount p)" and names: "?ifn \<noteq> []" "3 \<le> length ?tun"
    "length ?tun < IFNAMSIZ" using assms(1) by (simp_all add: session_ok_def)
  have tun: "?tun \<noteq> []" using names(2) by auto
  obtain af w1 where af: "init_af_packet ?k ?ifn (tx_sll t) ?j (world s) = done_with (af, w1)"
    by (rule granted_packet [OF g])
  obtain x w2 where x: "get_interface ?k ?ifn IFMTU ?j w1 = (x, w2)" "ifr_ivalue x = mtu"
    using granted_query [OF g, of ?ifn IFMTU ?j w1] by auto
  obtain fd w3 where fd: "tunnel_fd e ?tun fd0 w2 = (fd, w3)" "0 < fd" "0 < fd0 \<longrightarrow> fd = fd0"
    by (rule granted_tunnel [OF g names(2,3)])
  obtain y w4 where y: "get_interface ?k ?ifn IFMAC x w3 = (y, w4)" by (cases "get_interface ?k ?ifn IFMAC x w3")
  obtain z w5 where z: "get_interface ?k ?ifn IFINDEX y w4 = (z, w5)" by (cases "get_interface ?k ?ifn IFINDEX y w4")
  obtain w6 where w6: "set_ip ?k ?tun (myip p) ?j w5 = done_with w6" by (rule granted_set [OF g names(3)])
  obtain w7 where w7: "set_mtu ?k ?tun (mtu - int (ETH_HDRLEN + IP4_HDRLEN)) ?j w6 = done_with w7"
    by (rule granted_set [OF g names(3)])
  obtain hdr w8 where h: "fill_headers ?k p af ?j (junk_frame e) w7 = done_with (hdr, w8)" "headers_ok hdr" "sends_as hdr (myip p)"
    by (rule session_headers [OF assms(1)])
  have free: "threads_free held e (thr (s\<lparr>world := w8\<rparr>)) tml" using assms(2) by simp
  obtain qs u tml1 where r: "start_rings e hdr mtu (threadcount p) 0 (nat (threadcount p)) (s\<lparr>world := w8\<rparr>)
      = done_with (qs, s\<lparr>world := w8, thr := u\<rparr>)"
    "length qs = nat (threadcount p)" "\<forall>q \<in> set qs. ring_ready mtu (threadcount p) hdr ip q"
    "threads_free held e u tml1" "gtc u = gtc (thr s) + threadcount p"
    by (rule session_rings [OF assms(1) h(2) free, where ip = ip]) (use room in simp_all)
  define t' where "t' = t\<lparr>tx_af := af, tx_mtu := mtu, tx_type := TUN, tx_fd := fd, tx_tifname := raw_name tifname_off p,
      tx_ifname := raw_name ifname_off p,
      tx_sll := \<lparr>sll_family = 17, sll_protocol = 0x0300, sll_ifindex = ifr_ivalue z, sll_halen = 6, sll_addr = ifr_hwaddr y\<rparr>,
      tx_peer_ip := peerip p, tx_my_ip := myip p, tx_pcx := pc, tx_qnum := threadcount p,
      tx_lb_delay := (tx_lb_delay t)\<lparr>tv_nsec := LBDELAY\<rparr>, tx_q := qs\<rparr>"
  define s1 where "s1 = s\<lparr>world := w8, thr := u, TXs := t' # ts\<rparr>"
  have s1: "threads_free held e (thr s1) tml1" using r(4) by (simp add: s1_def)
  obtain v tml2 where v: "start_thread e job_IO s1 = done_with (s1\<lparr>thr := v\<rparr>)" "threads_free held e v tml2" "gtc v = gtc (thr s1) + 1"
    using start_thread_ok [OF mem s1, of job_IO] room r(5) by (auto simp: s1_def)
  have "tx_session e 0 rxc pc p s = tx_tunnel e pc p fd x (t\<lparr>tx_af := af, tx_mtu := mtu\<rparr>) (s\<lparr>world := w3\<rparr>)"
    using names(1) tun assms(4,5) af x fd(1,2) by (simp add: tx_session_def Let_def)
  also have "\<dots> = start_thread e job_IO s1"
    using y z w6 w7 h(1) r(1) assms(4) by (simp add: tx_tunnel_def Let_def s1_def t'_def)
  finally have "tx_session e 0 rxc pc p s = done_with (s1\<lparr>thr := v\<rparr>)" using v(1) by simp
  then show ?thesis using h(2,3) r(2,3,5) v(2,3) fd(2,3)
    by (intro exI [of _ hdr] exI [of _ t'] exI [of _ "s1\<lparr>thr := v\<rparr>"] exI [of _ tml2]) (simp add: s1_def t'_def)
qed

lemma rx_session_ok:
  assumes "session_ok e mtu p" and "threads_free held e (thr s) tml"
    and room: "gtc (thr s) + threadcount p < max_threads" and "RXs s = r # rs"
    and "shared_fd txc (map (\<lambda>t. (tx_fd t, tx_tifname t)) (TXs s)) (field tifname_off p) (junk_fd e) = Inr fd0"
  shows "\<exists>hdr r' s' tml'. rx_session e 0 txc pc p s = done_with s' \<and> RXs s' = r' # rs \<and> TXs s' = TXs s \<and>
    length (rx_q r') = nat (threadcount p) \<and>
    (\<forall>q \<in> set (rx_q r'). ring_ready mtu (threadcount p) hdr (peerip p) q) \<and>
    rx_peer_ip r' = peerip p \<and> rx_qnum r' = threadcount p \<and> rx_mtu r' = mtu \<and> rx_tifname r' = raw_name tifname_off p \<and>
    0 < rx_fd r' \<and> (0 < fd0 \<longrightarrow> rx_fd r' = fd0) \<and> rx_id r' = rx_id r \<and>
    threads_free held e (thr s') tml' \<and> gtc (thr s') = gtc (thr s) + threadcount p + 1"
proof -
  let ?k = "kern e" and ?ifn = "field ifname_off p" and ?tun = "field tifname_off p" and ?j = "junk_ifr e"
  have g: "grants ?k mtu" and mem: "memory_ok e mtu (threadcount p)" and names: "?ifn \<noteq> []" "3 \<le> length ?tun"
    "length ?tun < IFNAMSIZ" using assms(1) by (simp_all add: session_ok_def)
  have tun: "?tun \<noteq> []" using names(2) by auto
  obtain af w1 where af: "init_af_packet ?k ?ifn (rx_sll r) ?j (world s) = done_with (af, w1)"
    by (rule granted_packet [OF g])
  obtain x w2 where x: "get_interface ?k ?ifn IFMTU ?j w1 = (x, w2)" "ifr_ivalue x = mtu"
    using granted_query [OF g, of ?ifn IFMTU ?j w1] by auto
  obtain fd w3 where fd: "tunnel_fd e ?tun fd0 w2 = (fd, w3)" "0 < fd" "0 < fd0 \<longrightarrow> fd = fd0"
    by (rule granted_tunnel [OF g names(2,3)])
  obtain y w4 where y: "get_interface ?k ?tun IFMAC x w3 = (y, w4)" by (cases "get_interface ?k ?tun IFMAC x w3")
  obtain z w5 where z: "get_interface ?k ?ifn IFINDEX y w4 = (z, w5)" by (cases "get_interface ?k ?ifn IFINDEX y w4")
  obtain hdr w8 where h: "fill_headers ?k p af ?j (junk_frame e) w5 = done_with (hdr, w8)" "headers_ok hdr"
    by (rule session_headers [OF assms(1)])
  have free: "threads_free held e (thr (s\<lparr>world := w8\<rparr>)) tml" using assms(2) by simp
  obtain qs u tml1 where q: "start_rings e hdr mtu (threadcount p) 0 (nat (threadcount p)) (s\<lparr>world := w8\<rparr>)
      = done_with (qs, s\<lparr>world := w8, thr := u\<rparr>)"
    "length qs = nat (threadcount p)" "\<forall>q \<in> set qs. ring_ready mtu (threadcount p) hdr (peerip p) q"
    "threads_free held e u tml1" "gtc u = gtc (thr s) + threadcount p"
    by (rule session_rings [OF assms(1) h(2) free, where ip = "peerip p"]) (use room in simp_all)
  define r' where "r' = r\<lparr>rx_af := af, rx_mtu := mtu, rx_type := TUN, rx_fd := fd, rx_tifname := raw_name tifname_off p,
      rx_ifname := raw_name ifname_off p,
      rx_sll := \<lparr>sll_family = 17, sll_protocol = 0x0300, sll_ifindex = ifr_ivalue z, sll_halen = 6, sll_addr = ifr_hwaddr y\<rparr>,
      rx_tmtu := mtu - int (ETH_HDRLEN + IP4_HDRLEN), rx_peer_ip := peerip p, rx_my_ip := myip p, rx_pcx := pc,
      rx_qnum := threadcount p, rx_lb_delay := \<lparr>tv_sec = 0, tv_nsec = LBDELAY\<rparr>, rx_q := qs\<rparr>"
  define s1 where "s1 = s\<lparr>world := w8, thr := u, RXs := r' # rs\<rparr>"
  have s1: "threads_free held e (thr s1) tml1" using q(4) by (simp add: s1_def)
  obtain v tml2 where v: "start_thread e job_IO s1 = done_with (s1\<lparr>thr := v\<rparr>)" "threads_free held e v tml2" "gtc v = gtc (thr s1) + 1"
    using start_thread_ok [OF mem s1, of job_IO] room q(5) by (auto simp: s1_def)
  have "rx_session e 0 txc pc p s = rx_tunnel e pc p fd x (r\<lparr>rx_af := af, rx_mtu := mtu\<rparr>) (s\<lparr>world := w3\<rparr>)"
    using names(1) tun assms(4,5) af x fd(1,2) by (simp add: rx_session_def Let_def)
  also have "\<dots> = start_thread e job_IO s1"
    using y z h(1) q(1) assms(4) by (simp add: rx_tunnel_def Let_def s1_def r'_def)
  finally have "rx_session e 0 txc pc p s = done_with (s1\<lparr>thr := v\<rparr>)" using v(1) by simp
  then show ?thesis using q(2,3,5) v(2,3) fd(2,3)
    by (intro exI [of _ hdr] exI [of _ r'] exI [of _ "s1\<lparr>thr := v\<rparr>"] exI [of _ tml2]) (simp add: s1_def r'_def)
qed

section \<open>Counting\<close>

lemma granted_ifup:
  assumes "grants k mtu"
  shows "fst (ifup k n ifr w) = 0"
proof -
  have answer: "(fst (k_ioctl k fd r x w) = None) = False" for fd r x w
    using grantsD(3) [OF assms, of fd r x w] by auto
  show ?thesis by (simp add: ifup_def Let_def split_beta answer split: option.split)
qed

text \<open>Room for a sending session per tunnel, and for a receiving one per interface that is up.\<close>

lemma count_two:
  assumes "grants (kern e) mtu" and "field tifname_off p \<noteq> []" and "field tifname_off q \<noteq> []"
  shows "\<exists>mpc. fst (count_peers e [(a, p), (b, q)] (0, 0, 0) w) = (2, 2, mpc)"
  using assms(2,3) by (simp add: Let_def split_beta granted_ifup [OF assms(1)] numeral_2_eq_2)

section \<open>At most one session each way\<close>

definition of_direction :: "int \<Rightarrow> (ptr \<times> peer_context) list \<Rightarrow> nat" where
  "of_direction d ps = length (filter (\<lambda>(_, p). direction p = d) ps)"

lemma of_direction_simps [simp]:
  "of_direction d [] = 0"
  "of_direction d ((pc, p) # ps) = (if direction p = d then Suc (of_direction d ps) else of_direction d ps)"
  by (simp_all add: of_direction_def)

lemma session_first:
  "tx_session e txc rxc pc p s = done_with s' \<Longrightarrow> txc = 0" "rx_session e rxc txc pc p s = done_with s' \<Longrightarrow> rxc = 0"
  by (auto simp: tx_session_def rx_session_def split: if_splits)

lemma setup_peers_limits:
  "setup_peers e ps txc rxc s = done_with s' \<Longrightarrow>
    (of_direction DIR_OUT ps = 0 \<or> txc + of_direction DIR_OUT ps \<le> 1) \<and>
    (of_direction DIR_IN ps = 0 \<or> rxc + of_direction DIR_IN ps \<le> 1)"
proof (induction ps arbitrary: txc rxc s)
  case (Cons x ps)
  obtain pc p where x: "x = (pc, p)" by (cases x)
  have apart: "DIR_IN \<noteq> DIR_OUT" "DIR_MAP \<noteq> DIR_OUT" "DIR_MAP \<noteq> DIR_IN" by (simp_all add: DIR_IN_def DIR_OUT_def DIR_MAP_def)
  consider "direction p = DIR_OUT" | "direction p = DIR_IN" | "direction p = DIR_MAP"
    | "direction p \<notin> {DIR_OUT, DIR_IN, DIR_MAP}" by blast
  then show ?case
  proof cases
    case 1
    then obtain s1 where "tx_session e txc rxc pc p s = done_with s1" "setup_peers e ps (txc + 1) rxc s1 = done_with s'"
      using Cons.prems x by (auto simp: and_then_done)
    with Cons.IH [of "txc + 1" rxc s1] session_first(1) [of e txc rxc pc p s s1] 1 x apart show ?thesis by auto
  next
    case 2
    then obtain s1 where "rx_session e rxc txc pc p s = done_with s1" "setup_peers e ps txc (rxc + 1) s1 = done_with s'"
      using Cons.prems x apart by (auto simp: and_then_done)
    with Cons.IH [of txc "rxc + 1" s1] session_first(2) [of e rxc txc pc p s s1] 2 x apart show ?thesis by auto
  next
    case 3
    then obtain s1 where "setup_peers e ps txc rxc s1 = done_with s'"
      using Cons.prems x apart by (auto simp: and_then_done)
    with Cons.IH [of txc rxc s1] 3 x apart show ?thesis by auto
  next
    case 4
    with Cons.IH [of txc rxc s] Cons.prems x show ?thesis by auto
  qed
qed simp

section \<open>Both directions over one device\<close>

lemma takeWhile_map_upt:
  assumes "takeWhile P (map f [a..<c]) = xs" and "a + length xs < b" and "b \<le> c"
  shows "takeWhile P (map f [a..<b]) = xs"
proof -
  have split: "[a..<c] = [a..<b] @ [b..<c]" using assms(2,3) upt_add_eq_append [of a b "c - b"] by simp
  show ?thesis
  proof (cases "\<forall>x \<in> set (map f [a..<b]). P x")
    case True
    then have "takeWhile P (map f [a..<c]) = map f [a..<b] @ takeWhile P (map f [b..<c])"
      by (simp only: split map_append) (rule takeWhile_append2, blast)
    then have "b - a \<le> length xs" using assms(1) by auto
    then show ?thesis using assms(2) by simp
  next
    case False
    then obtain x where "x \<in> set (map f [a..<b])" "\<not> P x" by blast
    then show ?thesis using assms(1) by (simp add: split)
  qed
qed

lemma raw_name_same:
  assumes "length (field tifname_off p) < IFNAMSIZ"
  shows "same_name (raw_name tifname_off p) (field tifname_off p)"
proof -
  have "takeWhile (\<lambda>c. c \<noteq> NUL) (map (text_mem p) [tifname_off..<tifname_off + IFNAMSIZ]) = field tifname_off p"
  proof (rule takeWhile_map_upt [where c = text_end])
    show "tifname_off + IFNAMSIZ \<le> text_end" by (simp add: offsets)
  qed (use assms in \<open>simp_all add: field_def cstr_def\<close>)
  then show ?thesis by (simp add: same_name_def raw_name_def strncmp0_def)
qed

text \<open>A configuration like the sample file: an ingress and an egress peer on the same tunnel device.\<close>

lemma enumerate_pair:
  assumes "session_ok e mtu p" and "session_ok e mtu q"
    and "direction p = DIR_IN" and "direction q = DIR_OUT" and "field tifname_off q = field tifname_off p"
    and "threads_free held e (thr s) tml" and "gtc (thr s) + threadcount p + threadcount q + 1 < max_threads"
  shows "\<exists>s' t r hdr hdr' tml'. enumerate_interfaces e fresh_tx fresh_rx [(a, p), (b, q)] s = done_with s' \<and>
    TXs s' ! 0 = t \<and> RXs s' ! 0 = r \<and> 0 < tx_fd t \<and> tx_fd t = rx_fd r \<and>
    length (tx_q t) = nat (threadcount q) \<and> length (rx_q r) = nat (threadcount p) \<and>
    tx_qnum t = threadcount q \<and> rx_qnum r = threadcount p \<and> tx_mtu t = mtu \<and> rx_mtu r = mtu \<and>
    tx_peer_ip t = peerip q \<and> rx_peer_ip r = peerip p \<and> sends_as hdr (myip q) \<and>
    (\<forall>x \<in> set (tx_q t). ring_ready mtu (threadcount q) hdr ip x) \<and>
    (\<forall>x \<in> set (rx_q r). ring_ready mtu (threadcount p) hdr' (peerip p) x) \<and>
    gtc (thr s') = gtc (thr s) + threadcount p + threadcount q + 2 \<and>
    tx_id t = tx_id (fresh_tx 0) \<and> rx_id r = rx_id (fresh_rx 0) \<and> threads_free held e (thr s') tml'"
proof -
  have g: "grants (kern e) mtu" and tun: "field tifname_off p \<noteq> []" "field tifname_off q \<noteq> []"
    "length (field tifname_off p) < IFNAMSIZ" using assms(1,5) by (auto simp: session_ok_def)
  obtain mpc w where c: "count_peers e [(a, p), (b, q)] (0, 0, 0) (world s) = ((2, 2, mpc), w)"
    using count_two [OF g tun(1,2)] by (metis prod.collapse)
  have count: "0 < threadcount p" "0 < threadcount q" using assms(1,2) by (simp_all add: session_ok_def memory_ok_def)
  define s0 where "s0 = s\<lparr>world := w, TXs := map fresh_tx [0..<2], RXs := map fresh_rx [0..<2]\<rparr>"
  have fresh: "TXs s0 = [fresh_tx 0, fresh_tx 1]" "RXs s0 = [fresh_rx 0, fresh_rx 1]" "thr s0 = thr s"
    by (simp_all add: s0_def upt_rec numeral_2_eq_2)
  have "shared_fd 0 (map (\<lambda>t. (tx_fd t, tx_tifname t)) (TXs s0)) (field tifname_off p) (junk_fd e) = Inr (junk_fd e)"
    by (simp add: shared_fd_def)
  from rx_session_ok [OF assms(1) _ _ fresh(2) this, where tml = tml and pc = a and held = held] assms(6,7) fresh(3) count obtain hdr' r s1 tml1 where
    rx: "rx_session e 0 0 a p s0 = done_with s1" "RXs s1 = r # [fresh_rx 1]" "TXs s1 = TXs s0"
      "length (rx_q r) = nat (threadcount p)" "\<forall>x \<in> set (rx_q r). ring_ready mtu (threadcount p) hdr' (peerip p) x"
      "rx_peer_ip r = peerip p" "rx_qnum r = threadcount p" "rx_mtu r = mtu" "rx_tifname r = raw_name tifname_off p"
      "0 < rx_fd r" "rx_id r = rx_id (fresh_rx 0)" "threads_free held e (thr s1) tml1"
      "gtc (thr s1) = gtc (thr s) + threadcount p + 1"
    by auto
  have shared: "shared_fd 1 (map (\<lambda>r. (rx_fd r, rx_tifname r)) (RXs s1)) (field tifname_off q) (junk_fd e) = Inr (rx_fd r)"
    using rx(2,9,10) raw_name_same [OF tun(3)] assms(5) by (simp add: shared_fd_def)
  have alloc: "TXs s1 = fresh_tx 0 # [fresh_tx 1]" using rx(3) fresh(1) by simp
  have spare: "gtc (thr s1) + threadcount q < max_threads" using assms(7) rx(13) by simp
  from tx_session_ok [OF assms(2) rx(12) spare alloc shared, where pc = b and ip = ip] obtain hdr t s2 tml2 where tx: "tx_session e 0 1 b q s1 = done_with s2 \<and> TXs s2 = t # [fresh_tx 1] \<and>
      RXs s2 = RXs s1 \<and> headers_ok hdr \<and> sends_as hdr (myip q) \<and> length (tx_q t) = nat (threadcount q) \<and>
      (\<forall>x \<in> set (tx_q t). ring_ready mtu (threadcount q) hdr ip x) \<and>
      tx_peer_ip t = peerip q \<and> tx_qnum t = threadcount q \<and> tx_mtu t = mtu \<and> tx_tifname t = raw_name tifname_off q \<and>
      0 < tx_fd t \<and> (0 < rx_fd r \<longrightarrow> tx_fd t = rx_fd r) \<and> tx_id t = tx_id (fresh_tx 0) \<and>
      threads_free held e (thr s2) tml2 \<and> gtc (thr s2) = gtc (thr s1) + threadcount q + 1"
    by (elim exE) (rule that)
  have "enumerate_interfaces e fresh_tx fresh_rx [(a, p), (b, q)] s = setup_peers e [(a, p), (b, q)] 0 0 s0"
    by (simp only: enumerate_interfaces_def c Let_def prod.case s0_def)
  also have "\<dots> = done_with s2"
    using rx(1) tx assms(3,4) by (simp add: DIR_IN_def DIR_OUT_def)
  finally show ?thesis using rx tx by (intro exI [of _ s2] exI [of _ t] exI [of _ r] exI [of _ hdr] exI [of _ hdr'] exI [of _ tml2]) simp
qed

section \<open>Properties\<close>


definition sample_env :: "(received \<times> int) list env" where
  "sample_env =
     \<lparr>kern = sample_kernel\<lparr>k_sendto := \<lambda>_ _ _ w. (- 1, w)\<rparr>, calloc_ok = (\<lambda>_ _. True),
      fresh_tm = (\<lambda>i. (of_int (i + 4294967296), \<lparr>nxt = 0, prv = 0\<rparr>)), fresh_q = (\<lambda>_. sample_ring [] 0 0 0),
      junk_ifr = \<lparr>ifr_name = [], ifr_ifru = replicate 24 0\<rparr>, junk_frame = [], junk_fd = 0\<rparr>"

definition sample_peer :: "int \<Rightarrow> int \<Rightarrow> u32 \<Rightarrow> u32 \<Rightarrow> peer_context" where
  "sample_peer d n mine theirs = (set_text tifname_off ''tap0'' 255 (set_text ifname_off ''eth1'' 255 blank_peer))
     \<lparr>direction := d, threadcount := n, myip := mine, peerip := theirs\<rparr>"

definition sample_net :: "(received \<times> int) list net" where
  "sample_net = \<lparr>world = [], thr = no_threads, TXs = [], RXs = []\<rparr>"

lemma sample_peer_names [simp]:
  "field ifname_off (sample_peer d n mine theirs) = ''eth1''" "field tifname_off (sample_peer d n mine theirs) = ''tap0''"
proof -
  have same: "field off (x\<lparr>direction := d, threadcount := n, myip := i, peerip := j\<rparr>) = field off x" for off x i j
    by (simp add: field_def)
  show "field ifname_off (sample_peer d n mine theirs) = ''eth1''" "field tifname_off (sample_peer d n mine theirs) = ''tap0''"
    by (simp_all add: sample_peer_def same field_interface_tunnel field_tunnel NUL_def IFNAMSIZ_def)
qed

lemma sample_peer_numbers [simp]:
  "direction (sample_peer d n mine theirs) = d" "threadcount (sample_peer d n mine theirs) = n" "myip (sample_peer d n mine theirs) = mine"
  "peerip (sample_peer d n mine theirs) = theirs"
  by (simp_all add: sample_peer_def)

lemma address_value: "0 \<le> k \<Longrightarrow> k < 2 ^ 40 \<Longrightarrow> uint (of_int k :: ptr) = k"
  by (simp add: unsigned_of_int take_bit_int_eq_self)

lemma sample_addresses:
  "inj_on (\<lambda>i. of_int (i + 4294967296) :: ptr) {0..<max_threads}"
proof (rule inj_onI)
  fix i j :: int
  assume ij: "i \<in> {0..<max_threads}" "j \<in> {0..<max_threads}"
    and eq: "(of_int (i + 4294967296) :: ptr) = of_int (j + 4294967296)"
  have "i + 4294967296 = uint (of_int (i + 4294967296) :: ptr)"
    by (rule address_value [symmetric]) (use ij in \<open>simp_all add: max_threads_def\<close>)
  also have "\<dots> = uint (of_int (j + 4294967296) :: ptr)" by (simp only: eq)
  also have "\<dots> = j + 4294967296"
    by (rule address_value) (use ij in \<open>simp_all add: max_threads_def\<close>)
  finally show "i = j" by simp
qed

lemma sample_grants: "grants (kern sample_env) 1500"
proof -
  have "sint (u32_of_bytes (sample_answer SIOCGIFINDEX)) = 2" "sint (u32_of_bytes (sample_answer SIOCGIFMTU)) = 1500"
    by code_simp+
  then have "ifr_ivalue (x\<lparr>ifr_ifru := sample_answer SIOCGIFINDEX\<rparr>) = 2"
    "ifr_ivalue (x\<lparr>ifr_ifru := sample_answer SIOCGIFMTU\<rparr>) = 1500" for x by (simp_all add: ifr_ivalue_def del: sample_answer.simps)
  then show ?thesis by (auto simp: grants_def kernel_ok_def sample_env_def sample_kernel_def simp del: sample_answer.simps)
qed

lemma sample_session:
  assumes "0 < threadcount p" and "threadcount p \<le> 8" and "field ifname_off p = ''eth1''" and "field tifname_off p = ''tap0''"
  shows "session_ok sample_env 1500 p"
proof -
  let ?n = "threadcount p"
  have "BUFSIZE div 8 \<le> BUFSIZE div ?n" using assms(1,2) by (intro zdiv_mono2) (simp_all add: BUFSIZE_def)
  then have "memory_ok sample_env 1500 ?n"
    using assms(1) sample_addresses by (simp add: memory_ok_def sample_env_def sample_ring_def BUFSIZE_def)
  moreover have "\<exists>hdr w'. fill_headers (kern sample_env) p fd (junk_ifr sample_env) (junk_frame sample_env) w
      = done_with (hdr, w')" for fd w
  proof -
    have "inet_pton (inet_ntoa [10, 0, 0, 1]) = Some [10, 0, 0, 1]" by (rule inet_pton_ntoa) simp
    moreover have "ifr_inaddr (r\<lparr>ifr_ifru := sample_answer SIOCGIFADDR\<rparr>) = [10, 0, 0, 1]" for r
      by (simp add: ifr_inaddr_def read_at_def)
    ultimately show ?thesis
      by (simp add: fill_headers_def get_interface_def arp_request_def sample_env_def sample_kernel_def Let_def)
  qed
  ultimately show ?thesis using sample_grants assms(3,4) by (simp add: session_ok_def sample_env_def IFNAMSIZ_def)
qed

lemma sample_session_ok: "0 < n \<Longrightarrow> n \<le> 8 \<Longrightarrow> session_ok sample_env 1500 (sample_peer d n mine theirs)"
  by (rule sample_session) simp_all

lemma sample_threads_free: "threads_free {} sample_env (thr sample_net) []"
proof -
  have "klist (nodes no_threads) (MTL no_threads) []"
    by (simp add: no_threads_def klist_def cyc_def linked_def get_next_def get_prev_def)
  moreover have "(of_int (i + 4294967296) :: ptr) + TL_offset \<noteq> 1000" if "0 \<le> i" "i < max_threads" for i
  proof
    assume "(of_int (i + 4294967296) :: ptr) + TL_offset = 1000"
    then have "(of_int (i + 4294967328) :: ptr) = of_int 1000" by (simp add: TL_offset_def)
    then have "uint (of_int (i + 4294967328) :: ptr) = uint (of_int 1000 :: ptr)" by (simp only:)
    moreover have "uint (of_int (i + 4294967328) :: ptr) = i + 4294967328"
      by (rule address_value) (use that in \<open>simp_all add: max_threads_def\<close>)
    moreover have "uint (of_int 1000 :: ptr) = 1000" by (rule address_value) simp_all
    ultimately have "i + 4294967328 = 1000" by (simp only:)
    then show False using that by simp
  qed
  ultimately show ?thesis
    by (simp add: threads_free_def threads_ok_def sample_net_def sample_env_def no_threads_def tl_node_def)
qed




end
