(* ===== verification/Startup.thy ===== *)
theory Startup
  imports Sessions Process
begin

text \<open>
  The program as a whole: \<^verbatim>\<open>main\<close> of \<^verbatim>\<open>main.c\<close>, \<^verbatim>\<open>start_supervisor\<close> of \<^verbatim>\<open>state.c\<close>, the supervisor
  thread of \<^verbatim>\<open>workers.c\<close> and \<^verbatim>\<open>drop_privs\<close> of \<^verbatim>\<open>util.c\<close>. \<^verbatim>\<open>main\<close> waits for the supervisor, so the
  two run one after the other here; the signals that arrive meanwhile are a parameter. Printing
  and the sleeping itself leave no trace.
\<close>

section \<open>Giving up privileges\<close>

datatype syscall = Nanosleep | Rt_sigreturn | Exit_call | Read | Write | Ioctl | Mmap | Munmap | Close
  | Rt_sigaction | Rt_sigprocmask | Exit_group | Futex | Dup2

text \<open>A rule can ask for the values of arguments, each with its number.\<close>

datatype priv_call = Setgid int | Setuid int | Allow syscall "(nat \<times> int) list" | Load_filter

definition allowed :: "priv_call list" where
  "allowed = map (\<lambda>c. Allow c [])
     [Nanosleep, Rt_sigreturn, Exit_call, Read, Write, Ioctl, Mmap, Munmap, Close, Rt_sigaction,
      Rt_sigprocmask, Exit_group, Futex] @ [Allow Dup2 [(0, 1), (1, 2)]]"

definition priv_calls :: "priv_call list" where
  "priv_calls = Setgid 65533 # Setuid 65534 # allowed"

text \<open>\<open>answer\<close> is what each call returns; the results are added up before they are looked at.\<close>

definition drop_privs :: "(priv_call \<Rightarrow> int) \<Rightarrow> unit res" where
  "drop_privs answer =
     (if sum_list (map answer priv_calls) \<noteq> 0 then Inl (Exit 1)
      else if answer Load_filter < 0 then Inl (Exit 1) else Inr ())"

section \<open>The supervisor\<close>

text \<open>The signals of one interval, handled in the order they arrive.\<close>

fun deliver :: "int list \<Rightarrow> settings \<Rightarrow> settings res" where
  "deliver [] g = Inr g"
| "deliver (sig # sigs) g =
     (case snd (signal_handler sig g) of Inl er \<Rightarrow> Inl er | Inr g1 \<Rightarrow> deliver sigs g1)"

text \<open>The supervisor's loop from round \<open>i\<close> on; \<open>sigs\<close> gives the signals of each round.\<close>

partial_function (option) supervise :: "(nat \<Rightarrow> int list) \<Rightarrow> nat \<Rightarrow> settings \<Rightarrow> settings may_loop" where
  "supervise sigs i g =
     (if run g = 0 then done_with g
      else case deliver (sigs i) g of
        Inl er \<Rightarrow> Some (Inl er)
      | Inr g1 \<Rightarrow> supervise sigs (i + 1) g1)"

text \<open>
  What the program finds: its arguments, the processors, the files as the scanner sees them, the
  resolver, the kernel with the memory of \<open>env\<close>, the contents of the memory the loader and the
  sessions do not initialise, the answers to \<^verbatim>\<open>drop_privs\<close> and the signals, those of index 0
  before the supervisor's loop begins.
\<close>

record 'w host =
  argcount :: int
  options :: "opt list"
  cpus :: int
  file_tokens_of :: "string \<Rightarrow> nat \<Rightarrow> token"
  resolver :: "string \<Rightarrow> u32"
  fresh_peer :: "int \<Rightarrow> peer_context"
  peer_addr :: "int \<Rightarrow> ptr"
  junk_loader :: loader
  environment :: "'w env"
  junk_tx :: "nat \<Rightarrow> txq"
  junk_rx :: "nat \<Rightarrow> rxq"
  priv_answer :: "priv_call \<Rightarrow> int"
  signals_at :: "nat \<Rightarrow> int list"

definition res_of :: "'a res \<Rightarrow> 'a may_loop" where "res_of r = Some r"

text \<open>
  The peers are visited last to first; a master list that was never initialised holds null
  pointers.
\<close>

definition start_networking :: "'w host \<Rightarrow> peer_context list option \<Rightarrow> 'w net \<Rightarrow> 'w net may_loop" where
  "start_networking h ps s =
     (case ps of
        None \<Rightarrow> Some (Inl (Fault NullDeref))
      | Some ps \<Rightarrow> enumerate_interfaces (environment h) (junk_tx h) (junk_rx h)
          (map (\<lambda>p. (peer_addr h (pid p), p)) (rev ps)) s)"

definition supervisor ::
  "'w host \<Rightarrow> peer_context list option \<Rightarrow> settings \<Rightarrow> 'w net \<Rightarrow> (settings \<times> 'w net) may_loop" where
  "supervisor h ps g s =
     and_then (start_networking h ps s) (\<lambda>s1.
     and_then (res_of (deliver (signals_at h 0) g)) (\<lambda>g1.
     and_then (res_of (drop_privs (priv_answer h))) (\<lambda>_.
     and_then (supervise (signals_at h) 1 g1) (\<lambda>g2. done_with (g2, s1)))))"

section \<open>Start-up\<close>

text \<open>\<^verbatim>\<open>new_thread\<close> up to the creation of the thread.\<close>

definition begin_thread :: "ptr \<Rightarrow> node \<Rightarrow> int \<Rightarrow> threads \<Rightarrow> threads" where
  "begin_thread tm junk job t =
     t\<lparr>nodes := (nodes t)(tm + TL_offset \<mapsto> junk), tms := (tms t)(tm \<mapsto> \<lparr>tm_job = job, tm_id = gtc t\<rparr>),
       gtc := gtc t + 1, calls := calls t @ [Create (gtc t)]\<rparr>"

text \<open>
  The supervisor is created and waited for; it enters the thread list after it has ended.
\<close>

definition start_supervisor ::
  "'w host \<Rightarrow> peer_context list option \<Rightarrow> settings \<Rightarrow> 'w net \<Rightarrow> (settings \<times> 'w net) may_loop" where
  "start_supervisor h ps g s =
     (case init_thread_list (thr s) of
        Inl er \<Rightarrow> Some (Inl er)
      | Inr t \<Rightarrow>
          (let (tm, junk) = fresh_tm (environment h) (gtc t); t1 = begin_thread tm junk job_SUP t in
           and_then (supervisor h ps (g\<lparr>run := 1, running := 1\<rparr>) (s\<lparr>thr := t1\<lparr>supc := supc t1 + 1\<rparr>\<rparr>)) (\<lambda>(g1, s1).
           case add_to_thread_list tm ((thr s1)\<lparr>calls := calls (thr s1) @ [Join (gtc t)]\<rparr>) of
             Inl er \<Rightarrow> Some (Inl er)
           | Inr t2 \<Rightarrow> done_with (g1, s1\<lparr>thr := t2\<rparr>))))"

definition main :: "'w host \<Rightarrow> settings \<Rightarrow> 'w net \<Rightarrow> (int \<times> settings \<times> 'w net) may_loop" where
  "main h g s =
     (if argcount h < 2 then die_1
      else case parse_args (options h) g of
        Inl er \<Rightarrow> Some (Inl er)
      | Inr g1 \<Rightarrow>
          (let g2 = g1\<lparr>cpu_available := cpus h\<rparr> in
           and_then (load_config (resolver h) (fresh_peer h) (file_tokens_of h (config_file g2)) (junk_loader h)) (\<lambda>(r, st).
           if r \<noteq> 0 then die_1
           else and_then (start_supervisor h (peers st) g2 s) (\<lambda>(g3, s1). done_with (0, g3, s1)))))"

section \<open>Lemmas\<close>

text \<open>With nobody running meanwhile, this is \<^verbatim>\<open>new_thread\<close>.\<close>

lemma new_thread_split:
  "new_thread tm junk job_SUP t =
     (let t1 = begin_thread tm junk job_SUP t
      in add_to_thread_list tm (t1\<lparr>supc := supc t1 + 1, calls := calls t1 @ [Join (gtc t)]\<rparr>))"
  by (simp add: new_thread_def begin_thread_def Let_def)

definition harmless :: "int \<Rightarrow> bool" where
  "harmless sig \<longleftrightarrow> sig \<in> {SIGCHLD, SIGTTOU, SIGPROF}"

definition benign :: "int \<Rightarrow> bool" where
  "benign sig \<longleftrightarrow> sig = SIGTERM \<or> harmless sig"

lemma benign_cases:
  "benign sig \<Longrightarrow> snd (signal_handler sig g) = Inr (if sig = SIGTERM then g\<lparr>run := 0\<rparr> else g)"
  "\<not> benign sig \<Longrightarrow> \<exists>n. snd (signal_handler sig g) = Inl (Exit n)"
  by (auto simp: signal_handler_def benign_def harmless_def signals)

lemma harmless_benign: "list_all harmless sigs \<Longrightarrow> list_all benign sigs \<and> SIGTERM \<notin> set sigs"
  by (induction sigs) (auto simp: benign_def harmless_def signals)

lemma deliver_benign:
  "list_all benign sigs \<Longrightarrow> deliver sigs g = Inr (if SIGTERM \<in> set sigs then g\<lparr>run := 0\<rparr> else g)"
  by (induction sigs arbitrary: g) (simp_all add: benign_cases(1))

lemma deliver_fatal: "\<not> list_all benign sigs \<Longrightarrow> \<exists>n. deliver sigs g = Inl (Exit n)"
proof (induction sigs arbitrary: g)
  case (Cons sig sigs)
  show ?case
  proof (cases "benign sig")
    case True
    then have "\<not> list_all benign sigs" using Cons.prems by simp
    with Cons.IH benign_cases(1) [OF True, of g] show ?thesis by (simp split: if_splits)
  next
    case False
    with benign_cases(2) [of sig g] show ?thesis by auto
  qed
qed simp

text \<open>The supervisor's loop: it ends in the first round that brings SIGTERM, or a fatal signal.\<close>

lemma supervise_quiet:
  assumes "\<forall>j < n. list_all harmless (sigs (i + j))"
  shows "supervise sigs i g = supervise sigs (i + n) g"
  using assms
proof (induction n arbitrary: i)
  case (Suc n)
  have "list_all harmless (sigs i)" using Suc.prems by auto
  then have "list_all benign (sigs i)" "SIGTERM \<notin> set (sigs i)" using harmless_benign by blast+
  then have "deliver (sigs i) g = Inr g" using deliver_benign [of "sigs i" g] by simp
  then have "supervise sigs i g = supervise sigs (Suc i) g"
    by (cases "run g = 0") (simp_all add: supervise.simps [of sigs i g] supervise.simps [of sigs "Suc i" g])
  moreover have "\<forall>j < n. list_all harmless (sigs (Suc i + j))" using Suc.prems by fastforce
  ultimately show ?case using Suc.IH [of "Suc i"] by simp
qed simp

lemma supervise_ends:
  assumes "run g \<noteq> 0" and "\<forall>j < n. list_all harmless (sigs (i + j))" and "list_all benign (sigs (i + n))"
    and "SIGTERM \<in> set (sigs (i + n))"
  shows "supervise sigs i g = done_with (g\<lparr>run := 0\<rparr>)"
proof -
  have "deliver (sigs (i + n)) g = Inr (g\<lparr>run := 0\<rparr>)" using deliver_benign [OF assms(3), of g] assms(4) by simp
  then have "supervise sigs (i + n) g = done_with (g\<lparr>run := 0\<rparr>)"
    using assms(1) by (simp add: supervise.simps [of sigs "i + n" g] supervise.simps [of sigs "Suc (i + n)" "g\<lparr>run := 0\<rparr>"])
  then show ?thesis using supervise_quiet [OF assms(2), of g] by simp
qed

lemma supervise_runs_on:
  assumes "\<forall>j \<ge> i. list_all harmless (sigs j)" and "run g \<noteq> 0"
  shows "supervise sigs i g = None"
proof (rule ccontr)
  assume "supervise sigs i g \<noteq> None"
  then obtain r where "supervise sigs i g = Some r" by blast
  then show False
    using assms
  proof (induction rule: supervise.raw_induct [rotated, consumes 1])
    case (1 f sigs i g r)
    have "list_all benign (sigs i)" "SIGTERM \<notin> set (sigs i)"
      using 1(3) harmless_benign [of "sigs i"] by auto
    then have "deliver (sigs i) g = Inr g" using deliver_benign [of "sigs i" g] by simp
    with 1 have "f sigs (Suc i) g = Some r" by simp
    moreover have "\<forall>j \<ge> Suc i. list_all harmless (sigs j)" using 1(3) by simp
    ultimately show ?case using 1(1) 1(4) by blast
  qed
qed

text \<open>The first signal that is not ignored decides.\<close>

lemma supervise_outcome:
  assumes "run g \<noteq> 0" and "\<not> list_all harmless (sigs (i + m))"
  shows "(\<exists>j \<ge> i. SIGTERM \<in> set (sigs j)) \<and> supervise sigs i g = done_with (g\<lparr>run := 0\<rparr>) \<or>
    (\<exists>k. supervise sigs i g = Some (Inl (Exit k)))"
proof -
  define n where "n = (LEAST n. \<not> list_all harmless (sigs (i + n)))"
  have n: "\<not> list_all harmless (sigs (i + n))" unfolding n_def using assms(2) by (rule LeastI)
  have quiet: "\<forall>j < n. list_all harmless (sigs (i + j))" using not_less_Least unfolding n_def by blast
  show ?thesis
  proof (cases "list_all benign (sigs (i + n))")
    case True
    with n have "SIGTERM \<in> set (sigs (i + n))" by (auto simp: list_all_iff benign_def)
    with supervise_ends [OF assms(1) quiet True] show ?thesis by (metis le_add1)
  next
    case False
    then obtain k where "deliver (sigs (i + n)) g = Inl (Exit k)" using deliver_fatal by blast
    then have "supervise sigs (i + n) g = Some (Inl (Exit k))" using assms(1) by (simp add: supervise.simps [of sigs "i + n" g])
    then show ?thesis using supervise_quiet [OF quiet, of g] by simp
  qed
qed

section \<open>The whole run\<close>

text \<open>The counters at the start of the program, and the addresses its threads will get.\<close>

definition threads_new :: "'w env \<Rightarrow> threads \<Rightarrow> bool" where
  "threads_new e t \<longleftrightarrow> gtc t = 0 \<and> supc t = 0 \<and> ioc t = 0 \<and> lbrc t = 0 \<and> MTL t \<in> dom (nodes t) \<and>
     (\<forall>i \<in> {0..<max_threads}. tl_node (fst (fresh_tm e i)) \<noteq> MTL t)"

lemma init_thread_list_new:
  assumes "MTL t \<in> dom (nodes t)"
  obtains t1 where "init_thread_list t = Inr t1" "klist (nodes t1) (MTL t) []" "t1 = t\<lparr>nodes := nodes t1\<rparr>"
proof -
  obtain n where n: "nodes t (MTL t) = Some n" using assms by auto
  let ?h = "(nodes t)(MTL t \<mapsto> \<lparr>nxt = MTL t, prv = MTL t\<rparr>)"
  have "init_thread_list t = Inr (t\<lparr>nodes := ?h\<rparr>)"
    using n by (cases n) (simp add: init_thread_list_def of_list_op_def INIT_LIST_HEAD_def set_next_def set_prev_def)
  moreover have "klist ?h (MTL t) []"
    by (simp add: klist_def cyc_def linked_def get_next_def get_prev_def)
  ultimately show ?thesis using that by fastforce
qed

text \<open>The supervisor's thread exists, but is not in the list before it has ended.\<close>

lemma begin_supervisor:
  assumes "threads_new e t" and "memory_ok e mtu n" and "init_thread_list t = Inr t1"
    and "klist (nodes t1) (MTL t) []" and "t1 = t\<lparr>nodes := nodes t1\<rparr>" and "fresh_tm e 0 = (tm, junk)"
  shows "threads_free {tm} e ((begin_thread tm junk job_SUP t1)\<lparr>supc := 1\<rparr>) []"
proof -
  have t: "gtc t1 = 0" "supc t1 = 0" "ioc t1 = 0" "lbrc t1 = 0" "MTL t1 = MTL t"
    using assms(1) by (subst assms(5), simp add: threads_new_def)+
  have range: "0 \<in> {0..<max_threads}" by (simp add: max_threads_def)
  have apart: "tl_node tm \<noteq> MTL t" using assms(1,6) range by (auto simp: threads_new_def dest: bspec [of _ _ 0])
  have "fst (fresh_tm e i) \<noteq> tm" if i: "i \<in> {1..<max_threads}" for i
  proof
    assume "fst (fresh_tm e i) = tm"
    moreover have "inj_on (\<lambda>i. fst (fresh_tm e i)) {0..<max_threads}" using assms(2) by (simp add: memory_ok_def)
    moreover have "i \<in> {0..<max_threads}" "i \<noteq> 0" using i by auto
    ultimately show False using inj_onD [of "\<lambda>i. fst (fresh_tm e i)" "{0..<max_threads}" i 0] range assms(6) by simp
  qed
  moreover have "klist ((nodes t1)(tm + TL_offset \<mapsto> junk)) (MTL t) []"
  proof -
    have "cyc ((nodes t1)(tm + TL_offset \<mapsto> junk)) [MTL t] = cyc (nodes t1) [MTL t]"
      by (rule cyc_frame) (use apart in \<open>auto simp: tl_node_def get_next_def get_prev_def\<close>)
    then show ?thesis using assms(4) by (simp add: klist_def)
  qed
  ultimately show ?thesis
    using t assms(1) by (auto simp: threads_free_def threads_ok_def begin_thread_def threads_new_def tl_node_def)
qed

text \<open>The supervisor ends: it enters the list, in front of the threads it has started.\<close>

lemma end_supervisor:
  assumes "threads_free {tm} e t tml" and "fst (fresh_tm e 0) = tm"
  shows "\<exists>t'. add_to_thread_list tm (t\<lparr>calls := cs\<rparr>) = Inr t' \<and> gtc t' = gtc t \<and> calls t' = cs \<and>
    klist (nodes t') (MTL t') (map tl_node (tm # tml))"
proof -
  have k: "klist (nodes t) (MTL t) (map tl_node tml)" "tl_node tm \<in> dom (nodes t)" "tl_node tm \<notin> set (map tl_node tml)"
    using assms by (auto simp: threads_free_def threads_ok_def)
  have "tl_node tm \<noteq> MTL t"
    using assms bspec [of "{0..<max_threads}" _ 0] by (auto simp: threads_free_def max_threads_def)
  with list_add_front [OF k(1,2)] k(3) obtain h' where
    "list_add (nodes t) (tl_node tm) (MTL t) = Some h'" "klist h' (MTL t) (tl_node tm # map tl_node tml)" by auto
  then show ?thesis by (simp add: add_to_thread_list_def of_list_op_def tl_node_def)
qed

text \<open>What a run ends with: both sessions as they were set up, all threads in the list.\<close>

definition ran :: "'w host \<Rightarrow> int \<Rightarrow> peer_context \<Rightarrow> peer_context \<Rightarrow> settings \<Rightarrow> 'w net \<Rightarrow> bool" where
  "ran h mtu p q g s \<longleftrightarrow> run g = 0 \<and> cpu_available g = cpus h \<and>
     gtc (thr s) = threadcount p + threadcount q + 3 \<and>
     (\<exists>tml. klist (nodes (thr s)) (MTL (thr s)) (map tl_node (fst (fresh_tm (environment h) 0) # tml))) \<and>
     0 < tx_fd (TXs s ! 0) \<and> tx_fd (TXs s ! 0) = rx_fd (RXs s ! 0) \<and>
     (\<exists>hdr. sends_as hdr (myip q) \<and> length (tx_q (TXs s ! 0)) = nat (threadcount q) \<and>
       (\<forall>x \<in> set (tx_q (TXs s ! 0)). ring_ready mtu (threadcount q) hdr 0 x)) \<and>
     (\<exists>hdr. length (rx_q (RXs s ! 0)) = nat (threadcount p) \<and>
       (\<forall>x \<in> set (rx_q (RXs s ! 0)). ring_ready mtu (threadcount p) hdr (peerip p) x))"

text \<open>The signals of the run: nothing of note up to round \<open>n\<close>, which brings SIGTERM.\<close>

definition stops_at :: "(nat \<Rightarrow> int list) \<Rightarrow> nat \<Rightarrow> bool" where
  "stops_at sigs n \<longleftrightarrow> (\<forall>j < n. list_all harmless (sigs j)) \<and> list_all benign (sigs n) \<and> SIGTERM \<in> set (sigs n)"

lemma stopped:
  assumes "stops_at sigs n" and "run g \<noteq> 0"
  shows "\<exists>g1. deliver (sigs 0) g = Inr g1 \<and> supervise sigs 1 g1 = done_with (g\<lparr>run := 0\<rparr>)"
proof (cases n)
  case 0
  then have "deliver (sigs 0) g = Inr (g\<lparr>run := 0\<rparr>)"
    using assms(1) deliver_benign [of "sigs 0" g] by (simp add: stops_at_def)
  then show ?thesis by (simp add: supervise.simps [of sigs "Suc 0" "g\<lparr>run := 0\<rparr>"])
next
  case (Suc m)
  then have "list_all harmless (sigs 0)" using assms(1) by (simp add: stops_at_def)
  then have "deliver (sigs 0) g = Inr g" using deliver_benign [of "sigs 0" g] harmless_benign [of "sigs 0"] by simp
  moreover have "supervise sigs 1 g = done_with (g\<lparr>run := 0\<rparr>)"
    by (rule supervise_ends [where n = m]) (use assms Suc in \<open>auto simp: stops_at_def\<close>)
  ultimately show ?thesis by simp
qed

lemma supervised_pair:
  assumes "session_ok (environment h) mtu p" and "session_ok (environment h) mtu q"
    and "direction p = DIR_IN" and "direction q = DIR_OUT" and "field tifname_off q = field tifname_off p"
    and "threads_new (environment h) (thr s)" and "threadcount p + threadcount q + 2 < max_threads"
    and "drop_privs (priv_answer h) = Inr ()" and "stops_at (signals_at h) n" and "cpu_available g = cpus h"
  shows "\<exists>g' s'. start_supervisor h (Some [q, p]) g s = done_with (g', s') \<and> ran h mtu p q g' s'"
proof -
  let ?e = "environment h"
  obtain tm junk where tm: "fresh_tm ?e 0 = (tm, junk)" by (cases "fresh_tm ?e 0")
  have mem: "memory_ok ?e mtu (threadcount p)" using assms(1) by (simp add: session_ok_def)
  have head: "MTL (thr s) \<in> dom (nodes (thr s))" using assms(6) by (simp add: threads_new_def)
  obtain t1 where t1: "init_thread_list (thr s) = Inr t1" "klist (nodes t1) (MTL (thr s)) []" "t1 = (thr s)\<lparr>nodes := nodes t1\<rparr>"
    by (rule init_thread_list_new [OF head])
  have gtc: "gtc t1 = 0" "supc t1 = 0" using assms(6) by (subst t1(3), simp add: threads_new_def)+
  define t2 where "t2 = (begin_thread tm junk job_SUP t1)\<lparr>supc := 1\<rparr>"
  have t2: "threads_free {tm} ?e t2 []" "gtc t2 = 1"
    using begin_supervisor [OF assms(6) mem t1 tm] gtc by (simp_all add: t2_def begin_thread_def)
  have free: "threads_free {tm} ?e (thr (s\<lparr>thr := t2\<rparr>)) []"
    and room: "gtc (thr (s\<lparr>thr := t2\<rparr>)) + threadcount p + threadcount q + 1 < max_threads"
    using t2 assms(7) by simp_all
  obtain s1 hdr hdr' tml where s1:
    "enumerate_interfaces ?e (junk_tx h) (junk_rx h) [(peer_addr h (pid p), p), (peer_addr h (pid q), q)] (s\<lparr>thr := t2\<rparr>) = done_with s1"
    "0 < tx_fd (TXs s1 ! 0)" "tx_fd (TXs s1 ! 0) = rx_fd (RXs s1 ! 0)" "sends_as hdr (myip q)"
    "length (tx_q (TXs s1 ! 0)) = nat (threadcount q)" "\<forall>x \<in> set (tx_q (TXs s1 ! 0)). ring_ready mtu (threadcount q) hdr 0 x"
    "length (rx_q (RXs s1 ! 0)) = nat (threadcount p)" "\<forall>x \<in> set (rx_q (RXs s1 ! 0)). ring_ready mtu (threadcount p) hdr' (peerip p) x"
    "gtc (thr s1) = gtc (thr (s\<lparr>thr := t2\<rparr>)) + threadcount p + threadcount q + 2" "threads_free {tm} ?e (thr s1) tml"
    using enumerate_pair [OF assms(1-5) free room, of "junk_tx h" "junk_rx h" "peer_addr h (pid p)" "peer_addr h (pid q)" 0]
    by (elim exE conjE) (rule that, assumption, simp_all)
  obtain g1 where g1: "deliver (signals_at h 0) (g\<lparr>run := 1, running := 1\<rparr>) = Inr g1"
    "supervise (signals_at h) 1 g1 = done_with (g\<lparr>run := 0, running := 1\<rparr>)"
    using stopped [OF assms(9), of "g\<lparr>run := 1, running := 1\<rparr>"] by auto
  obtain t3 where t3: "add_to_thread_list tm ((thr s1)\<lparr>calls := calls (thr s1) @ [Join 0]\<rparr>) = Inr t3" "gtc t3 = gtc (thr s1)"
    "klist (nodes t3) (MTL t3) (map tl_node (tm # tml))"
    using end_supervisor [OF s1(10), of "calls (thr s1) @ [Join 0]"] tm by auto
  have up: "(begin_thread tm junk job_SUP t1)\<lparr>supc := supc (begin_thread tm junk job_SUP t1) + 1\<rparr> = t2"
    using gtc by (simp add: t2_def begin_thread_def)
  have "supervisor h (Some [q, p]) (g\<lparr>run := 1, running := 1\<rparr>) (s\<lparr>thr := t2\<rparr>) = done_with (g\<lparr>run := 0, running := 1\<rparr>, s1)"
    using s1(1) g1 assms(8) by (simp add: supervisor_def start_networking_def res_of_def)
  then have "start_supervisor h (Some [q, p]) g s = done_with (g\<lparr>run := 0, running := 1\<rparr>, s1\<lparr>thr := t3\<rparr>)"
    using t1(1) gtc tm t3(1) by (simp add: start_supervisor_def Let_def up [simplified])
  moreover have "ran h mtu p q (g\<lparr>run := 0, running := 1\<rparr>) (s1\<lparr>thr := t3\<rparr>)"
    using s1(2-9) t2(2) t3(2,3) assms(10) tm by (auto simp: ran_def)
  ultimately show ?thesis by blast
qed

text \<open>
  A host that can run: a command line and a configuration file that are accepted, with an
  ingress peer \<open>p\<close> and an egress peer \<open>q\<close> on one tunnel device, a kernel that grants what is
  asked, memory for the rings and the threads, and no signal of note before SIGTERM.
\<close>

definition configured :: "'w host \<Rightarrow> settings \<Rightarrow> 'w net \<Rightarrow> int \<Rightarrow> peer_context \<Rightarrow> peer_context \<Rightarrow> bool" where
  "configured h g s mtu p q \<longleftrightarrow> 2 \<le> argcount h \<and>
     (\<exists>g1 sect kvs pcs. parse_args (options h) g = Inr g1 \<and>
        coming (file_tokens_of h (config_file g1)) 0 (file_tokens sect kvs pcs) \<and> list_all good_peer pcs \<and>
        build_peers (resolver h) (fresh_peer h) 1 pcs = Inr [p, q]) \<and>
     session_ok (environment h) mtu p \<and> session_ok (environment h) mtu q \<and>
     direction p = DIR_IN \<and> direction q = DIR_OUT \<and> field tifname_off q = field tifname_off p \<and>
     threads_new (environment h) (thr s) \<and> threadcount p + threadcount q + 2 < max_threads \<and>
     drop_privs (priv_answer h) = Inr () \<and> (\<exists>n. stops_at (signals_at h) n)"

lemma configured_runs:
  assumes "configured h g s mtu p q"
  shows "\<exists>g' s'. main h g s = done_with (0, g', s') \<and> ran h mtu p q g' s'"
proof -
  from assms obtain g1 sect kvs pcs n where args: "2 \<le> argcount h" "parse_args (options h) g = Inr g1"
    and tokens: "coming (file_tokens_of h (config_file g1)) 0 (file_tokens sect kvs pcs)" "list_all good_peer pcs"
    and built: "build_peers (resolver h) (fresh_peer h) 1 pcs = Inr [p, q]"
    and up: "session_ok (environment h) mtu p" "session_ok (environment h) mtu q" "direction p = DIR_IN" "direction q = DIR_OUT"
      "field tifname_off q = field tifname_off p" "threads_new (environment h) (thr s)"
      "threadcount p + threadcount q + 2 < max_threads" "drop_privs (priv_answer h) = Inr ()" "stops_at (signals_at h) n"
    by (auto simp: configured_def)
  let ?toks = "file_tokens_of h (config_file g1)"
  have "pcs \<noteq> []" using built by auto
  then obtain st where st: "load_config (resolver h) (fresh_peer h) ?toks (junk_loader h) = done_with (0, st)"
    "peers st = Some [q, p]"
    using load_config_file [OF _ tokens(2,1), of "resolver h" "fresh_peer h" "junk_loader h"] built by auto
  obtain g' s' where "start_supervisor h (Some [q, p]) (g1\<lparr>cpu_available := cpus h\<rparr>) s = done_with (g', s')"
    "ran h mtu p q g' s'"
    using supervised_pair [OF up, of "g1\<lparr>cpu_available := cpus h\<rparr>"] by auto
  with st args show ?thesis by (simp add: main_def Let_def)
qed

section \<open>Properties\<close>


text \<open>
  A host with a configuration of two peers, for its own address and the other side's; SIGTERM
  comes in the second round.
\<close>

definition two_peers :: "string \<Rightarrow> string \<Rightarrow> (string \<times> (string \<times> string) list) list" where
  "two_peers me them =
     [(''in'', [(''peer-ip'', them), (''interface'', ''eth1''), (''tunnel'', ''tap0''), (''type'', ''ingress''), (''threads'', ''1'')]),
      (''out'', [(''local-ip'', me), (''interface'', ''eth1''), (''tunnel'', ''tap0''), (''type'', ''egress''), (''threads'', ''2'')])]"

definition sample_resolver :: "string \<Rightarrow> u32" where
  "sample_resolver a = (if a = ''10.0.0.1'' then 0x0100000a else 0x0200000a)"

definition sample_host :: "string \<Rightarrow> string \<Rightarrow> (received \<times> int) list host" where
  "sample_host me them = \<lparr>argcount = 3, options = [ConfigPath ''lanes.yaml''], cpus = 4,
     file_tokens_of = (\<lambda>_. stream_of (file_tokens ''global'' [(''name'', ''t'')] (two_peers me them))),
     resolver = sample_resolver, fresh_peer = (\<lambda>_. blank_peer), peer_addr = (\<lambda>i. of_int i), junk_loader = blank_loader,
     environment = sample_env, junk_tx = (\<lambda>_. sample_txq []), junk_rx = (\<lambda>_. sample_rxq []), priv_answer = (\<lambda>_. 0),
     signals_at = (\<lambda>i. if i < 2 then [SIGCHLD] else [SIGTERM])\<rparr>"

definition sample_settings :: settings where
  "sample_settings = \<lparr>config_file = [], cpu_available = 0, dbg = 0, run = 0, running = 0\<rparr>"

lemma assigns_sample:
  assumes "dir \<in> {(''ingress'', DIR_IN), (''egress'', DIR_OUT)}"
  shows "assigns r [(''interface'', ''eth1''), (''tunnel'', ''tap0''), (''type'', fst dir), (''threads'', ns)] p =
     Inr ((set_text tifname_off ''tap0'' 255 (set_text ifname_off ''eth1'' 255 p))\<lparr>direction := snd dir, threadcount := atoi ns\<rparr>)"
proof -
  have "assign r ''type'' (fst dir) x = Inr (x\<lparr>direction := snd dir\<rparr>)" "assign r ''threads'' ns x = Inr (x\<lparr>threadcount := atoi ns\<rparr>)" for x
    using assms by (auto simp: assign_def is_prefix_of_def strncmp0_def IFNAMSIZ_def)
  then show ?thesis by (simp add: assign_interface assign_tunnel)
qed

lemma assign_addresses:
  "r v \<noteq> 0 \<Longrightarrow> assign r ''peer-ip'' v p = Inr ((set_text peer_ip_off v 255 p)\<lparr>peerip := r v\<rparr>)"
  "r v \<noteq> 0 \<Longrightarrow> assign r ''local-ip'' v p = Inr (p\<lparr>myip := r v\<rparr>)"
  by (simp_all add: assign_def is_prefix_of_def strncmp0_def IFNAMSIZ_def)

lemma field_numbers [simp]:
  "field off (p\<lparr>direction := d\<rparr>) = field off p" "field off (p\<lparr>threadcount := n\<rparr>) = field off p"
  by (simp_all add: field_def)

lemma set_text_numbers [simp]:
  "peerip (set_text off v n p) = peerip p" "myip (set_text off v n p) = myip p"
  by (simp_all add: set_text_def)

lemma sample_named:
  "field ifname_off (set_text tifname_off ''tap0'' 255 (set_text ifname_off ''eth1'' 255 p)) = ''eth1''"
  "field tifname_off (set_text tifname_off ''tap0'' 255 (set_text ifname_off ''eth1'' 255 p)) = ''tap0''"
  by (simp_all add: field_interface_tunnel field_tunnel NUL_def IFNAMSIZ_def)

lemma sample_good: "list_all good_peer (two_peers ''10.0.0.1'' ''10.0.0.2'')" "list_all good_peer (two_peers ''10.0.0.2'' ''10.0.0.1'')"
  by code_simp+

lemma sample_configured:
  assumes "(me, them) \<in> {(''10.0.0.1'', ''10.0.0.2''), (''10.0.0.2'', ''10.0.0.1'')}"
  obtains p q where "configured (sample_host me them) sample_settings sample_net 1500 p q"
    "threadcount p = 1" "threadcount q = 2" "peerip p = sample_resolver them" "myip q = sample_resolver me"
proof -
  let ?h = "sample_host me them"
  let ?named = "\<lambda>p. set_text tifname_off ''tap0'' 255 (set_text ifname_off ''eth1'' 255 p)"
  define p where "p = (?named ((set_text peer_ip_off them 255 (named_peer (\<lambda>_. blank_peer) 1 ''in''))\<lparr>peerip := sample_resolver them\<rparr>))
      \<lparr>direction := DIR_IN, threadcount := atoi ''1''\<rparr>"
  define q where "q = (?named ((named_peer (\<lambda>_. blank_peer) 2 ''out'')\<lparr>myip := sample_resolver me\<rparr>))
      \<lparr>direction := DIR_OUT, threadcount := atoi ''2''\<rparr>"
  have n: "atoi ''1'' = 1" "atoi ''2'' = 2" by code_simp+
  have addr: "sample_resolver a \<noteq> 0" for a by (simp add: sample_resolver_def)
  have built: "build_peers (resolver ?h) (fresh_peer ?h) 1 (two_peers me them) = Inr [p, q]"
    using assigns_sample [of "(''ingress'', DIR_IN)"] assigns_sample [of "(''egress'', DIR_OUT)"]
    by (simp add: sample_host_def two_peers_def p_def q_def assign_addresses addr)
  have numbers: "threadcount p = 1" "threadcount q = 2" "direction p = DIR_IN" "direction q = DIR_OUT"
    "peerip p = sample_resolver them" "myip q = sample_resolver me"
    by (simp_all add: p_def q_def n)
  have names: "field ifname_off p = ''eth1''" "field tifname_off p = ''tap0''" "field ifname_off q = ''eth1''" "field tifname_off q = ''tap0''"
    by (simp_all add: p_def q_def sample_named)
  have ok: "session_ok (environment ?h) 1500 p" "session_ok (environment ?h) 1500 q"
    using sample_session [of p] sample_session [of q] numbers names by (simp_all add: sample_host_def)
  let ?g1 = "sample_settings\<lparr>config_file := ''lanes.yaml'', dbg := 4\<rparr>"
  have "parse_args [ConfigPath ''lanes.yaml''] sample_settings = Inr ?g1" by code_simp
  then have args: "parse_args (options ?h) sample_settings = Inr ?g1" by (simp add: sample_host_def)
  have tokens: "coming (file_tokens_of ?h (config_file ?g1)) 0 (file_tokens ''global'' [(''name'', ''t'')] (two_peers me them))"
    using coming_stream_of by (simp add: sample_host_def)
  have good: "list_all good_peer (two_peers me them)" using assms sample_good by auto
  have new: "threads_new (environment ?h) (thr sample_net)"
    using sample_threads_free by (simp add: threads_new_def threads_free_def sample_host_def sample_net_def no_threads_def)
  have "drop_privs (\<lambda>_. 0) = Inr ()" by code_simp
  then have priv: "drop_privs (priv_answer ?h) = Inr ()" by (simp add: sample_host_def)
  have sigs: "stops_at (signals_at ?h) 2"
    by (simp add: stops_at_def sample_host_def harmless_def benign_def)
  have "configured ?h sample_settings sample_net 1500 p q"
    unfolding configured_def
  proof (intro conjI)
    show "\<exists>g1 sect kvs pcs. parse_args (options ?h) sample_settings = Inr g1 \<and>
        coming (file_tokens_of ?h (config_file g1)) 0 (file_tokens sect kvs pcs) \<and> list_all good_peer pcs \<and>
        build_peers (resolver ?h) (fresh_peer ?h) 1 pcs = Inr [p, q]"
      using args tokens good built by blast
    show "\<exists>n. stops_at (signals_at ?h) n" using sigs by blast
  qed (use ok numbers names new priv in \<open>simp_all add: sample_host_def max_threads_def\<close>)
  with numbers that show ?thesis by blast
qed


text \<open>
  C25: the supervisor's loop, once the program runs, goes on for ever exactly when no signal but
  the ignored ones ever comes; otherwise the first other signal ends it: SIGTERM lets it return,
  with \<open>run\<close> cleared, and any other ends the process.
\<close>

theorem supervisor_runs_until_stopped:
  assumes "run g \<noteq> 0"
  shows "(supervise sigs i g = None \<longleftrightarrow> (\<forall>j \<ge> i. list_all harmless (sigs j))) \<and>
    (\<forall>g'. supervise sigs i g = done_with g' \<longrightarrow> g' = g\<lparr>run := 0\<rparr> \<and> (\<exists>j \<ge> i. SIGTERM \<in> set (sigs j)))"
proof (cases "\<forall>j \<ge> i. list_all harmless (sigs j)")
  case True
  then show ?thesis using supervise_runs_on [OF True assms] by simp
next
  case False
  then obtain m where "\<not> list_all harmless (sigs (i + m))" by (metis le_Suc_ex)
  with supervise_outcome [OF assms] show ?thesis using False by fastforce
qed

theorem supervisor_runs_until_stopped_witness:
  "supervise (\<lambda>_. [SIGCHLD]) 1 (sample_settings\<lparr>run := 1\<rparr>) = None \<and>
   supervise (\<lambda>i. if i < 3 then [] else [SIGTERM]) 1 (sample_settings\<lparr>run := 1\<rparr>) \<noteq> None"
proof
  have "list_all harmless [SIGCHLD]" by (simp add: harmless_def)
  then show "supervise (\<lambda>_. [SIGCHLD]) 1 (sample_settings\<lparr>run := 1\<rparr>) = None"
    using supervisor_runs_until_stopped [of "sample_settings\<lparr>run := 1\<rparr>" "\<lambda>_. [SIGCHLD]" 1] by simp
  have "\<not> list_all harmless [SIGTERM]" by (simp add: harmless_def signals)
  then have "\<not> (\<forall>j \<ge> 1. list_all harmless (if j < (3 :: nat) then [] else [SIGTERM]))"
    by (auto intro!: exI [of _ 3])
  then show "supervise (\<lambda>i. if i < 3 then [] else [SIGTERM]) 1 (sample_settings\<lparr>run := 1\<rparr>) \<noteq> None"
    using supervisor_runs_until_stopped [of "sample_settings\<lparr>run := 1\<rparr>" "\<lambda>i. if i < 3 then [] else [SIGTERM]" 1] by simp
qed

text \<open>
  \<^verbatim>\<open>drop_privs\<close>, where every call returns 0 or a negative error, succeeds exactly when every call
  does: the errors add up and cannot cancel each other.
\<close>

theorem drop_privs_all_or_nothing:
  assumes "\<forall>c. answer c \<le> 0"
  shows "drop_privs answer = (if \<forall>c \<in> set (Load_filter # priv_calls). answer c = 0 then Inr () else Inl (Exit 1))"
proof -
  have "sum_list (map answer cs) \<le> 0" for cs using assms by (induction cs) (auto intro: add_nonpos_nonpos)
  then have "sum_list (map answer cs) = 0 \<longleftrightarrow> (\<forall>c \<in> set cs. answer c = 0)" for cs
  proof (induction cs)
    case (Cons c cs)
    have "answer c \<le> 0" using assms by simp
    then have "answer c + sum_list (map answer cs) = 0 \<longleftrightarrow> answer c = 0 \<and> sum_list (map answer cs) = 0"
      using Cons.prems [of cs] by linarith
    with Cons show ?case by simp
  qed simp
  moreover have "answer Load_filter < 0 \<longleftrightarrow> answer Load_filter \<noteq> 0" using assms by (simp add: order_less_le)
  ultimately show ?thesis by (auto simp: drop_privs_def)
qed

theorem drop_privs_all_or_nothing_witness:
  "drop_privs (\<lambda>c. if c = Setuid 65534 then - 1 else 0) = Inl (Exit 1) \<and> drop_privs (\<lambda>_. 0) = Inr ()"
  using drop_privs_all_or_nothing [of "\<lambda>c. if c = Setuid 65534 then - 1 else 0"] drop_privs_all_or_nothing [of "\<lambda>_. 0"]
  by (auto simp: priv_calls_def)

end
