(* ===== verification/Races.thy ===== *)
theory Races
  imports Traffic
begin

text \<open>
  One ring shared by its producer (\<^verbatim>\<open>tx_io\<close>, \<^verbatim>\<open>rx_io\<close>) and its consumer (\<^verbatim>\<open>tx\<close>, \<^verbatim>\<open>rx\<close>) that run at the
  same time. The bodies of \<^verbatim>\<open>push\<close>, \<^verbatim>\<open>pop\<close>, \<^verbatim>\<open>reset_ring\<close> and of the threads' publishing code are
  cut between the statements that use shared memory: an atomic operation is one step, a test is
  one, and a statement that updates a member without an atomic operation, \<^verbatim>\<open>sz = sz + 1\<close>, is a
  load and a store. Uninterrupted, the steps are the functions of the theories \<^verbatim>\<open>Ring\<close> and
  \<^verbatim>\<open>Workers\<close>.
\<close>

section \<open>Where a thread is\<close>

datatype producer_at = PIdle | PScan | PSkip | PWrap | PTest | PFull | PDrop | PDone | PRelease | PTake
  | PFill nat | PUnlock nat | PLoad | PStore u32 | PAdvance | PBack

datatype consumer_at = CIdle | CTest | CZero | CFree | CFull | CReset | CResetOut | CResetSz | CResetLock
  | CResetFull | CResetLen nat | CWait | CWrap | CScan | CSkip
  | CRelease | CTake | CSend nat | CClear nat | CLoad nat | CStore nat u32 | CUnlock nat

section \<open>Steps\<close>

text \<open>\<open>n\<close> is the length of what the producer reads when it fills a slot.\<close>

fun producer_step :: "int \<Rightarrow> Q \<Rightarrow> producer_at \<Rightarrow> (Q \<times> producer_at) res" where
  "producer_step n q PIdle =
     (let (old, l) = atomic_lock (qlock q) in Inr (q\<lparr>qlock := l\<rparr>, if old \<noteq> 0 then PIdle else PScan))"
| "producer_step n q PScan =
     (let i = unat (q_in q) in
      if length (R q) \<le> i then Inl (Fault OutOfBounds)
      else let (old, l) = atomic_lock (block_lock (R q ! i))
           in Inr (set_slot_lock i l q, if old \<noteq> 0 then PSkip else PWrap))"
| "producer_step n q PSkip = Inr (q\<lparr>q_in := (if rsz q \<le> q_in q then 0 else q_in q) + 1\<rparr>, PScan)"
| "producer_step n q PWrap = Inr (if rsz q \<le> q_in q then q\<lparr>q_in := 0\<rparr> else q, PTest)"
| "producer_step n q PTest = Inr (q, if rsz q - 1 \<le> sz q \<or> q_in q = q_out q - 1 then PFull else PRelease)"
| "producer_step n q PFull = Inr (q\<lparr>full := 1\<rparr>, PDrop)"
| "producer_step n q PDrop =
     (if length (R q) \<le> unat (q_in q) then Inl (Fault OutOfBounds) else Inr (unlock_slot (unat (q_in q)) q, PDone))"
| "producer_step n q PDone = Inr (unlock_queue q, PIdle)"
| "producer_step n q PRelease = Inr (unlock_queue q, PTake)"
| "producer_step n q PTake =
     (if length (R q) \<le> unat (q_in q) then Inl (Fault OutOfBounds) else Inr (q, PFill (unat (q_in q))))"
| "producer_step n q (PFill j) = Inr (set_blen j n q, PUnlock j)"
| "producer_step n q (PUnlock j) = Inr (unlock_slot j q, PLoad)"
| "producer_step n q PLoad = Inr (q, PStore (if rsz q \<le> sz q then sz q else sz q + 1))"
| "producer_step n q (PStore v) = Inr (q\<lparr>sz := v\<rparr>, PAdvance)"
| "producer_step n q PAdvance = Inr (q\<lparr>q_in := q_in q + 1\<rparr>, PBack)"
| "producer_step n q PBack = Inr (if rsz q \<le> q_in q then q\<lparr>q_in := q_in q - q_in q\<rparr> else q, PIdle)"

text \<open>\<open>CReset\<close> starts \<^verbatim>\<open>reset_ring\<close>, outside the lock; \<open>CWait\<close> is the sleep while the size is 0.\<close>

fun consumer_step :: "Q \<Rightarrow> consumer_at \<Rightarrow> (Q \<times> consumer_at) res" where
  "consumer_step q CIdle =
     (let (old, l) = atomic_lock (qlock q) in Inr (q\<lparr>qlock := l\<rparr>, if old \<noteq> 0 then CIdle else CTest))"
| "consumer_step q CTest = Inr (q, if sz q < 1 \<or> q_in q = q_out q then CZero else CWrap)"
| "consumer_step q CZero = Inr (q\<lparr>sz := 0\<rparr>, CFree)"
| "consumer_step q CFree = Inr (unlock_queue q, CFull)"
| "consumer_step q CFull = Inr (q, if full q \<noteq> 0 then CReset else CWait)"
| "consumer_step q CReset = Inr (q\<lparr>q_in := 0\<rparr>, CResetOut)"
| "consumer_step q CResetOut = Inr (q\<lparr>q_out := 0\<rparr>, CResetSz)"
| "consumer_step q CResetSz = Inr (q\<lparr>sz := 0\<rparr>, CResetLock)"
| "consumer_step q CResetLock = Inr (q\<lparr>qlock := 0\<rparr>, CResetFull)"
| "consumer_step q CResetFull = Inr (q\<lparr>full := 0\<rparr>, CResetLen 0)"
| "consumer_step q (CResetLen i) =
     (if unat (rsz q) \<le> i then Inr (q, CWait)
      else if length (R q) \<le> i then Inl (Fault OutOfBounds)
      else Inr (set_blen i 0 q, CResetLen (Suc i)))"
| "consumer_step q CWait = Inr (q, if sz q = 0 then CWait else CIdle)"
| "consumer_step q CWrap = Inr (if rsz q - 1 \<le> q_out q then q\<lparr>q_out := 0\<rparr> else q, CScan)"
| "consumer_step q CScan =
     (if 0 < sz q then
        (let i = unat (q_out q) in
         if length (R q) \<le> i then Inl (Fault OutOfBounds)
         else let (old, l) = atomic_lock (block_lock (R q ! i))
              in Inr (set_slot_lock i l q, if old \<noteq> 0 then CSkip else CRelease))
      else Inr (q, CRelease))"
| "consumer_step q CSkip = Inr (q\<lparr>q_out := (if rsz q - 1 \<le> q_out q then 0 else q_out q + 1)\<rparr>, CScan)"
| "consumer_step q CRelease = Inr (unlock_queue q, CTake)"
| "consumer_step q CTake =
     (if length (R q) \<le> unat (q_out q + 1) then Inl (Fault OutOfBounds)
      else Inr (q\<lparr>q_out := q_out q + 1\<rparr>, CSend (unat (q_out q))))"
| "consumer_step q (CSend j) = Inr (q, CClear j)"
| "consumer_step q (CClear j) = Inr (set_blen j (- 1) q, CLoad j)"
| "consumer_step q (CLoad j) = Inr (q, CStore j (if sz q < 1 then 0 else sz q - 1))"
| "consumer_step q (CStore j v) = Inr (q\<lparr>sz := v\<rparr>, CUnlock j)"
| "consumer_step q (CUnlock j) = Inr (unlock_slot j q, CIdle)"

text \<open>
  The system, with two histories that no step reads: the lengths the producer stored and the
  lengths the consumer found, each in order.
\<close>

record sys =
  ring :: Q
  prod_at :: producer_at
  cons_at :: consumer_at
  stored :: "int list"
  found :: "int list"

datatype act = Producer int | Consumer

fun act_step :: "act \<Rightarrow> sys \<Rightarrow> sys option" where
  "act_step (Producer n) s =
     (case producer_step n (ring s) (prod_at s) of
        Inl _ \<Rightarrow> None
      | Inr (q, p) \<Rightarrow> Some (s\<lparr>ring := q, prod_at := p,
          stored := (case prod_at s of PFill _ \<Rightarrow> stored s @ [n] | _ \<Rightarrow> stored s)\<rparr>))"
| "act_step Consumer s =
     (case consumer_step (ring s) (cons_at s) of
        Inl _ \<Rightarrow> None
      | Inr (q, c) \<Rightarrow> Some (s\<lparr>ring := q, cons_at := c,
          found := (case cons_at s of CSend j \<Rightarrow> found s @ [blen (R (ring s) ! j)] | _ \<Rightarrow> found s)\<rparr>))"

text \<open>The states reached under any scheduling while \<open>P\<close> holds.\<close>

inductive reach :: "(sys \<Rightarrow> bool) \<Rightarrow> sys \<Rightarrow> sys \<Rightarrow> bool" for P s0 where
  reach_start: "reach P s0 s0"
| reach_step: "reach P s0 s \<Longrightarrow> act_step a s = Some s' \<Longrightarrow> P s' \<Longrightarrow> reach P s0 s'"

fun schedule :: "act list \<Rightarrow> sys \<Rightarrow> sys option" where
  "schedule [] s = Some s"
| "schedule (a # as) s = (case act_step a s of None \<Rightarrow> None | Some s' \<Rightarrow> schedule as s')"

text \<open>A schedule along which \<open>P\<close> holds.\<close>

fun keeps :: "(sys \<Rightarrow> bool) \<Rightarrow> act list \<Rightarrow> sys \<Rightarrow> bool" where
  "keeps P [] s = True"
| "keeps P (a # as) s = (case act_step a s of None \<Rightarrow> False | Some s' \<Rightarrow> P s' \<and> keeps P as s')"

lemma schedule_reach:
  "reach P s0 s \<Longrightarrow> keeps P as s \<Longrightarrow> schedule as s = Some s' \<Longrightarrow> reach P s0 s'"
  by (induction as arbitrary: s) (auto split: option.splits intro: reach_step)

definition start :: "Q \<Rightarrow> sys" where
  "start q = \<lparr>ring = q, prod_at = PIdle, cons_at = CIdle, stored = [], found = []\<rparr>"

section \<open>Uninterrupted, the steps are push and pop\<close>

fun prun :: "nat \<Rightarrow> int \<Rightarrow> Q \<Rightarrow> producer_at \<Rightarrow> (Q \<times> producer_at) res" where
  "prun 0 n q p = Inr (q, p)"
| "prun (Suc k) n q p = (case producer_step n q p of Inl e \<Rightarrow> Inl e | Inr (q', p') \<Rightarrow> prun k n q' p')"

fun crun :: "nat \<Rightarrow> Q \<Rightarrow> consumer_at \<Rightarrow> (Q \<times> consumer_at) res" where
  "crun 0 q c = Inr (q, c)"
| "crun (Suc k) q c = (case consumer_step q c of Inl e \<Rightarrow> Inl e | Inr (q', c') \<Rightarrow> crun k q' c')"

lemma prun_add: "prun (k + m) n q p = (case prun k n q p of Inl e \<Rightarrow> Inl e | Inr (q', p') \<Rightarrow> prun m n q' p')"
  by (induction k arbitrary: q p) (simp_all split: sum.split prod.split)

lemma crun_add: "crun (k + m) q c = (case crun k q c of Inl e \<Rightarrow> Inl e | Inr (q', c') \<Rightarrow> crun m q' c')"
  by (induction k arbitrary: q c) (simp_all split: sum.split prod.split)

lemma push_scan_steps: "push_scan q = Some r \<Longrightarrow> \<forall>q'. r = Inr q' \<longrightarrow> (\<exists>k. prun k n q PScan = Inr (q', PWrap))"
proof (induction rule: push_scan.raw_induct [rotated, consumes 1])
  case (1 push_scan q r)
  let ?i = "unat (q_in q)"
  obtain old l where lock: "atomic_lock (block_lock (R q ! ?i)) = (old, l)" by (cases "atomic_lock (block_lock (R q ! ?i))")
  show ?case
  proof (intro allI impI)
    fix q'
    assume r: "r = Inr q'"
    show "\<exists>k. prun k n q PScan = Inr (q', PWrap)"
    proof (cases "length (R q) \<le> ?i \<or> old = 0")
      case True
      with 1(2) r lock have "prun 1 n q PScan = Inr (q', PWrap)" by (auto simp: Let_def split: if_splits)
      then show ?thesis by blast
    next
      case False
      let ?q1 = "set_slot_lock ?i l q"
      let ?q2 = "?q1\<lparr>q_in := (if rsz q \<le> q_in q then 0 else q_in q) + 1\<rparr>"
      have "push_scan ?q2 = Some r" using 1(2) False lock by (simp add: Let_def)
      from 1(1) [OF this] r obtain k where "prun k n ?q2 PScan = Inr (q', PWrap)" by blast
      moreover have "prun (2 + k) n q PScan = prun k n ?q2 PScan"
        using False lock by (simp add: prun_add Let_def set_slot_lock_def numeral_2_eq_2)
      ultimately show ?thesis by metis
    qed
  qed
qed

lemma pop_scan_steps: "pop_scan q = Some r \<Longrightarrow> \<forall>q'. r = Inr q' \<longrightarrow> (\<exists>k. crun k q CScan = Inr (q', CRelease))"
proof (induction rule: pop_scan.raw_induct [rotated, consumes 1])
  case (1 pop_scan q r)
  let ?i = "unat (q_out q)"
  obtain old l where lock: "atomic_lock (block_lock (R q ! ?i)) = (old, l)" by (cases "atomic_lock (block_lock (R q ! ?i))")
  show ?case
  proof (intro allI impI)
    fix q'
    assume r: "r = Inr q'"
    show "\<exists>k. crun k q CScan = Inr (q', CRelease)"
    proof (cases "\<not> 0 < sz q \<or> length (R q) \<le> ?i \<or> old = 0")
      case True
      with 1(2) r lock have "crun 1 q CScan = Inr (q', CRelease)" by (auto simp: Let_def split: if_splits)
      then show ?thesis by blast
    next
      case False
      let ?q1 = "set_slot_lock ?i l q"
      let ?q2 = "?q1\<lparr>q_out := (if rsz q - 1 \<le> q_out q then 0 else q_out q + 1)\<rparr>"
      have "pop_scan ?q2 = Some r" using 1(2) False lock by (simp add: Let_def)
      from 1(1) [OF this] r obtain k where "crun k ?q2 CScan = Inr (q', CRelease)" by blast
      moreover have "crun (2 + k) q CScan = crun k ?q2 CScan"
        using False lock by (simp add: crun_add Let_def set_slot_lock_def numeral_2_eq_2)
      ultimately show ?thesis by metis
    qed
  qed
qed

lemma push_steps:
  assumes "push q = Some (Inr (r, q'))"
  shows "\<exists>k. prun k n q PIdle = Inr (q', case r of Slot j \<Rightarrow> PFill j | _ \<Rightarrow> PIdle)"
proof -
  obtain old l where lock: "atomic_lock (qlock q) = (old, l)" by (cases "atomic_lock (qlock q)")
  let ?q1 = "q\<lparr>qlock := l\<rparr>"
  show ?thesis
  proof (cases "old = 0")
    case False
    with lock assms have "prun 1 n q PIdle = Inr (q', case r of Slot j \<Rightarrow> PFill j | _ \<Rightarrow> PIdle)"
      by (auto simp: push_def)
    then show ?thesis by blast
  next
    case True
    with assms lock obtain q2 where q2: "push_scan ?q1 = Some (Inr q2)"
      by (auto simp: push_def split: option.splits sum.splits)
    from push_scan_steps [OF this] obtain k where k: "prun k n ?q1 PScan = Inr (q2, PWrap)" by blast
    let ?r = "case r of Slot j \<Rightarrow> PFill j | _ \<Rightarrow> PIdle"
    have rest: "prun 4 n q2 PWrap = Inr (q', ?r) \<or> prun 5 n q2 PWrap = Inr (q', ?r)"
      using assms lock True q2
      by (auto simp: push_def Let_def eval_nat_numeral unlock_queue_def split: if_splits)
    have "prun (1 + (k + m)) n q PIdle = prun m n q2 PWrap" for m
      using lock True k by (simp add: prun_add)
    with rest show ?thesis by metis
  qed
qed

text \<open>The reset: the lengths are set to 0 one after the other.\<close>

fun clear_lens :: "nat \<Rightarrow> nat \<Rightarrow> Q \<Rightarrow> Q" where
  "clear_lens i 0 q = q"
| "clear_lens i (Suc m) q = clear_lens (Suc i) m (set_blen i 0 q)"

lemma clear_lens_steps:
  "i + m = unat (rsz q) \<Longrightarrow> length (R q) = unat (rsz q) \<Longrightarrow>
     crun (Suc m) q (CResetLen i) = Inr (clear_lens i m q, CWait)"
proof (induction m arbitrary: i q)
  case (Suc m)
  then have "crun (Suc (Suc m)) q (CResetLen i) = crun (Suc m) (set_blen i 0 q) (CResetLen (Suc i))"
    by (subst crun.simps(2)) simp
  also have "\<dots> = Inr (clear_lens (Suc i) m (set_blen i 0 q), CWait)"
    by (rule Suc.IH) (use Suc.prems in simp_all)
  finally show ?case by simp
qed simp

lemma clear_lens_R:
  "i + m = length (R q) \<Longrightarrow>
     clear_lens i m q = q\<lparr>R := take i (R q) @ map (\<lambda>b. b\<lparr>blen := 0\<rparr>) (drop i (R q))\<rparr>"
proof (induction m arbitrary: i q)
  case (Suc m)
  from Suc.prems have i: "i < length (R q)" by simp
  have take: "take (Suc i) (R (set_blen i 0 q)) = take i (R q) @ [(R q ! i)\<lparr>blen := 0\<rparr>]"
    using i by (simp add: set_blen_def upd_at_def take_Suc_conv_app_nth)
  have drop: "drop (Suc i) (R (set_blen i 0 q)) = drop (Suc i) (R q)"
    by (simp add: set_blen_def upd_at_def)
  have all: "map (\<lambda>b. b\<lparr>blen := 0\<rparr>) (drop i (R q)) =
      (R q ! i)\<lparr>blen := 0\<rparr> # map (\<lambda>b. b\<lparr>blen := 0\<rparr>) (drop (Suc i) (R q))"
    using i by (simp add: Cons_nth_drop_Suc [symmetric])
  show ?case using Suc.IH [of "Suc i" "set_blen i 0 q"] Suc.prems
    by (simp add: take drop all) (simp add: set_blen_def)
qed simp

lemma reset_steps:
  assumes "length (R q) = unat (rsz q)"
  shows "crun (5 + Suc (unat (rsz q))) q CReset = Inr (reset_ring q, CWait)"
proof -
  let ?q = "q\<lparr>q_in := 0, q_out := 0, sz := 0, qlock := 0, full := 0\<rparr>"
  have "crun (5 + Suc (unat (rsz q))) q CReset = crun (Suc (unat (rsz q))) ?q (CResetLen 0)"
    unfolding crun_add by (simp add: eval_nat_numeral)
  also have "\<dots> = Inr (clear_lens 0 (unat (rsz q)) ?q, CWait)"
    by (rule clear_lens_steps) (simp_all add: assms)
  also have "clear_lens 0 (unat (rsz q)) ?q = reset_ring q"
    using assms by (simp add: clear_lens_R reset_ring_def)
  finally show ?thesis .
qed

lemma pop_steps:
  assumes "pop q = Some (Inr (r, q'))" and "length (R q) = unat (rsz q)"
  shows "\<exists>k. crun k q CIdle = Inr (q', case r of Slot j \<Rightarrow> CSend j | NULL \<Rightarrow> CWait | LOCKFAIL \<Rightarrow> CIdle)"
proof -
  obtain old l where lock: "atomic_lock (qlock q) = (old, l)" by (cases "atomic_lock (qlock q)")
  let ?q1 = "q\<lparr>qlock := l\<rparr>" and ?r = "case r of Slot j \<Rightarrow> CSend j | NULL \<Rightarrow> CWait | LOCKFAIL \<Rightarrow> CIdle"
  consider (held) "old \<noteq> 0" | (empty) "old = 0" "sz q < 1 \<or> q_in q = q_out q"
    | (scan) "old = 0" "\<not> (sz q < 1 \<or> q_in q = q_out q)" by blast
  then show ?thesis
  proof cases
    case held
    with lock assms(1) have "crun 1 q CIdle = Inr (q', ?r)" by (auto simp: pop_def)
    then show ?thesis by blast
  next
    case empty
    let ?q2 = "unlock_queue (?q1\<lparr>sz := 0\<rparr>)"
    have first: "crun 5 q CIdle = Inr (?q2, if full ?q2 \<noteq> 0 then CReset else CWait)"
      using lock empty by (simp add: eval_nat_numeral unlock_queue_def)
    have r: "r = NULL" "q' = (if full ?q2 \<noteq> 0 then reset_ring ?q2 else ?q2)"
      using assms(1) lock empty by (auto simp: pop_def Let_def)
    have len: "length (R ?q2) = unat (rsz ?q2)" using assms(2) by (simp add: unlock_queue_def)
    have more: "crun (5 + n) q CIdle = crun n ?q2 (if full ?q2 \<noteq> 0 then CReset else CWait)" for n
      unfolding crun_add [of 5] first by simp
    have "crun (5 + (5 + Suc (unat (rsz ?q2)))) q CIdle = Inr (q', ?r)" if "full ?q2 \<noteq> 0"
      unfolding more using reset_steps [OF len] that r by (simp only: not_False_eq_True if_True ring_ptr.case)
    moreover have "crun 5 q CIdle = Inr (q', ?r)" if "full ?q2 = 0" using first that r by simp
    ultimately show ?thesis by blast
  next
    case scan
    let ?q2 = "if rsz q - 1 \<le> q_out q then ?q1\<lparr>q_out := 0\<rparr> else ?q1"
    from scan assms(1) lock obtain q3 where q3: "pop_scan ?q2 = Some (Inr q3)"
      by (auto simp: pop_def Let_def split: option.splits sum.splits)
    from pop_scan_steps [OF this] obtain k where k: "crun k ?q2 CScan = Inr (q3, CRelease)" by blast
    have rest: "crun 2 q3 CRelease = Inr (q', ?r)"
      using assms(1) lock scan q3 by (auto simp: pop_def Let_def eval_nat_numeral split: if_splits)
    have first: "crun 3 q CIdle = Inr (?q2, CScan)"
      using lock scan by (simp add: eval_nat_numeral)
    have "crun (3 + (k + 2)) q CIdle = Inr (q', ?r)"
      unfolding crun_add first k prod.case sum.case rest by simp
    then show ?thesis by blast
  qed
qed

lemma commit_push_steps: "prun 5 n q (PUnlock j) = Inr (commit_push j q, PIdle)"
  by (simp add: commit_push_def Let_def eval_nat_numeral unlock_slot_def)

lemma commit_pop_steps: "crun 4 q (CClear j) = Inr (commit_pop j q, CIdle)"
  by (simp add: commit_pop_def Let_def eval_nat_numeral)

section \<open>Properties\<close>

text \<open>
  C13: run without interruption, the producer's steps are \<^verbatim>\<open>push\<close> followed by the publishing of
  the block, the consumer's are \<^verbatim>\<open>pop\<close> followed by the release of the block: where the function
  returns, that many steps give the same ring, and leave the thread where its result sends it.
\<close>

theorem steps_refine_push_and_pop:
  assumes "push q = Some (Inr (r, q'))" and "pop x = Some (Inr (t, x'))" and "length (R x) = unat (rsz x)"
  shows "(\<exists>k. prun k n q PIdle = Inr (q', case r of Slot j \<Rightarrow> PFill j | _ \<Rightarrow> PIdle)) \<and>
    prun 5 n y (PUnlock j) = Inr (commit_push j y, PIdle) \<and>
    (\<exists>k. crun k x CIdle = Inr (x', case t of Slot j \<Rightarrow> CSend j | NULL \<Rightarrow> CWait | LOCKFAIL \<Rightarrow> CIdle)) \<and>
    crun 4 y (CClear j) = Inr (commit_pop j y, CIdle)"
  using push_steps [OF assms(1)] pop_steps [OF assms(2,3)] commit_push_steps commit_pop_steps by blast

theorem steps_refine_push_and_pop_witness:
  "\<exists>k m q' x'. prun k 60 (sample_ring [1, 0, 0] 0 0 1) PIdle = Inr (q', PFill 1) \<and>
     crun m (sample_ring [0, 0, 0] 1 1 2\<lparr>full := 1\<rparr>) CIdle = Inr (x', CWait)"
proof -
  have "push (sample_ring [1, 0, 0] 0 0 1) =
      Some (Inr (Slot 1, set_slot_lock 1 1 (sample_ring [1, 0, 0] 0 0 1\<lparr>q_in := 1\<rparr>)))"
    using push_outcome [of "sample_ring [1, 0, 0] 0 0 1"] by (simp add: sample_ring_wf word_le_nat_alt)
  moreover have "pop (sample_ring [0, 0, 0] 1 1 2\<lparr>full := 1\<rparr>) =
      Some (Inr (NULL, reset_ring (sample_ring [0, 0, 0] 1 1 0\<lparr>full := 1\<rparr>)))"
    using pop_empty [of "sample_ring [0, 0, 0] 1 1 2\<lparr>full := 1\<rparr>"] by (simp add: sample_ring_def)
  ultimately show ?thesis
    using steps_refine_push_and_pop [of "sample_ring [1, 0, 0] 0 0 1" "Slot 1" _
        "sample_ring [0, 0, 0] 1 1 2\<lparr>full := 1\<rparr>" NULL _ 60]
    by fastforce
qed

end
