(* ===== verification/Exclusion.thy ===== *)
theory Exclusion
  imports Races
begin

section \<open>Mutual exclusion\<close>

text \<open>Where a thread is inside the queue's lock, and the slot it holds.\<close>

fun pholds :: "producer_at \<Rightarrow> bool" where
  "pholds PScan \<longleftrightarrow> True"
| "pholds PSkip \<longleftrightarrow> True"
| "pholds PWrap \<longleftrightarrow> True"
| "pholds PTest \<longleftrightarrow> True"
| "pholds PFull \<longleftrightarrow> True"
| "pholds PDrop \<longleftrightarrow> True"
| "pholds PDone \<longleftrightarrow> True"
| "pholds PRelease \<longleftrightarrow> True"
| "pholds p \<longleftrightarrow> False"

fun cholds :: "consumer_at \<Rightarrow> bool" where
  "cholds CTest \<longleftrightarrow> True"
| "cholds CZero \<longleftrightarrow> True"
| "cholds CFree \<longleftrightarrow> True"
| "cholds CWrap \<longleftrightarrow> True"
| "cholds CScan \<longleftrightarrow> True"
| "cholds CSkip \<longleftrightarrow> True"
| "cholds CRelease \<longleftrightarrow> True"
| "cholds c \<longleftrightarrow> False"

fun pslot :: "Q \<Rightarrow> producer_at \<Rightarrow> nat option" where
  "pslot q PWrap = Some (unat (q_in q))"
| "pslot q PTest = Some (unat (q_in q))"
| "pslot q PFull = Some (unat (q_in q))"
| "pslot q PDrop = Some (unat (q_in q))"
| "pslot q PRelease = Some (unat (q_in q))"
| "pslot q PTake = Some (unat (q_in q))"
| "pslot q (PFill j) = Some j"
| "pslot q (PUnlock j) = Some j"
| "pslot q p = None"

fun cslot :: "Q \<Rightarrow> consumer_at \<Rightarrow> nat option" where
  "cslot q CRelease = Some (unat (q_out q))"
| "cslot q CTake = Some (unat (q_out q))"
| "cslot q (CSend j) = Some j"
| "cslot q (CClear j) = Some j"
| "cslot q (CLoad j) = Some j"
| "cslot q (CStore j v) = Some j"
| "cslot q (CUnlock j) = Some j"
| "cslot q c = None"

definition locked :: "Q \<Rightarrow> nat \<Rightarrow> bool" where
  "locked q j \<longleftrightarrow> j < length (R q) \<and> block_lock (R q ! j) = 1"

text \<open>
  The size the producer has computed is not 0, and neither is the size while the consumer scans.
  Without a ring that is full, nobody resets.
\<close>

fun psized :: "producer_at \<Rightarrow> bool" where
  "psized (PStore v) \<longleftrightarrow> v \<noteq> 0"
| "psized p \<longleftrightarrow> True"

fun csized :: "u32 \<Rightarrow> consumer_at \<Rightarrow> bool" where
  "csized n CWrap \<longleftrightarrow> n \<noteq> 0"
| "csized n CScan \<longleftrightarrow> n \<noteq> 0"
| "csized n CSkip \<longleftrightarrow> n \<noteq> 0"
| "csized n CReset \<longleftrightarrow> False"
| "csized n CResetOut \<longleftrightarrow> False"
| "csized n CResetSz \<longleftrightarrow> False"
| "csized n CResetLock \<longleftrightarrow> False"
| "csized n CResetFull \<longleftrightarrow> False"
| "csized n (CResetLen i) \<longleftrightarrow> False"
| "csized n c \<longleftrightarrow> True"

lemma csized_pos: "csized n c \<Longrightarrow> v \<noteq> 0 \<Longrightarrow> csized v c"
  by (cases c) simp_all

definition locks_ok :: "Q \<Rightarrow> bool" where
  "locks_ok q \<longleftrightarrow> qlock q \<in> {0, 1} \<and> (\<forall>j < length (R q). block_lock (R q ! j) \<in> {0, 1})"

definition apart :: "Q \<Rightarrow> producer_at \<Rightarrow> consumer_at \<Rightarrow> bool" where
  "apart q p c \<longleftrightarrow> locks_ok q \<and> length (R q) = unat (rsz q) \<and> rsz q \<noteq> 0 \<and> psized p \<and> csized (sz q) c \<and>
     (qlock q = 1 \<longleftrightarrow> pholds p \<or> cholds c) \<and> \<not> (pholds p \<and> cholds c) \<and>
     (\<forall>j. pslot q p = Some j \<longrightarrow> locked q j \<and> cslot q c \<noteq> Some j) \<and>
     (\<forall>j. cslot q c = Some j \<longrightarrow> locked q j)"

lemma block_lock_set_blen [simp]: "block_lock (R (set_blen k m q) ! j) = block_lock (R q ! j)"
  by (cases "k < length (R q)"; cases "k = j") (simp_all add: set_blen_def upd_at_def list_update_beyond)

lemma locked_simps [simp]:
  "locked (q\<lparr>q_in := i\<rparr>) j = locked q j" "locked (q\<lparr>q_out := i\<rparr>) j = locked q j"
  "locked (q\<lparr>sz := n\<rparr>) j = locked q j" "locked (q\<lparr>full := f\<rparr>) j = locked q j"
  "locked (q\<lparr>qlock := l\<rparr>) j = locked q j" "locked (unlock_queue q) j = locked q j"
  "locked (set_blen k m q) j = locked q j"
  by (simp_all add: locked_def unlock_queue_def)

lemma locks_ok_simps [simp]:
  "locks_ok (q\<lparr>q_in := i\<rparr>) = locks_ok q" "locks_ok (q\<lparr>q_out := i\<rparr>) = locks_ok q"
  "locks_ok (q\<lparr>sz := n\<rparr>) = locks_ok q" "locks_ok (q\<lparr>full := f\<rparr>) = locks_ok q"
  "locks_ok (set_blen k m q) = locks_ok q"
  by (simp_all add: locks_ok_def)

lemma locks_ok_cases:
  assumes "locks_ok q"
  shows "atomic_lock (qlock q) = (qlock q, 1)" "locks_ok (q\<lparr>qlock := 1\<rparr>)" "locks_ok (unlock_queue q)"
    "qlock (unlock_queue q) = 0"
    "i < length (R q) \<Longrightarrow> atomic_lock (block_lock (R q ! i)) = (block_lock (R q ! i), 1)"
    "i < length (R q) \<Longrightarrow> locks_ok (set_slot_lock i 1 q)" "i < length (R q) \<Longrightarrow> locks_ok (unlock_slot i q)"
  using assms
  by (auto simp: locks_ok_def unlock_queue_def unlock_slot_def atomic_lock_def atomic_unlock_def
      val_compare_and_swap_def)

lemma locked_unlock_slot: "locks_ok q \<Longrightarrow> i < length (R q) \<Longrightarrow> locked (unlock_slot i q) j \<longleftrightarrow> locked q j \<and> i \<noteq> j"
  by (auto simp: locked_def unlock_slot_def locks_ok_def atomic_unlock_def val_compare_and_swap_def)

lemma locked_set_slot: "i < length (R q) \<Longrightarrow> locked (set_slot_lock i 1 q) j \<longleftrightarrow> locked q j \<or> i = j"
  by (auto simp: locked_def)

lemma unlock_slot_locked:
  "locks_ok q \<Longrightarrow> locked q i \<Longrightarrow> locks_ok (unlock_slot i q)"
  "locks_ok q \<Longrightarrow> locked q i \<Longrightarrow> locked (unlock_slot i q) j \<longleftrightarrow> locked q j \<and> i \<noteq> j"
  by (simp_all add: locked_def [of q] locks_ok_cases locked_unlock_slot)

lemma unlock_slot_fields [simp]:
  "qid (unlock_slot i q) = qid q" "rsz (unlock_slot i q) = rsz q" "q_in (unlock_slot i q) = q_in q"
  "q_out (unlock_slot i q) = q_out q" "sz (unlock_slot i q) = sz q" "qlock (unlock_slot i q) = qlock q"
  "full (unlock_slot i q) = full q" "length (R (unlock_slot i q)) = length (R q)"
  by (simp_all add: unlock_slot_def)

lemma unlock_queue_fields [simp]:
  "rsz (unlock_queue q) = rsz q" "q_in (unlock_queue q) = q_in q" "q_out (unlock_queue q) = q_out q"
  "sz (unlock_queue q) = sz q" "full (unlock_queue q) = full q" "R (unlock_queue q) = R q"
  by (simp_all add: unlock_queue_def)

lemma pslot_simps [simp]:
  "pslot (q\<lparr>q_out := k\<rparr>) p = pslot q p" "pslot (q\<lparr>sz := k\<rparr>) p = pslot q p"
  "pslot (q\<lparr>qlock := l\<rparr>) p = pslot q p" "pslot (unlock_queue q) p = pslot q p"
  "pslot (unlock_slot m q) p = pslot q p" "pslot (set_blen m n q) p = pslot q p"
  "pslot (set_slot_lock m l q) p = pslot q p"
  by (cases p; simp)+

lemma cslot_simps [simp]:
  "cslot (q\<lparr>q_in := k\<rparr>) c = cslot q c" "cslot (q\<lparr>sz := k\<rparr>) c = cslot q c"
  "cslot (q\<lparr>full := f\<rparr>) c = cslot q c" "cslot (q\<lparr>qlock := l\<rparr>) c = cslot q c"
  "cslot (unlock_queue q) c = cslot q c" "cslot (unlock_slot m q) c = cslot q c"
  "cslot (set_blen m n q) c = cslot q c" "cslot (set_slot_lock m l q) c = cslot q c"
  by (cases c; simp)+

lemma not_locked: "locks_ok q \<Longrightarrow> i < length (R q) \<Longrightarrow> block_lock (R q ! i) = 0 \<Longrightarrow> \<not> locked q i"
  by (simp add: locked_def)

lemma lock_free: "locks_ok q \<Longrightarrow> i < length (R q) \<Longrightarrow> \<not> locked q i \<Longrightarrow> block_lock (R q ! i) = 0"
  by (auto simp: locked_def locks_ok_def)

lemma producer_apart:
  assumes "apart q p c" and "producer_step n q p = Inr (q', p')"
  shows "apart q' p' c"
proof -
  have ok: "locks_ok q" "length (R q) = unat (rsz q)" "rsz q \<noteq> 0" and rest: "psized p" "csized (sz q) c"
    "qlock q = 1 \<longleftrightarrow> pholds p \<or> cholds c" "\<not> (pholds p \<and> cholds c)"
    "\<And>j. pslot q p = Some j \<Longrightarrow> locked q j \<and> cslot q c \<noteq> Some j"
    "\<And>j. cslot q c = Some j \<Longrightarrow> locked q j"
    using assms(1) by (auto simp: apart_def)
  note facts = locks_ok_cases unlock_slot_locked locked_set_slot Let_def
  have lock: "qlock q = 0 \<or> qlock q = 1" using ok(1) by (simp add: locks_ok_def)
  show ?thesis
  proof (cases p)
    case PIdle
    then show ?thesis using assms(2) ok rest lock by (auto simp: apart_def facts split: if_splits)
  next
    case PScan
    then have i: "unat (q_in q) < length (R q)" using assms(2) by (auto simp: Let_def split: if_splits)
    have "block_lock (R q ! unat (q_in q)) = 0 \<Longrightarrow> cslot q c \<noteq> Some (unat (q_in q))"
      using rest(6) not_locked [OF ok(1) i] by blast
    then show ?thesis using PScan i assms(2) ok rest by (auto simp: apart_def facts split: if_splits)
  next
    case PSkip
    then show ?thesis using assms(2) ok rest by (auto simp: apart_def facts split: if_splits)
  next
    case PWrap
    then have "locked q (unat (q_in q))" using rest(5) by simp
    then have "\<not> rsz q \<le> q_in q" using ok(2) by (simp add: locked_def word_le_nat_alt)
    with PWrap show ?thesis using assms(2) ok rest by (auto simp: apart_def facts split: if_splits)
  next
    case PTest
    then show ?thesis using assms(2) ok rest by (auto simp: apart_def facts split: if_splits)
  next
    case PFull
    then show ?thesis using assms(2) ok rest by (auto simp: apart_def facts split: if_splits)
  next
    case PDrop
    then show ?thesis using assms(2) ok rest by (auto simp: apart_def facts split: if_splits)
  next
    case PDone
    then show ?thesis using assms(2) ok rest by (auto simp: apart_def facts split: if_splits)
  next
    case PRelease
    then show ?thesis using assms(2) ok rest by (auto simp: apart_def facts split: if_splits)
  next
    case PTake
    then show ?thesis using assms(2) ok rest by (auto simp: apart_def facts split: if_splits)
  next
    case (PFill j)
    then show ?thesis using assms(2) ok rest by (auto simp: apart_def facts split: if_splits)
  next
    case (PUnlock j)
    then show ?thesis using assms(2) ok rest by (auto simp: apart_def facts split: if_splits)
  next
    case PLoad
    have "\<not> rsz q \<le> sz q \<Longrightarrow> sz q + 1 \<noteq> 0"
      using unat_suc_below [of "sz q" "rsz q"] by (metis nat.distinct(1) not_le unat_0)
    with PLoad show ?thesis using assms(2) ok rest by (auto simp: apart_def facts split: if_splits)
  next
    case (PStore v)
    then show ?thesis using assms(2) ok rest by (auto intro: csized_pos simp: apart_def facts split: if_splits)
  next
    case PAdvance
    then show ?thesis using assms(2) ok rest by (auto simp: apart_def facts split: if_splits)
  next
    case PBack
    then show ?thesis using assms(2) ok rest by (auto simp: apart_def facts split: if_splits)
  qed
qed

lemma consumer_apart:
  assumes "apart q p c" and "full q = 0" and "consumer_step q c = Inr (q', c')"
  shows "apart q' p c'"
proof -
  have ok: "locks_ok q" "length (R q) = unat (rsz q)" "rsz q \<noteq> 0" and rest: "psized p" "csized (sz q) c"
    "qlock q = 1 \<longleftrightarrow> pholds p \<or> cholds c" "\<not> (pholds p \<and> cholds c)"
    "\<And>j. pslot q p = Some j \<Longrightarrow> locked q j \<and> cslot q c \<noteq> Some j"
    "\<And>j. cslot q c = Some j \<Longrightarrow> locked q j"
    using assms(1) by (auto simp: apart_def)
  note facts = locks_ok_cases unlock_slot_locked locked_set_slot Let_def
  have lock: "qlock q = 0 \<or> qlock q = 1" using ok(1) by (simp add: locks_ok_def)
  show ?thesis
  proof (cases c)
    case CIdle
    then show ?thesis using assms(2,3) ok rest lock by (auto simp: apart_def facts split: if_splits)
  next
    case CScan
    then have i: "unat (q_out q) < length (R q)" using assms(3) rest(2)
      by (auto simp: Let_def word_less_nat_alt unsigned_eq_0_iff split: if_splits)
    have "block_lock (R q ! unat (q_out q)) = 0 \<Longrightarrow> pslot q p \<noteq> Some (unat (q_out q))"
      using rest(5) not_locked [OF ok(1) i] by blast
    moreover have "0 < sz q" using CScan rest(2) by (simp add: word_gt_0)
    ultimately show ?thesis using CScan i assms(2,3) ok rest by (auto simp: apart_def facts split: if_splits)
  qed (use assms(2,3) ok rest in \<open>auto simp: apart_def facts split: if_splits\<close>)
qed

end
