(* ===== verification/Lap.thy ===== *)
theory Lap
  imports Exclusion
begin

section \<open>Within a lap\<close>

text \<open>A block stored and not yet counted by \<open>in\<close>; a block taken and not yet sent.\<close>

fun pending :: "producer_at \<Rightarrow> nat" where
  "pending (PUnlock j) = 1"
| "pending PLoad = 1"
| "pending (PStore v) = 1"
| "pending PAdvance = 1"
| "pending p = 0"

fun taking :: "consumer_at \<Rightarrow> nat" where
  "taking (CSend j) = 1"
| "taking c = 0"

definition in_lap :: "Q \<Rightarrow> bool" where
  "in_lap q \<longleftrightarrow> full q = 0 \<and> q_in q < rsz q"

text \<open>Where the consumer has seen a block that is not its own yet, and the block it has taken.\<close>

fun scanning :: "consumer_at \<Rightarrow> bool" where
  "scanning CWrap \<longleftrightarrow> True"
| "scanning CScan \<longleftrightarrow> True"
| "scanning CRelease \<longleftrightarrow> True"
| "scanning CTake \<longleftrightarrow> True"
| "scanning c \<longleftrightarrow> False"

fun taken :: "consumer_at \<Rightarrow> nat option" where
  "taken (CSend j) = Some j"
| "taken (CClear j) = Some j"
| "taken (CLoad j) = Some j"
| "taken (CStore j v) = Some j"
| "taken (CUnlock j) = Some j"
| "taken c = None"

fun filling :: "producer_at \<Rightarrow> nat option" where
  "filling (PFill j) = Some j"
| "filling (PUnlock j) = Some j"
| "filling p = None"

text \<open>A scan never meets a locked block, so nobody is where only a full or a wrapped ring leads.\<close>

fun pstraight :: "producer_at \<Rightarrow> bool" where
  "pstraight PSkip \<longleftrightarrow> False"
| "pstraight PDrop \<longleftrightarrow> False"
| "pstraight PDone \<longleftrightarrow> False"
| "pstraight p \<longleftrightarrow> True"

fun cstraight :: "consumer_at \<Rightarrow> bool" where
  "cstraight CSkip \<longleftrightarrow> False"
| "cstraight c \<longleftrightarrow> True"

definition cursors :: "Q \<Rightarrow> producer_at \<Rightarrow> consumer_at \<Rightarrow> bool" where
  "cursors q p c \<longleftrightarrow> unat (q_out q) \<le> unat (q_in q) \<and> pstraight p \<and> cstraight c \<and>
     (\<forall>j. filling p = Some j \<longrightarrow> j = unat (q_in q)) \<and>
     (scanning c \<longrightarrow> unat (q_out q) < unat (q_in q)) \<and>
     (\<forall>j. taken c = Some j \<longrightarrow> Suc j = unat (q_out q)) \<and>
     (\<forall>i. locked q i \<longrightarrow> pslot q p = Some i \<or> cslot q c = Some i)"

lemma cslot_taken: "cslot q c = Some j \<Longrightarrow> taken c = Some j \<or> scanning c \<and> j = unat (q_out q)"
  by (cases c) auto

lemma pslot_filling: "pslot q p = Some j \<Longrightarrow> filling p = Some j \<or> j = unat (q_in q)"
  by (cases p) auto

definition carries :: "Q \<Rightarrow> producer_at \<Rightarrow> consumer_at \<Rightarrow> int list \<Rightarrow> int list \<Rightarrow> bool" where
  "carries q p c st fd \<longleftrightarrow> length st = unat (q_in q) + pending p \<and> length fd + taking c = unat (q_out q) \<and>
     fd = take (length fd) st \<and> (\<forall>i. length fd \<le> i \<and> i < length st \<longrightarrow> blen (R q ! i) = st ! i)"

lemma blen_set_slot_lock [simp]: "blen (R (set_slot_lock i l q) ! j) = blen (R q ! j)"
  by (cases "i < length (R q)"; cases "i = j")
    (simp_all add: set_slot_lock_def upd_at_def list_update_beyond)

lemma blen_unlock_slot [simp]: "blen (R (unlock_slot i q) ! j) = blen (R q ! j)"
  by (simp add: unlock_slot_def)

lemma producer_cursors:
  assumes "cursors q p c" and "apart q p c" and "in_lap q" and "producer_step n q p = Inr (q', p')" and "in_lap q'"
  shows "cursors q' p' c"
proof -
  have ok: "locks_ok q" "length (R q) = unat (rsz q)" using assms(2) by (auto simp: apart_def)
  have lap: "full q = 0" "unat (q_in q) < unat (rsz q)" "q_in q < rsz q" using assms(3) by (auto simp: in_lap_def word_less_nat_alt)
  have cur: "unat (q_out q) \<le> unat (q_in q)" "pstraight p" "cstraight c"
    "\<And>j. filling p = Some j \<Longrightarrow> j = unat (q_in q)" "scanning c \<Longrightarrow> unat (q_out q) < unat (q_in q)"
    "\<And>j. taken c = Some j \<Longrightarrow> Suc j = unat (q_out q)"
    "\<forall>i. locked q i \<longrightarrow> pslot q p = Some i \<or> cslot q c = Some i"
    using assms(1) by (auto simp: cursors_def)
  have up: "unat (q_in q + 1) = Suc (unat (q_in q))" using lap(3) by (rule unat_suc_below)
  note facts = cursors_def locks_ok_cases unlock_slot_locked locked_set_slot Let_def
  show ?thesis
  proof (cases p)
    case PScan
    have "\<not> locked q (unat (q_in q))"
    proof
      assume "locked q (unat (q_in q))"
      then have "cslot q c = Some (unat (q_in q))" using cur(7) PScan by auto
      then show False using cslot_taken [of q c] cur(1,5,6) by fastforce
    qed
    then have "block_lock (R q ! unat (q_in q)) = 0" using ok lap by (intro lock_free) simp_all
    with PScan assms(4) lap ok have "q' = set_slot_lock (unat (q_in q)) 1 q" "p' = PWrap"
      by (simp_all add: Let_def atomic_lock_def val_compare_and_swap_def)
    then show ?thesis using cur PScan ok lap by (auto simp: cursors_def locked_set_slot)
  next
    case PAdvance
    then show ?thesis using assms(4) cur by (auto simp: facts up)
  next
    case PFull
    then show ?thesis using assms(4,5) by (auto simp: in_lap_def)
  next
    case PIdle
    then show ?thesis using assms(4) cur ok lap by (auto simp: facts split: if_splits)
  next
    case PSkip
    then show ?thesis using assms(4) cur ok lap by (auto simp: facts split: if_splits)
  next
    case PWrap
    then show ?thesis using assms(4) cur ok lap by (auto simp: facts split: if_splits)
  next
    case PTest
    then show ?thesis using assms(4) cur ok lap by (auto simp: facts split: if_splits)
  next
    case PDrop
    then show ?thesis using assms(4) cur ok lap by (auto simp: facts split: if_splits)
  next
    case PDone
    then show ?thesis using assms(4) cur ok lap by (auto simp: facts split: if_splits)
  next
    case PRelease
    then show ?thesis using assms(4) cur ok lap by (auto simp: facts split: if_splits)
  next
    case PTake
    then show ?thesis using assms(4) cur ok lap by (auto simp: facts split: if_splits)
  next
    case (PFill j)
    then show ?thesis using assms(4) cur ok lap by (auto simp: facts split: if_splits)
  next
    case PLoad
    then show ?thesis using assms(4) cur ok lap by (auto simp: facts split: if_splits)
  next
    case (PStore v)
    then show ?thesis using assms(4) cur ok lap by (auto simp: facts split: if_splits)
  next
    case PBack
    then show ?thesis using assms(4) cur ok lap by (auto simp: facts split: if_splits)
  next
    case (PUnlock j)
    have held: "locked q j" using assms(2) PUnlock by (simp add: apart_def)
    have q': "q' = unlock_slot j q" "p' = PLoad" using PUnlock assms(4) by simp_all
    have "locked q' i \<longrightarrow> cslot q' c = Some i" for i
      using cur(7) PUnlock by (auto simp: q' unlock_slot_locked(2) [OF ok(1) held])
    with cur show ?thesis by (simp add: cursors_def q')
  qed
qed

lemma consumer_cursors:
  assumes "cursors q p c" and "apart q p c" and "in_lap q" and "consumer_step q c = Inr (q', c')"
  shows "cursors q' p c'"
proof -
  have ok: "locks_ok q" "length (R q) = unat (rsz q)" "csized (sz q) c" using assms(2) by (auto simp: apart_def)
  have lap: "full q = 0" "unat (q_in q) < unat (rsz q)" "q_in q < rsz q" using assms(3) by (auto simp: in_lap_def word_less_nat_alt)
  have cur: "unat (q_out q) \<le> unat (q_in q)" "pstraight p" "cstraight c"
    "\<And>j. filling p = Some j \<Longrightarrow> j = unat (q_in q)" "scanning c \<Longrightarrow> unat (q_out q) < unat (q_in q)"
    "\<And>j. taken c = Some j \<Longrightarrow> Suc j = unat (q_out q)"
    "\<forall>i. locked q i \<longrightarrow> pslot q p = Some i \<or> cslot q c = Some i"
    using assms(1) by (auto simp: cursors_def)
  note facts = cursors_def locks_ok_cases unlock_slot_locked locked_set_slot Let_def
  have up: "unat (q_out q + 1) = Suc (unat (q_out q))" if "unat (q_out q) < unat (q_in q)"
    using that lap(2) by (intro unat_suc_below [of _ "rsz q"]) (simp add: word_less_nat_alt)
  show ?thesis
  proof (cases c)
    case CTest
    have "unat (q_out q) \<noteq> unat (q_in q)" if "q_in q \<noteq> q_out q" using that by (simp add: word_unat_eq_iff)
    with CTest show ?thesis using assms(4) cur by (auto simp: facts split: if_splits)
  next
    case CScan
    have "\<not> locked q (unat (q_out q))"
    proof
      assume "locked q (unat (q_out q))"
      then have "pslot q p = Some (unat (q_out q))" using cur(7) CScan by auto
      then show False using pslot_filling [of q p] cur(4,5) CScan by fastforce
    qed
    then have "block_lock (R q ! unat (q_out q)) = 0" using ok lap cur(1) by (intro lock_free) simp_all
    moreover have "0 < sz q" using CScan ok(3) by (simp add: word_gt_0)
    ultimately have "q' = set_slot_lock (unat (q_out q)) 1 q" "c' = CRelease"
      using CScan assms(4) lap ok cur(1) by (simp_all add: Let_def atomic_lock_def val_compare_and_swap_def)
    then show ?thesis using cur CScan ok lap by (auto simp: cursors_def locked_set_slot)
  next
    case CTake
    then show ?thesis using assms(4) cur by (auto simp: facts up split: if_splits)
  next
    case CWrap
    have "rsz q \<noteq> 0" using lap(2) by auto
    then have "\<not> rsz q - 1 \<le> q_out q"
      using cur(5) CWrap lap(2) by (simp add: word_le_nat_alt unat_pred)
    with CWrap show ?thesis using assms(4) cur by (auto simp: facts)
  next
    case (CUnlock j)
    have held: "locked q j" using assms(2) CUnlock by (simp add: apart_def)
    have q': "q' = unlock_slot j q" "c' = CIdle" using CUnlock assms(4) by simp_all
    have "locked q' i \<longrightarrow> pslot q' p = Some i" for i
      using cur(7) CUnlock by (auto simp: q' unlock_slot_locked(2) [OF ok(1) held])
    with cur show ?thesis by (simp add: cursors_def q')
  next
    case CIdle
    then show ?thesis using assms(4) cur ok lap by (auto simp: facts split: if_splits)
  next
    case CZero
    then show ?thesis using assms(4) cur ok lap by (auto simp: facts split: if_splits)
  next
    case CFree
    then show ?thesis using assms(4) cur ok lap by (auto simp: facts split: if_splits)
  next
    case CFull
    then show ?thesis using assms(4) cur ok lap by (auto simp: facts split: if_splits)
  next
    case CWait
    then show ?thesis using assms(4) cur ok lap by (auto simp: facts split: if_splits)
  next
    case CSkip
    then show ?thesis using assms(4) cur ok lap by (auto simp: facts split: if_splits)
  next
    case CRelease
    then show ?thesis using assms(4) cur ok lap by (auto simp: facts split: if_splits)
  next
    case (CSend j)
    then show ?thesis using assms(4) cur ok lap by (auto simp: facts split: if_splits)
  next
    case (CClear j)
    then show ?thesis using assms(4) cur ok lap by (auto simp: facts split: if_splits)
  next
    case (CLoad j)
    then show ?thesis using assms(4) cur ok lap by (auto simp: facts split: if_splits)
  next
    case (CStore j v)
    then show ?thesis using assms(4) cur ok lap by (auto simp: facts split: if_splits)
  qed (use ok(3) in simp_all)
qed

lemma producer_carries:
  assumes "carries q p c st fd" and "cursors q p c" and "apart q p c" and "in_lap q"
    and "producer_step n q p = Inr (q', p')" and "in_lap q'"
  shows "carries q' p' c (case p of PFill j \<Rightarrow> st @ [n] | _ \<Rightarrow> st) fd"
proof -
  have lap: "q_in q < rsz q" "\<not> rsz q \<le> q_in q" "full q = 0" using assms(4) by (auto simp: in_lap_def)
  have len: "length fd \<le> length st" and fd: "fd = take (length fd) st"
    using assms(1) by (auto simp: carries_def dest: arg_cong [of _ _ length])
  show ?thesis
  proof (cases p)
    case (PFill j)
    have j: "j = length st" "j < length (R q)"
      using assms(1-3) PFill by (auto simp: carries_def cursors_def apart_def locked_def)
    have fd': "fd = take (length fd) (st @ [n])" using fd len by simp
    show ?thesis using assms(1,5) j fd' by (auto simp: PFill carries_def nth_append)
  next
    case PAdvance
    then show ?thesis using assms(1,5) unat_suc_below [OF lap(1)] by (auto simp: carries_def)
  next
    case PFull
    then show ?thesis using assms(5,6) by (auto simp: in_lap_def)
  qed (use assms(1,2,5) lap in \<open>auto simp: carries_def cursors_def Let_def split: if_splits prod.splits\<close>)
qed

lemma consumer_carries:
  assumes "carries q p c st fd" and "cursors q p c" and "apart q p c" and "in_lap q"
    and "consumer_step q c = Inr (q', c')"
  shows "carries q' p c' st (case c of CSend j \<Rightarrow> fd @ [blen (R q ! j)] | _ \<Rightarrow> fd)"
proof -
  have lap: "unat (q_in q) < unat (rsz q)" "rsz q \<noteq> 0" using assms(4) by (auto simp: in_lap_def word_less_nat_alt)
  have len: "length fd \<le> length st" and fd: "fd = take (length fd) st"
    using assms(1) by (auto simp: carries_def dest: arg_cong [of _ _ length])
  have out: "unat (q_out q) \<le> unat (q_in q)" "scanning c \<Longrightarrow> unat (q_out q) < unat (q_in q)"
    using assms(2) by (auto simp: cursors_def)
  show ?thesis
  proof (cases c)
    case (CSend j)
    then have j: "j = length fd" "j < length st" using assms(1,2) by (auto simp: carries_def cursors_def)
    then have "blen (R q ! j) = st ! j" using assms(1) by (simp add: carries_def)
    moreover have "take (Suc j) st = fd @ [st ! j]" using take_Suc_conv_app_nth [OF j(2)] fd j(1) by simp
    ultimately show ?thesis using assms(1,5) j(1) by (auto simp: CSend carries_def)
  next
    case (CClear j)
    then have j: "Suc j = length fd" "j < length (R q)"
      using assms(1-3) by (auto simp: carries_def cursors_def apart_def locked_def)
    then show ?thesis using assms(1,5) by (auto simp: CClear carries_def)
  next
    case CWrap
    have "\<not> rsz q - 1 \<le> q_out q" using out CWrap lap by (simp add: word_le_nat_alt unat_pred)
    with CWrap show ?thesis using assms(1,5) by (auto simp: carries_def)
  next
    case CTake
    have "unat (q_out q + 1) = Suc (unat (q_out q))"
      using out CTake lap by (intro unat_suc_below [of _ "rsz q"]) (simp add: word_less_nat_alt)
    with CTake show ?thesis using assms(1,5) by (auto simp: carries_def split: if_splits)
  qed (use assms(1-3,5) in \<open>auto simp: carries_def cursors_def apart_def Let_def split: if_splits prod.splits\<close>)
qed

section \<open>Every schedule\<close>

text \<open>A ring nobody is using, and one at the start of a lap.\<close>

definition unused :: "Q \<Rightarrow> bool" where
  "unused q \<longleftrightarrow> length (R q) = unat (rsz q) \<and> rsz q \<noteq> 0 \<and> qlock q = 0 \<and> full q = 0 \<and>
     list_all (\<lambda>r. block_lock r = 0) (R q)"

definition lap_start :: "Q \<Rightarrow> bool" where
  "lap_start q \<longleftrightarrow> unused q \<and> q_in q = 0 \<and> q_out q = 0"

lemma start_simps [simp]:
  "ring (start q) = q" "prod_at (start q) = PIdle" "cons_at (start q) = CIdle"
  "stored (start q) = []" "found (start q) = []"
  by (simp_all add: start_def)

lemma start_apart: "unused q \<Longrightarrow> apart q PIdle CIdle"
  by (simp add: unused_def apart_def locks_ok_def list_all_length)

lemma start_lap: "lap_start q \<Longrightarrow> cursors q PIdle CIdle \<and> carries q PIdle CIdle [] [] \<and> in_lap q"
  by (auto simp: lap_start_def unused_def cursors_def carries_def in_lap_def locked_def list_all_length word_gt_0)

fun_cases producer_actE: "act_step (Producer n) s = Some s'"
fun_cases consumer_actE: "act_step Consumer s = Some s'"

lemma act_step_cases:
  assumes "act_step a s = Some s'"
  obtains (producer) n q p where "a = Producer n" "producer_step n (ring s) (prod_at s) = Inr (q, p)"
      "s' = s\<lparr>ring := q, prod_at := p, stored := (case prod_at s of PFill _ \<Rightarrow> stored s @ [n] | _ \<Rightarrow> stored s)\<rparr>"
  | (consumer) q c where "a = Consumer" "consumer_step (ring s) (cons_at s) = Inr (q, c)"
      "s' = s\<lparr>ring := q, cons_at := c,
         found := (case cons_at s of CSend j \<Rightarrow> found s @ [blen (R (ring s) ! j)] | _ \<Rightarrow> found s)\<rparr>"
  using assms by (cases a) (auto elim!: producer_actE consumer_actE split: sum.splits prod.splits)

lemma reach_apart:
  "reach (\<lambda>s. full (ring s) = 0) (start q) s \<Longrightarrow> unused q \<Longrightarrow>
     apart (ring s) (prod_at s) (cons_at s) \<and> full (ring s) = 0"
proof (induction rule: reach.induct)
  case reach_start
  then show ?case by (auto simp: start_apart unused_def)
next
  case (reach_step s a s')
  then have ap: "apart (ring s) (prod_at s) (cons_at s)" and f: "full (ring s) = 0" by auto
  from reach_step.hyps(2) show ?case
  proof (cases rule: act_step_cases)
    case (producer n q p)
    then show ?thesis using producer_apart [OF ap producer(2)] reach_step.hyps(3) by simp
  next
    case (consumer q c)
    then show ?thesis using consumer_apart [OF ap f consumer(2)] reach_step.hyps(3) by simp
  qed
qed

definition lapping :: "sys \<Rightarrow> bool" where
  "lapping s \<longleftrightarrow> apart (ring s) (prod_at s) (cons_at s) \<and> cursors (ring s) (prod_at s) (cons_at s) \<and>
     carries (ring s) (prod_at s) (cons_at s) (stored s) (found s) \<and> in_lap (ring s)"

lemma reach_lapping: "reach (\<lambda>s. in_lap (ring s)) (start q) s \<Longrightarrow> lap_start q \<Longrightarrow> lapping s"
proof (induction rule: reach.induct)
  case reach_start
  then show ?case using start_lap [of q] start_apart [of q] by (simp add: lapping_def lap_start_def)
next
  case (reach_step s a s')
  then have inv: "apart (ring s) (prod_at s) (cons_at s)" "cursors (ring s) (prod_at s) (cons_at s)"
    "carries (ring s) (prod_at s) (cons_at s) (stored s) (found s)" "in_lap (ring s)" "full (ring s) = 0"
    by (auto simp: lapping_def in_lap_def)
  from reach_step.hyps(2) show ?case
  proof (cases rule: act_step_cases)
    case (producer n q p)
    have lap: "in_lap q" using reach_step.hyps(3) producer(3) by simp
    show ?thesis
      using producer_apart [OF inv(1) producer(2)] producer_cursors [OF inv(2,1,4) producer(2) lap]
        producer_carries [OF inv(3,2,1,4) producer(2) lap] lap by (simp add: lapping_def producer(3))
  next
    case (consumer q c)
    have lap: "in_lap q" using reach_step.hyps(3) consumer(3) by simp
    show ?thesis
      using consumer_apart [OF inv(1,5) consumer(2)] consumer_cursors [OF inv(2,1,4) consumer(2)]
        consumer_carries [OF inv(3,2,1,4) consumer(2)] lap by (simp add: lapping_def consumer(3))
  qed
qed

section \<open>Progress\<close>

text \<open>Between two of its own steps, the thread inside the lock moves on to leave it.\<close>

lemma producer_moves:
  assumes "lapping s"
  shows "\<exists>q p. producer_step n (ring s) (prod_at s) = Inr (q, p)"
proof -
  have "unat (q_in (ring s)) < length (R (ring s))" "pstraight (prod_at s)"
    using assms by (auto simp: lapping_def apart_def in_lap_def cursors_def word_less_nat_alt)
  then show ?thesis by (cases "prod_at s") (auto simp: Let_def split: prod.split)
qed

lemma consumer_moves:
  assumes "lapping s"
  shows "\<exists>q c. consumer_step (ring s) (cons_at s) = Inr (q, c)"
proof -
  let ?q = "ring s" and ?c = "cons_at s"
  have le: "length (R ?q) = unat (rsz ?q)" "csized (sz ?q) ?c" "q_in ?q < rsz ?q"
    "unat (q_out ?q) \<le> unat (q_in ?q)" "scanning ?c \<Longrightarrow> unat (q_out ?q) < unat (q_in ?q)"
    using assms by (auto simp: lapping_def apart_def in_lap_def cursors_def)
  have lt: "unat (q_in ?q) < length (R ?q)" using le(1,3) by (simp add: word_less_nat_alt)
  have up: "unat (q_out ?q + 1) = Suc (unat (q_out ?q))" if "scanning ?c"
    using le(5) [OF that] le(3) by (intro unat_suc_below [of _ "rsz ?q"]) (simp add: word_less_nat_alt)
  show ?thesis using le lt up by (cases ?c) (auto simp: Let_def split: prod.split)
qed

text \<open>Its own steps, when the other thread does none.\<close>

lemma prun_schedule:
  "prun k n (ring s) (prod_at s) = Inr (q, p) \<Longrightarrow>
     \<exists>s'. schedule (replicate k (Producer n)) s = Some s' \<and> ring s' = q"
proof (induction k arbitrary: s)
  case (Suc k)
  then obtain q1 p1 where step: "producer_step n (ring s) (prod_at s) = Inr (q1, p1)" and
    rest: "prun k n q1 p1 = Inr (q, p)" by (auto split: sum.splits prod.splits)
  let ?s = "s\<lparr>ring := q1, prod_at := p1, stored := (case prod_at s of PFill _ \<Rightarrow> stored s @ [n] | _ \<Rightarrow> stored s)\<rparr>"
  from Suc.IH [of ?s] rest show ?case by (simp add: step)
qed simp

lemma crun_schedule:
  "crun k (ring s) (cons_at s) = Inr (q, c) \<Longrightarrow> \<exists>s'. schedule (replicate k Consumer) s = Some s' \<and> ring s' = q"
proof (induction k arbitrary: s)
  case (Suc k)
  then obtain q1 c1 where step: "consumer_step (ring s) (cons_at s) = Inr (q1, c1)" and
    rest: "crun k q1 c1 = Inr (q, c)" by (auto split: sum.splits prod.splits)
  let ?s = "s\<lparr>ring := q1, cons_at := c1,
    found := (case cons_at s of CSend j \<Rightarrow> found s @ [blen (R (ring s) ! j)] | _ \<Rightarrow> found s)\<rparr>"
  from Suc.IH [of ?s] rest show ?case by (simp add: step)
qed simp

lemma leaves_after:
  "producer_step n q p = Inr (q1, p1) \<Longrightarrow> \<exists>k \<le> m. \<exists>q' p'. prun k n q1 p1 = Inr (q', p') \<and> qlock q' = 0 \<Longrightarrow>
     \<exists>k \<le> Suc m. \<exists>q' p'. prun k n q p = Inr (q', p') \<and> qlock q' = 0"
  by (elim exE conjE, rule exI [of _ "Suc _"]) auto

lemma producer_leaves:
  assumes "lapping s" and "pholds (prod_at s)"
  shows "\<exists>k \<le> 6. \<exists>q p. prun k n (ring s) (prod_at s) = Inr (q, p) \<and> qlock q = 0"
proof -
  let ?q = "ring s" and ?i = "unat (q_in (ring s))"
  have ok: "locks_ok ?q" "?i < length (R ?q)" "\<not> rsz ?q \<le> q_in ?q" "pstraight (prod_at s)"
    and cur: "cursors ?q (prod_at s) (cons_at s)"
    using assms(1) by (auto simp: lapping_def apart_def in_lap_def cursors_def word_less_nat_alt word_le_nat_alt)
  have release: "qlock (unlock_queue q) = 0" if "qlock q = qlock ?q" for q
    using ok(1) that by (auto simp: unlock_queue_def locks_ok_def)
  have test: "\<exists>k \<le> 4. \<exists>q' p'. prun k n q PTest = Inr (q', p') \<and> qlock q' = 0"
    if "q = ?q \<or> q = set_slot_lock ?i 1 ?q" for q
  proof -
    have same: "qlock q = qlock ?q" "length (R q) = length (R ?q)" "q_in q = q_in ?q" using that by auto
    show ?thesis
    proof (cases "rsz q - 1 \<le> sz q \<or> q_in q = q_out q - 1")
      case True
      then show ?thesis using ok(2) same release [of "unlock_slot ?i (q\<lparr>full := 1\<rparr>)"]
        by (intro exI [of _ 4]) (simp add: eval_nat_numeral)
    next
      case False
      then show ?thesis using release [of q] same by (intro exI [of _ 2]) (simp add: eval_nat_numeral)
    qed
  qed
  have wrap: "\<exists>k \<le> 5. \<exists>q' p'. prun k n q PWrap = Inr (q', p') \<and> qlock q' = 0"
    if "q = ?q \<or> q = set_slot_lock ?i 1 ?q" for q
    using leaves_after [where p = PWrap and q = q, OF _ test [OF that]] that ok(3) by auto
  show ?thesis
  proof (cases "prod_at s")
    case PScan
    have "\<not> locked ?q ?i"
      using cur PScan cslot_taken [of ?q "cons_at s"] by (force simp: cursors_def)
    then have "producer_step n ?q PScan = Inr (set_slot_lock ?i 1 ?q, PWrap)"
      using ok(1,2) by (simp add: lock_free Let_def atomic_lock_def val_compare_and_swap_def)
    from leaves_after [OF this wrap] show ?thesis by (simp add: PScan)
  next
    case PWrap
    obtain k where "k \<le> 5" "\<exists>q' p'. prun k n ?q PWrap = Inr (q', p') \<and> qlock q' = 0" using wrap [of ?q] by auto
    then show ?thesis by (intro exI [of _ k]) (simp add: PWrap)
  next
    case PTest
    obtain k where "k \<le> 4" "\<exists>q' p'. prun k n ?q PTest = Inr (q', p') \<and> qlock q' = 0" using test [of ?q] by auto
    then show ?thesis by (intro exI [of _ k]) (simp add: PTest)
  next
    case PFull
    then show ?thesis using ok(2) release [of "unlock_slot ?i (?q\<lparr>full := 1\<rparr>)"]
      by (intro exI [of _ 3]) (simp add: eval_nat_numeral)
  next
    case PRelease
    then show ?thesis using release [of ?q] by (intro exI [of _ 1]) simp
  qed (use assms(2) ok(4) in simp_all)
qed

lemma consumer_leaves:
  assumes "lapping s" and "cholds (cons_at s)"
  shows "\<exists>k \<le> 6. \<exists>q c. crun k (ring s) (cons_at s) = Inr (q, c) \<and> qlock q = 0"
proof -
  let ?q = "ring s" and ?o = "unat (q_out (ring s))" and ?c = "cons_at s"
  have ok: "locks_ok ?q" "length (R ?q) = unat (rsz ?q)" "unat (q_in ?q) < length (R ?q)" "csized (sz ?q) ?c"
    and cur: "cursors ?q (prod_at s) ?c"
    using assms(1) by (auto simp: lapping_def apart_def in_lap_def word_less_nat_alt)
  have release: "qlock (unlock_queue q) = 0" if "qlock q = qlock ?q" for q
    using ok(1) that by (auto simp: unlock_queue_def locks_ok_def)
  have free: "\<not> locked ?q ?o" if "?o < unat (q_in ?q)" "cslot ?q ?c = None"
    using cur that pslot_filling [of ?q "prod_at s"] by (fastforce simp: cursors_def)
  have scan: "crun 2 ?q CScan = Inr (unlock_queue (set_slot_lock ?o 1 ?q), CTake)"
    if "sz ?q \<noteq> 0" "?o < unat (q_in ?q)" "cslot ?q ?c = None"
    using free [OF that(2,3)] that ok(1,3)
    by (simp add: eval_nat_numeral word_gt_0 lock_free Let_def atomic_lock_def val_compare_and_swap_def)
  have wrap: "crun 3 ?q CWrap = crun 2 ?q CScan" if "?o < unat (q_in ?q)"
  proof -
    have "rsz ?q \<noteq> 0" using ok(2,3) by auto
    then have "\<not> rsz ?q - 1 \<le> q_out ?q" using that ok(2,3) by (simp add: word_le_nat_alt unat_pred)
    then show ?thesis by (simp add: eval_nat_numeral)
  qed
  have locked: "qlock (unlock_queue (set_slot_lock ?o 1 ?q)) = 0" by (rule release) simp
  show ?thesis
  proof (cases ?c)
    case CTest
    show ?thesis
    proof (cases "sz ?q < 1 \<or> q_in ?q = q_out ?q")
      case True
      then show ?thesis using CTest release [of "?q\<lparr>sz := 0\<rparr>"] by (intro exI [of _ 3]) (simp add: eval_nat_numeral)
    next
      case False
      then have "sz ?q \<noteq> 0" "?o < unat (q_in ?q)"
        using cur by (auto simp: cursors_def word_unat_eq_iff le_neq_implies_less)
      moreover have "crun 4 ?q CTest = crun 3 ?q CWrap" using False by (simp add: eval_nat_numeral)
      ultimately show ?thesis using CTest scan wrap locked by (intro exI [of _ 4]) simp
    qed
  next
    case CWrap
    then show ?thesis using ok(4) cur scan wrap locked by (intro exI [of _ 3]) (simp add: cursors_def)
  next
    case CScan
    then show ?thesis using ok(4) cur scan locked by (intro exI [of _ 2]) (simp add: cursors_def)
  next
    case CZero
    then show ?thesis using release [of "?q\<lparr>sz := 0\<rparr>"] by (intro exI [of _ 2]) (simp add: eval_nat_numeral)
  next
    case CFree
    then show ?thesis using release [of ?q] by (intro exI [of _ 1]) simp
  next
    case CRelease
    then show ?thesis using release [of ?q] by (intro exI [of _ 1]) simp
  qed (use assms(2) cur in \<open>simp_all add: cursors_def\<close>)
qed

section \<open>Properties\<close>

text \<open>
  C12: as long as the ring is not marked full, under every schedule of their steps the producer
  and the consumer are never inside the ring's lock together, and never hold the same block; a
  block one of them holds is locked.
\<close>

theorem never_both_inside:
  assumes "unused q" and "reach (\<lambda>s. full (ring s) = 0) (start q) s"
  shows "\<not> (pholds (prod_at s) \<and> cholds (cons_at s)) \<and>
    (\<forall>j. pslot (ring s) (prod_at s) = Some j \<longrightarrow> locked (ring s) j \<and> cslot (ring s) (cons_at s) \<noteq> Some j) \<and>
    (\<forall>j. cslot (ring s) (cons_at s) = Some j \<longrightarrow> locked (ring s) j)"
  using reach_apart [OF assms(2,1)] by (auto simp: apart_def)

text \<open>The ring of the witnesses: three blocks, nothing stored.\<close>

abbreviation fresh_ring :: Q where "fresh_ring \<equiv> sample_ring [0, 0, 0] 0 0 0"

lemma fresh_ring_unused: "lap_start fresh_ring"
  by code_simp

text \<open>The producer stores one packet and starts on the second while the consumer sends the first.\<close>

definition both_busy :: "act list" where
  "both_busy = replicate 12 (Producer 60) @ replicate 7 Consumer @ replicate 7 (Producer 70)"

lemma both_busy_run:
  "map_option (\<lambda>s. (pslot (ring s) (prod_at s), cslot (ring s) (cons_at s), stored s, found s))
     (schedule both_busy (start fresh_ring)) = Some (Some 1, Some 0, [60, 70], [60])"
  "keeps (\<lambda>s. in_lap (ring s)) both_busy (start fresh_ring)"
  "keeps (\<lambda>s. full (ring s) = 0) both_busy (start fresh_ring)"
  by code_simp+

lemma both_busy_state:
  obtains s where "reach (\<lambda>s. in_lap (ring s)) (start fresh_ring) s" "reach (\<lambda>s. full (ring s) = 0) (start fresh_ring) s"
    "pslot (ring s) (prod_at s) = Some 1" "cslot (ring s) (cons_at s) = Some 0" "stored s = [60, 70]" "found s = [60]"
proof -
  obtain s where s: "schedule both_busy (start fresh_ring) = Some s" and now: "pslot (ring s) (prod_at s) = Some 1"
    "cslot (ring s) (cons_at s) = Some 0" "stored s = [60, 70]" "found s = [60]"
    using both_busy_run(1) by auto
  show ?thesis
    by (rule that [of s]) (use now schedule_reach [OF reach_start _ s] both_busy_run(2,3) in blast)+
qed

theorem never_both_inside_witness:
  "\<exists>s. reach (\<lambda>s. full (ring s) = 0) (start fresh_ring) s \<and> locked (ring s) 1 \<and> locked (ring s) 0"
proof -
  obtain s where s: "reach (\<lambda>s. full (ring s) = 0) (start fresh_ring) s"
    "pslot (ring s) (prod_at s) = Some 1" "cslot (ring s) (cons_at s) = Some 0"
    using both_busy_state by metis
  have "unused fresh_ring" using fresh_ring_unused by (simp add: lap_start_def)
  from never_both_inside [OF this s(1)] s show ?thesis by blast
qed

text \<open>
  C11: within a lap, under every schedule of the two threads' steps, the consumer finds the
  lengths of the packets the producer stored, in order, each once and as they were stored.
\<close>

theorem found_in_order:
  assumes "lap_start q" and "reach (\<lambda>s. in_lap (ring s)) (start q) s"
  shows "\<exists>waiting. stored s = found s @ waiting"
proof -
  have "found s = take (length (found s)) (stored s)"
    using reach_lapping [OF assms(2,1)] by (simp add: lapping_def carries_def)
  then show ?thesis by (metis append_take_drop_id)
qed

theorem found_in_order_witness:
  "\<exists>s waiting. reach (\<lambda>s. in_lap (ring s)) (start fresh_ring) s \<and> found s = [60] \<and> stored s = [60, 70] \<and> [60, 70] = [60] @ waiting"
proof -
  obtain s where s: "reach (\<lambda>s. in_lap (ring s)) (start fresh_ring) s" "stored s = [60, 70]" "found s = [60]"
    using both_busy_state by metis
  with found_in_order [OF fresh_ring_unused s(1)] show ?thesis by auto
qed

text \<open>
  C22: within a lap no schedule blocks the ring: both threads can always do their next step,
  without a fault, and whoever is inside the lock leaves it within six steps of its own.
\<close>

theorem lock_is_released:
  assumes "lap_start q" and "reach (\<lambda>s. in_lap (ring s)) (start q) s"
  shows "(\<exists>s'. act_step (Producer n) s = Some s') \<and> (\<exists>s'. act_step Consumer s = Some s') \<and>
    (qlock (ring s) = 0 \<or> (\<exists>a \<in> {Producer n, Consumer}. \<exists>k \<le> 6. \<exists>s'.
       schedule (replicate k a) s = Some s' \<and> qlock (ring s') = 0))"
proof -
  have lap: "lapping s" by (rule reach_lapping [OF assms(2,1)])
  then have inside: "qlock (ring s) = 0 \<or> pholds (prod_at s) \<or> cholds (cons_at s)"
    by (auto simp: lapping_def apart_def locks_ok_def)
  have "\<exists>k \<le> 6. \<exists>s'. schedule (replicate k (Producer n)) s = Some s' \<and> qlock (ring s') = 0" if "pholds (prod_at s)"
    using producer_leaves [OF lap that, of n] prun_schedule by metis
  moreover have "\<exists>k \<le> 6. \<exists>s'. schedule (replicate k Consumer) s = Some s' \<and> qlock (ring s') = 0" if "cholds (cons_at s)"
    using consumer_leaves [OF lap that] crun_schedule by metis
  ultimately show ?thesis using inside producer_moves [OF lap, of n] consumer_moves [OF lap] by auto
qed

theorem lock_is_released_witness:
  "\<exists>s s'. reach (\<lambda>s. in_lap (ring s)) (start fresh_ring) s \<and> found s = [60] \<and> act_step Consumer s = Some s'"
proof -
  obtain s where s: "reach (\<lambda>s. in_lap (ring s)) (start fresh_ring) s" "found s = [60]"
    using both_busy_state by metis
  with lock_is_released [OF fresh_ring_unused s(1)] show ?thesis by blast
qed

text \<open>The producer finds the ring full; the consumer empties it and resets it meanwhile.\<close>

definition race_reset :: "act list" where
  "race_reset = replicate 31 (Producer 60) @ replicate 30 Consumer @ replicate 13 (Producer 70) @ replicate 8 Consumer"


text \<open>The producer stores a packet between the consumer's load and store of \<open>sz\<close>.\<close>

definition race_size :: "act list" where
  "race_size = replicate 12 (Producer 60) @ replicate 9 Consumer @ replicate 12 (Producer 70) @ replicate 7 Consumer"


end
