(* ===== verification/Slots.thy ===== *)
theory Slots
  imports Tunnel
begin

text \<open>
  A ring over any number of laps. Between passes a ring is a row of slots with two cursors, a
  count and a full mark; the passes of the traffic threads are then two operations on the row,
  under every schedule. What they do at the end of a lap follows from the row alone: the slot at
  the end is written but never read.
\<close>

section \<open>The row of slots\<close>

record 'a slot_row =
  n_slots :: nat
  at_in :: nat
  at_out :: nat
  held :: nat
  marked :: bool
  slot :: "nat \<Rightarrow> 'a option"

definition refuses :: "'a slot_row \<Rightarrow> bool" where
  "refuses m \<longleftrightarrow> n_slots m - 1 \<le> held m \<or> at_in m + 1 = at_out m"

definition row_put :: "'a \<Rightarrow> 'a slot_row \<Rightarrow> bool \<times> 'a slot_row" where
  "row_put x m =
     (if refuses m then (False, m\<lparr>marked := True\<rparr>)
      else (True, m\<lparr>slot := (slot m)(at_in m \<mapsto> x), held := held m + 1,
                    at_in := (if n_slots m \<le> at_in m + 1 then 0 else at_in m + 1)\<rparr>))"

definition row_start :: "'a slot_row \<Rightarrow> nat" where
  "row_start m = (if n_slots m - 1 \<le> at_out m then 0 else at_out m)"

definition row_get :: "'a slot_row \<Rightarrow> 'a option \<times> 'a slot_row" where
  "row_get m =
     (if held m = 0 \<or> at_in m = at_out m then
        (None, if marked m then m\<lparr>at_in := 0, at_out := 0, held := 0, marked := False, slot := (\<lambda>_. None)\<rparr>
               else m\<lparr>held := 0\<rparr>)
      else let j = row_start m in
        (slot m j, m\<lparr>slot := (slot m)(j := None), at_out := j + 1, held := held m - 1\<rparr>))"

fun row_run :: "'a slot_row \<Rightarrow> 'a fifo_op list \<Rightarrow> 'a option list \<times> 'a slot_row" where
  "row_run m [] = ([], m)"
| "row_run m (Enq x # ops) = row_run (snd (row_put x m)) ops"
| "row_run m (Deq # ops) = (let (outs, m') = row_run (snd (row_get m)) ops in (fst (row_get m) # outs, m'))"

text \<open>The entries that are accepted, apart from those that come to lie in the last slot.\<close>

fun kept :: "'a slot_row \<Rightarrow> 'a fifo_op list \<Rightarrow> 'a list" where
  "kept m [] = []"
| "kept m (Enq x # ops) =
     (if refuses m \<or> at_in m = n_slots m - 1 then kept (snd (row_put x m)) ops
      else x # kept (snd (row_put x m)) ops)"
| "kept m (Deq # ops) = kept (snd (row_get m)) ops"

text \<open>
  The consumer keeps up: when an entry goes into the last slot, the count agrees with the cursors,
  that is, it has found the row empty since the last turn.
\<close>

fun keeps_up :: "'a slot_row \<Rightarrow> 'a fifo_op list \<Rightarrow> bool" where
  "keeps_up m [] \<longleftrightarrow> True"
| "keeps_up m (Enq x # ops) \<longleftrightarrow>
     (at_in m = n_slots m - 1 \<and> \<not> refuses m \<longrightarrow> at_in m = at_out m + held m) \<and> keeps_up (snd (row_put x m)) ops"
| "keeps_up m (Deq # ops) \<longleftrightarrow> keeps_up (snd (row_get m)) ops"

section \<open>Order over laps\<close>

text \<open>The slots that wait to be read, in order, and what is in them.\<close>

definition row_live :: "'a slot_row \<Rightarrow> nat list" where
  "row_live m =
     (if held m = 0 then [] else if at_out m \<le> at_in m then [at_out m..<at_in m]
      else [at_out m..<n_slots m - 1] @ [0..<at_in m])"

definition row_waiting :: "'a slot_row \<Rightarrow> 'a list" where
  "row_waiting m = map (\<lambda>j. the (slot m j)) (row_live m)"

text \<open>
  The cursors are on the same lap, with at most one entry counted that is not there; or \<open>at_in\<close> is
  a lap ahead; or the consumer has gone past the end of an empty row and waits for the mark.
\<close>

definition row_phase :: "'a slot_row \<Rightarrow> bool" where
  "row_phase m \<longleftrightarrow>
     at_out m \<le> at_in m \<and> (held m = at_in m - at_out m \<or> held m = at_in m - at_out m + 1) \<or>
     at_in m < at_out m \<and> held m = n_slots m - at_out m + at_in m \<or>
     at_in m = 0 \<and> at_out m = 1 \<and> held m = 0"

definition row_ok :: "'a slot_row \<Rightarrow> bool" where
  "row_ok m \<longleftrightarrow> 1 < n_slots m \<and> at_in m < n_slots m \<and> at_out m < n_slots m \<and> row_phase m \<and>
     (\<forall>j < n_slots m - 1. slot m j \<noteq> None \<longleftrightarrow> j \<in> set (row_live m))"

lemma row_mark [simp]:
  "row_live (m\<lparr>marked := b\<rparr>) = row_live m" "row_phase (m\<lparr>marked := b\<rparr>) = row_phase m"
  by (simp_all add: row_live_def row_phase_def)

lemma row_put_ok:
  assumes "row_ok m" and "at_in m = n_slots m - 1 \<and> \<not> refuses m \<longrightarrow> at_in m = at_out m + held m"
  shows "row_ok (snd (row_put x m)) \<and> row_waiting (snd (row_put x m)) =
    row_waiting m @ (if refuses m \<or> at_in m = n_slots m - 1 then [] else [x])"
proof (cases "refuses m")
  case True
  then show ?thesis using assms(1) by (simp add: row_put_def row_ok_def row_waiting_def)
next
  case False
  show ?thesis
  proof (cases "at_in m = n_slots m - 1")
    case True
    have o: "0 < at_out m" "at_out m \<le> at_in m" "held m = at_in m - at_out m"
      using False True assms by (auto simp: refuses_def row_ok_def row_phase_def)
    let ?m = "snd (row_put x m)"
    have m: "at_in ?m = 0" "at_out ?m = at_out m" "held ?m = Suc (held m)" "n_slots ?m = n_slots m"
      "slot ?m = (slot m)(n_slots m - 1 \<mapsto> x)"
      using False True assms(1) by (simp_all add: row_put_def row_ok_def)
    have live: "row_live ?m = row_live m" using o True by (auto simp: row_live_def m)
    have "row_waiting ?m = row_waiting m" unfolding row_waiting_def live
      using o True by (intro map_cong) (auto simp: m row_live_def split: if_splits)
    moreover have "row_ok ?m" using assms(1) o True unfolding row_ok_def live by (auto simp: m row_phase_def row_live_def)
    ultimately show ?thesis using True by simp
  next
    case inside: False
    have lt: "at_in m + 1 < n_slots m" "at_out m < n_slots m" using assms(1) inside by (auto simp: row_ok_def)
    let ?m = "snd (row_put x m)"
    have m: "at_in ?m = at_in m + 1" "at_out ?m = at_out m" "held ?m = Suc (held m)" "n_slots ?m = n_slots m"
      "slot ?m = (slot m)(at_in m \<mapsto> x)"
      using False lt(1) by (simp_all add: row_put_def)
    have phase: "at_out m \<le> at_in m \<and> (held m = at_in m - at_out m \<or> held m = at_in m - at_out m + 1) \<or>
        at_in m + 1 < at_out m \<and> held m = n_slots m - at_out m + at_in m"
      using assms(1) False by (auto simp: row_ok_def row_phase_def refuses_def)
    have live: "row_live ?m = row_live m @ [at_in m]"
      using phase lt by (auto simp: row_live_def m)
    have new: "at_in m \<notin> set (row_live m)" using phase lt by (auto simp: row_live_def)
    have "row_waiting ?m = row_waiting m @ [x]" unfolding row_waiting_def live
      using new by (auto simp: m)
    moreover have "row_ok ?m"
      using assms(1) phase lt unfolding row_ok_def live by (auto simp: m row_phase_def)
    ultimately show ?thesis using False inside by simp
  qed
qed

lemma row_get_ok:
  assumes "row_ok m"
  shows "row_ok (snd (row_get m)) \<and> row_waiting m = (case fst (row_get m) of None \<Rightarrow> [] | Some x \<Rightarrow> [x]) @
    row_waiting (snd (row_get m))"
proof (cases "held m = 0 \<or> at_in m = at_out m")
  case True
  then have live: "row_live m = []" by (auto simp: row_live_def)
  moreover have "row_ok (snd (row_get m))"
    using assms True live by (auto simp: row_get_def row_ok_def row_phase_def row_live_def)
  moreover have "row_live (snd (row_get m)) = []" using True by (auto simp: row_get_def row_live_def)
  ultimately show ?thesis using True by (simp add: row_get_def row_waiting_def)
next
  case False
  let ?m = "snd (row_get m)" and ?j = "row_start m"
  have m: "at_in ?m = at_in m" "at_out ?m = ?j + 1" "held ?m = held m - 1" "n_slots ?m = n_slots m"
    "slot ?m = (slot m)(?j := None)" "fst (row_get m) = slot m ?j"
    using False by (simp_all add: row_get_def Let_def)
  have ok: "1 < n_slots m" "at_in m < n_slots m" "at_out m < n_slots m" "row_phase m"
    "\<And>j. j < n_slots m - 1 \<Longrightarrow> slot m j \<noteq> None \<longleftrightarrow> j \<in> set (row_live m)"
    using assms by (auto simp: row_ok_def)
  have j: "?j < n_slots m - 1" using ok(1) by (simp add: row_start_def)
  have start: "?j = (if at_out m = n_slots m - 1 then 0 else at_out m)"
    using ok(3) by (auto simp: row_start_def)
  consider (same) "at_out m < at_in m" "?j = at_out m" "held m = at_in m - at_out m \<or> held m = at_in m - at_out m + 1"
    | (ahead) "at_in m < at_out m" "at_out m < n_slots m - 1" "?j = at_out m" "held m = n_slots m - at_out m + at_in m"
    | (turn) "at_in m < at_out m" "at_out m = n_slots m - 1" "?j = 0" "held m = at_in m + 1"
  proof (cases "at_out m < at_in m")
    case True
    moreover have "held m = at_in m - at_out m \<or> held m = at_in m - at_out m + 1"
      using ok(4) [unfolded row_phase_def] True by linarith
    ultimately show ?thesis using ok(2) start by (intro that(1)) auto
  next
    case below: False
    then have count: "at_in m < at_out m" "held m = n_slots m - at_out m + at_in m"
      using ok(4) [unfolded row_phase_def] False by linarith+
    show ?thesis
    proof (cases "at_out m = n_slots m - 1")
      case True
      then show ?thesis using count ok(1) start by (intro that(3)) simp_all
    next
      case False
      then show ?thesis using count ok(3) start by (intro that(2)) simp_all
    qed
  qed
  note turns = this
  have phase: "row_phase ?m"
    by (rule turns) (use ok(1,2) in \<open>auto simp: row_phase_def m\<close>)
  show ?thesis
  proof (cases "at_in m = 0 \<and> at_out m = n_slots m - 1")
    case True
    have "held m = 1 \<and> ?j = 0" by (cases rule: turns) (use True ok(1) in simp_all)
    then have "row_live m = []" "row_live ?m = []" "?j = 0"
      using True ok(1) by (simp_all add: row_live_def m)
    moreover have "slot m 0 = None" using ok(1) ok(5) [of 0] \<open>row_live m = []\<close> by simp
    ultimately show ?thesis using ok phase j by (auto simp: row_ok_def row_waiting_def m)
  next
    case more: False
    have live: "row_live m = ?j # row_live ?m"
    proof (cases rule: turns)
      case same
      then show ?thesis by (simp add: row_live_def m upt_conv_Cons) linarith
    next
      case ahead
      then show ?thesis by (simp add: row_live_def m upt_conv_Cons) linarith
    next
      case turn
      with more show ?thesis by (simp add: row_live_def m upt_conv_Cons)
    qed
    have "distinct (row_live m)" by (auto simp: row_live_def)
    then have new: "?j \<notin> set (row_live ?m)" by (simp add: live)
    obtain x where x: "slot m ?j = Some x" using ok(5) [OF j] live by auto
    have "row_waiting m = x # row_waiting ?m" using new x by (auto simp: row_waiting_def live m)
    moreover have "row_ok ?m" using ok j phase new live by (auto simp: row_ok_def m)
    ultimately show ?thesis using x by (simp add: m)
  qed
qed

text \<open>
  Whatever the schedule, if the consumer keeps up then what it gets, and what still waits, is what
  waited and what was accepted outside the last slot, in order.
\<close>

definition gotten :: "'a option list \<Rightarrow> 'a list" where
  "gotten outs = map the (filter (\<lambda>x. x \<noteq> None) outs)"

lemma gotten_simps [simp]: "gotten [] = []" "gotten (None # outs) = gotten outs" "gotten (Some x # outs) = x # gotten outs"
  by (simp_all add: gotten_def)

lemma row_run_keeps:
  assumes "row_ok m" and "keeps_up m ops" and "row_run m ops = (outs, m')"
  shows "row_ok m' \<and> gotten outs @ row_waiting m' = row_waiting m @ kept m ops"
  using assms
proof (induction ops arbitrary: m outs)
  case Nil
  then show ?case by simp
next
  case (Cons op ops)
  show ?case
  proof (cases op)
    case (Enq x)
    with Cons row_put_ok [of m x] show ?thesis by fastforce
  next
    case Deq
    then obtain outs1 where "row_run (snd (row_get m)) ops = (outs1, m')" "outs = fst (row_get m) # outs1"
      using Cons.prems(3) by (auto split: prod.splits)
    with Cons Deq row_get_ok [of m] show ?thesis by (cases "fst (row_get m)") fastforce+
  qed
qed

section \<open>A ring between passes\<close>

definition still :: "nat \<Rightarrow> Q \<Rightarrow> bool" where
  "still cap q \<longleftrightarrow> ring_wf q \<and> geom q \<and> unat (bsz q) = cap + 38 \<and> qlock q = 0 \<and> sz q < rsz q \<and>
     (\<forall>j < unat (rsz q). block_lock (R q ! j) = 0 \<and> blen (R q ! j) \<le> int cap)"

text \<open>What a slot holds: the last \<open>h\<close> bytes of the headers and the payload.\<close>

definition entry :: "nat \<Rightarrow> Q \<Rightarrow> nat \<Rightarrow> u8 list" where
  "entry h q j = read_at (j * unat (bsz q) + (34 - h)) (h + nat (blen (R q ! j))) (pool q)"

definition row :: "nat \<Rightarrow> Q \<Rightarrow> u8 list slot_row" where
  "row h q = \<lparr>n_slots = unat (rsz q), at_in = unat (q_in q), at_out = unat (q_out q), held = unat (sz q),
     marked = (full q \<noteq> 0),
     slot = (\<lambda>j. if j < unat (rsz q) \<and> 14 < blen (R q ! j) then Some (entry h q j) else None)\<rparr>"

lemma row_fields [simp]:
  "n_slots (row h q) = unat (rsz q)" "at_in (row h q) = unat (q_in q)" "at_out (row h q) = unat (q_out q)"
  "held (row h q) = unat (sz q)" "marked (row h q) \<longleftrightarrow> full q \<noteq> 0"
  "slot (row h q) j = (if j < unat (rsz q) \<and> 14 < blen (R q ! j) then Some (entry h q j) else None)"
  by (simp_all add: row_def)

lemma stillD:
  assumes "still cap q"
  shows "ring_wf q" "geom q" "unat (bsz q) = cap + 38" "qlock q = 0" "sz q < rsz q"
    "j < unat (rsz q) \<Longrightarrow> block_lock (R q ! j) = 0" "j < unat (rsz q) \<Longrightarrow> blen (R q ! j) \<le> int cap"
    "length (R q) = unat (rsz q)" "1 < unat (rsz q)" "unat (q_in q) < unat (rsz q)" "unat (q_out q) < unat (rsz q)"
    "rsz q \<noteq> 0" "unat (rsz q - 1) = unat (rsz q) - 1"
proof -
  show "ring_wf q" "geom q" "unat (bsz q) = cap + 38" "qlock q = 0" "sz q < rsz q"
    "j < unat (rsz q) \<Longrightarrow> block_lock (R q ! j) = 0" "j < unat (rsz q) \<Longrightarrow> blen (R q ! j) \<le> int cap"
    using assms by (auto simp: still_def)
  note wf = ring_wfD [OF \<open>ring_wf q\<close>]
  show "length (R q) = unat (rsz q)" "1 < unat (rsz q)" "unat (q_in q) < unat (rsz q)" "unat (q_out q) < unat (rsz q)"
    using wf by auto
  show "rsz q \<noteq> 0" using wf(2) by auto
  then show "unat (rsz q - 1) = unat (rsz q) - 1" by (rule unat_pred)
qed

lemma push_still:
  assumes "still cap q"
  shows "push q = Some (Inr (if refuses (row h q) then (NULL, q\<lparr>full := 1\<rparr>)
    else (Slot (unat (q_in q)), set_slot_lock (unat (q_in q)) 1 q)))"
proof -
  note d = stillD [OF assms]
  have "q_in q = q_out q - 1 \<longleftrightarrow> unat (q_in q) + 1 = unat (q_out q)"
  proof (cases "q_out q = 0")
    case True
    have "unat (rsz q) < 2 ^ 32" using unsigned_less [of "rsz q", where 'a = nat] by simp
    moreover have "unat (- 1 :: u32) = 2 ^ 32 - 1" by (simp add: unsigned_minus_1_eq_mask mask_eq_exp_minus_1)
    ultimately have "unat (q_in q) \<noteq> unat (- 1 :: u32)" using d(10) by simp
    then show ?thesis using True by auto
  next
    case False
    then have "unat (q_out q - 1) = unat (q_out q) - 1" "0 < unat (q_out q)" by (simp_all add: unat_pred unat_gt_0)
    then show ?thesis unfolding word_eq_iff_unat by linarith
  qed
  moreover have "rsz q - 1 \<le> sz q \<longleftrightarrow> unat (rsz q) - 1 \<le> unat (sz q)" by (simp add: word_le_nat_alt d(13))
  ultimately show ?thesis
    using push_unlocked [OF d(1,4) d(6) [OF d(10)]] by (simp add: refuses_def)
qed

lemma pop_still:
  assumes "still cap q"
  shows "pop q = Some (Inr (if held (row h q) = 0 \<or> at_in (row h q) = at_out (row h q) then (NULL, emptied q)
    else (Slot (row_start (row h q)),
      set_slot_lock (row_start (row h q)) 1 (q\<lparr>q_out := of_nat (row_start (row h q) + 1)\<rparr>))))"
proof (cases "sz q = 0 \<or> q_in q = q_out q")
  case True
  then have "held (row h q) = 0 \<or> at_in (row h q) = at_out (row h q)" by auto
  then show ?thesis using pop_empty [OF stillD(4) [OF assms] True] by (simp only: emptied_def if_True)
next
  case False
  then have some: "\<not> (held (row h q) = 0 \<or> at_in (row h q) = at_out (row h q))"
    by (simp add: word_eq_iff_unat [of "q_in q"] unsigned_eq_0_iff)
  note d = stillD [OF assms]
  have start: "pop_start q = row_start (row h q)"
    by (simp add: pop_start_def row_start_def word_le_nat_alt d(13))
  have below: "row_start (row h q) + 1 < unat (rsz q)" using d(9) by (auto simp: row_start_def)
  then have at: "row_start (row h q) = (pop_start q + 0) mod unat (rsz q)" by (simp add: start)
  have "row_start (row h q) < unat (rsz q)" using below by simp
  from pop_outcome [OF d(1,4) _ _ _ _ d(6) [OF this] at] False below d(9) have "pop q = Some (Inr (Slot (row_start (row h q)),
      set_slot_lock (row_start (row h q)) 1 (q\<lparr>q_out := of_nat (row_start (row h q) + 1)\<rparr>)))" by simp
  then show ?thesis using some by (simp only: if_False)
qed

text \<open>How the row moves when a slot is published or released and when an empty ring is looked at.\<close>

lemma row_publish:
  assumes "still cap q" and "\<not> refuses (row h q)" and "14 < n" and "n \<le> int cap"
    and mem: "untouched (unat (q_in q) * unat (bsz q)) (unat (q_in q) * unat (bsz q) + (34 + cap)) (pool q) mem"
    and "read_at (unat (q_in q) * unat (bsz q) + (34 - h)) (h + nat n) mem = x" and "h \<le> 34"
  defines "q' \<equiv> (set_blen (unat (q_in q)) n q)\<lparr>pool := mem, sz := sz q + 1,
      q_in := (if rsz q \<le> q_in q + 1 then 0 else q_in q + 1)\<rparr>"
  shows "still cap q'" and "row h q' = snd (row_put x (row h q))"
proof -
  note d = stillD [OF assms(1)]
  let ?j = "unat (q_in q)"
  have count: "unat (sz q) + 1 < unat (rsz q)" using assms(2) by (auto simp: refuses_def)
  then have sz: "unat (sz q + 1) = unat (sz q) + 1" using unat_suc_below [of "sz q" "rsz q"] d(5) by simp
  have suc: "unat (q_in q + 1) = ?j + 1" using unat_suc_below [of "q_in q" "rsz q"] d(10) by (simp add: word_less_nat_alt)
  then have in': "unat (q_in q') = (if unat (rsz q) \<le> ?j + 1 then 0 else ?j + 1)"
    by (simp add: q'_def word_le_nat_alt)
  have sel: "rsz q' = rsz q" "bsz q' = bsz q" "pool q' = mem" "qlock q' = qlock q" "q_out q' = q_out q"
    "full q' = full q" "sz q' = sz q + 1" by (simp_all add: q'_def)
  have blen: "blen (R q' ! i) = (if i = ?j then n else blen (R q ! i))" for i
    using d(8,10) by (simp add: q'_def)
  have lock: "block_lock (R q' ! i) = block_lock (R q ! i)" for i using d(8,10) by (simp add: q'_def)
  have "ring_wf q'" using ring_wf_set_blen [OF d(1), of ?j n] in' d(9)
    by (auto simp: q'_def ring_wf_def word_less_nat_alt split: if_splits)
  moreover have "geom (set_blen ?j n q)" using d(2,8,10) by (simp add: geom_set_blen)
  then have "geom q'" using untouched_length [OF mem] by (simp add: q'_def geom_def)
  ultimately show "still cap q'"
    using d count assms(4) by (auto simp: still_def sel blen lock sz word_less_nat_alt)
  have "entry h q' i = entry h q i" if "i \<noteq> ?j" "i < unat (rsz q)" "14 < blen (R q ! i)" for i
  proof -
    have "nat (blen (R q ! i)) \<le> cap" using d(7) [OF that(2)] by linarith
    then have fit: "34 - h + (h + nat (blen (R q ! i))) \<le> unat (bsz q)" using assms(7) d(3) by linarith
    have "untouched (?j * unat (bsz q) + 0) (?j * unat (bsz q) + (34 + cap)) (pool q) mem" using mem by simp
    from other_block [OF this _ that(1) fit] d(3) show ?thesis using that(1) by (simp add: entry_def sel blen)
  qed
  moreover have "entry h q' ?j = x" using assms(6) by (simp add: entry_def sel blen)
  ultimately have "slot (row h q') = (slot (row h q))(?j \<mapsto> x)"
    using assms(3) d(10) by (auto simp: fun_eq_iff sel blen)
  then show "row h q' = snd (row_put x (row h q))"
    using assms(2) in' by (simp add: row_put_def row_def sel sz)
qed

lemma row_release:
  assumes "still cap q" and "sz q \<noteq> 0" and "j + 1 < unat (rsz q)"
  defines "q' \<equiv> (set_blen j (- 1) q)\<lparr>q_out := of_nat (j + 1), sz := sz q - 1\<rparr>"
  shows "still cap q'"
    and "row h q' = (row h q)\<lparr>slot := (slot (row h q))(j := None), at_out := j + 1, held := held (row h q) - 1\<rparr>"
proof -
  note d = stillD [OF assms(1)]
  have out: "unat (of_nat (j + 1) :: u32) = j + 1" by (rule unat_of_nat_below [OF assms(3)])
  have sz: "unat (sz q - 1) = unat (sz q) - 1" using assms(2) by (rule unat_pred)
  have sel: "rsz q' = rsz q" "bsz q' = bsz q" "pool q' = pool q" "qlock q' = qlock q" "q_in q' = q_in q"
    "full q' = full q" "sz q' = sz q - 1" "q_out q' = of_nat (j + 1)" by (simp_all add: q'_def)
  have blen: "blen (R q' ! i) = (if i = j then - 1 else blen (R q ! i))" for i using d(8) assms(3) by (simp add: q'_def)
  have lock: "block_lock (R q' ! i) = block_lock (R q ! i)" for i using d(8) assms(3) by (simp add: q'_def)
  have "ring_wf q'" using ring_wf_set_blen [OF d(1), of j "- 1"] out assms(3)
    by (auto simp: q'_def ring_wf_def word_less_nat_alt)
  moreover have "geom (set_blen j (- 1) q)" using d(2,8) assms(3) by (simp add: geom_set_blen)
  then have "geom q'" by (simp add: q'_def geom_def)
  ultimately show "still cap q'"
    using d by (auto simp: still_def sel blen lock sz word_less_nat_alt)
  have "entry h q' i = entry h q i" if "i \<noteq> j" for i using that by (simp add: entry_def sel blen)
  then have "slot (row h q') = (slot (row h q))(j := None)" by (auto simp: fun_eq_iff sel blen)
  then show "row h q' = (row h q)\<lparr>slot := (slot (row h q))(j := None), at_out := j + 1, held := held (row h q) - 1\<rparr>"
    using out by (simp add: row_def sel sz)
qed

lemma row_emptied:
  assumes "still cap q" and "held (row h q) = 0 \<or> at_in (row h q) = at_out (row h q)"
  shows "still cap (emptied q)" and "row h (emptied q) = snd (row_get (row h q))"
proof -
  note d = stillD [OF assms(1)]
  have eq: "R (reset_ring (q\<lparr>sz := 0\<rparr>)) = map (\<lambda>b. b\<lparr>blen := 0\<rparr>) (R q)" using d(8) by (simp add: reset_ring_def)
  have sel: "rsz (emptied q) = rsz q" "bsz (emptied q) = bsz q" "pool (emptied q) = pool q" "qlock (emptied q) = 0"
    "sz (emptied q) = 0" using d(4) by (simp_all add: emptied_def reset_ring_def)
  have blen: "blen (R (emptied q) ! i) = (if full q = 0 then blen (R q ! i) else 0)"
    "block_lock (R (emptied q) ! i) = block_lock (R q ! i)" if "i < unat (rsz q)" for i
    using that d(8) eq by (simp_all add: emptied_def)
  have "ring_wf (q\<lparr>sz := 0\<rparr>)" using d(1) by (simp add: ring_wf_def)
  then have "ring_wf (emptied q)" using reset_ring_wf [of "q\<lparr>sz := 0\<rparr>"] by (simp add: emptied_def)
  moreover have "geom (reset_ring (q\<lparr>sz := 0\<rparr>))" using d(2) eq by (simp add: geom_def) (simp add: reset_ring_def)
  then have "geom (emptied q)" using d(2) by (simp add: emptied_def)
  ultimately show "still cap (emptied q)"
    using d(3-9) by (auto simp: still_def sel blen word_less_nat_alt)
  have "slot (row h (emptied q)) = (if full q = 0 then slot (row h q) else (\<lambda>_. None))"
  proof
    fix i
    show "slot (row h (emptied q)) i = (if full q = 0 then slot (row h q) else (\<lambda>_. None)) i"
      by (cases "full q = 0"; cases "i < unat (rsz q)") (simp_all add: sel blen entry_def)
  qed
  then show "row h (emptied q) = snd (row_get (row h q))"
    using assms(2) by (simp add: row_get_def row_def sel) (simp add: emptied_def reset_ring_def)
qed

section \<open>A ring with its two passes\<close>

text \<open>
  The contract of a ring over laps: offering an entry and taking one are the operations of the
  row, on every ring that is in order.
\<close>

locale slot_ring =
  fixes offer :: "'a \<Rightarrow> 's \<Rightarrow> (bool \<times> 's) option" and take_one :: "'s \<Rightarrow> ('b option \<times> 's) option"
    and inv :: "'s \<Rightarrow> bool" and view :: "'s \<Rightarrow> 'a slot_row" and okv :: "'a \<Rightarrow> bool"
    and carries :: "'b \<Rightarrow> 'a \<Rightarrow> bool"
  assumes offer_law: "inv q \<Longrightarrow> okv x \<Longrightarrow>
      \<exists>q'. offer x q = Some (\<not> refuses (view q), q') \<and> inv q' \<and> view q' = snd (row_put x (view q))"
    and take_law: "inv q \<Longrightarrow>
      \<exists>f q'. take_one q = Some (f, q') \<and> rel_option carries f (fst (row_get (view q))) \<and> inv q' \<and>
        view q' = snd (row_get (view q))"
begin

abbreviation ring_run :: "'s \<Rightarrow> 'a fifo_op list \<Rightarrow> ('b option list \<times> 's) option" where
  "ring_run \<equiv> fifo_run (\<lambda>x q. map_option snd (offer x q)) take_one"

lemma run_refines_row:
  assumes "inv q" and "\<forall>x \<in> set (enqueued ops). okv x"
  shows "\<exists>outs q'. ring_run q ops = Some (outs, q') \<and> inv q' \<and>
    list_all2 (rel_option carries) outs (fst (row_run (view q) ops)) \<and> view q' = snd (row_run (view q) ops)"
  using assms
proof (induction ops arbitrary: q)
  case Nil
  then show ?case by simp
next
  case (Cons op ops)
  show ?case
  proof (cases op)
    case (Enq x)
    then obtain q1 where "offer x q = Some (\<not> refuses (view q), q1)" "inv q1" "view q1 = snd (row_put x (view q))"
      using offer_law [of q x] Cons.prems by auto
    with Cons.IH [of q1] Cons.prems(2) Enq show ?thesis by simp
  next
    case Deq
    obtain f q1 where "take_one q = Some (f, q1)" "rel_option carries f (fst (row_get (view q)))" "inv q1"
      "view q1 = snd (row_get (view q))" using take_law [OF Cons.prems(1)] by blast
    with Cons.IH [of q1] Cons.prems(2) Deq show ?thesis by (auto split: prod.splits)
  qed
qed

lemma carried: "list_all2 (rel_option carries) outs ys \<Longrightarrow> list_all2 carries (gotten outs) (gotten ys)"
proof (induction rule: list_all2_induct)
  case (Cons x xs y ys)
  then show ?case by (cases x; cases y) simp_all
qed simp

lemma run_over_laps:
  assumes "inv q" and "\<forall>x \<in> set (enqueued ops). okv x"
  shows "\<exists>outs q'. ring_run q ops = Some (outs, q') \<and> inv q' \<and>
    list_all2 (rel_option carries) outs (fst (row_run (view q) ops)) \<and> view q' = snd (row_run (view q) ops) \<and>
    (row_ok (view q) \<and> keeps_up (view q) ops \<longrightarrow>
      (\<exists>xs. list_all2 carries (gotten outs) xs \<and> xs @ row_waiting (view q') = row_waiting (view q) @ kept (view q) ops))"
proof -
  obtain ys m where run: "row_run (view q) ops = (ys, m)" by (cases "row_run (view q) ops")
  with run_refines_row [OF assms(1,2)] obtain outs q' where
    r: "ring_run q ops = Some (outs, q')" "inv q'" "list_all2 (rel_option carries) outs ys" "view q' = m" by auto
  have "\<exists>xs. list_all2 carries (gotten outs) xs \<and> xs @ row_waiting (view q') = row_waiting (view q) @ kept (view q) ops"
    if "row_ok (view q) \<and> keeps_up (view q) ops"
    using row_run_keeps [OF _ _ run] that carried [OF r(3)] r(4) by blast
  with r run show ?thesis by auto
qed

end

section \<open>Sending rings\<close>

text \<open>A pass of \<^verbatim>\<open>tx_io\<close> with a payload at hand: it is read if \<^verbatim>\<open>push\<close> gives a slot.\<close>

definition tx_offer :: "u8 list \<Rightarrow> Q \<Rightarrow> (bool \<times> Q) option" where
  "tx_offer p q = (case tx_io_queue [data_event p] q of
     Some (Inr (n, _, q')) \<Rightarrow> Some (n \<noteq> None, q') | _ \<Rightarrow> None)"

definition tx_still :: "nat \<Rightarrow> headers \<Rightarrow> Q \<Rightarrow> bool" where
  "tx_still cap hdr q \<longleftrightarrow> still cap q \<and>
     (\<forall>j < unat (rsz q). stamped hdr q j \<and> (14 < blen (R q ! j) \<longrightarrow> length_field q j))"

lemma entry_payload: "entry 0 q j = payload q j"
  by (simp add: entry_def payload_def)

lemma still_full [simp]: "still cap (q\<lparr>full := b\<rparr>) = still cap q"
  by (simp add: still_def ring_wf_def geom_def)

lemma entry_updates [simp]:
  "entry h (q\<lparr>full := b\<rparr>) j = entry h q j" "entry h (next_interval q) j = entry h q j"
  by (simp_all add: entry_def)

lemma still_next [simp]: "still cap (next_interval q) = still cap q" "row h (next_interval q) = row h q"
  by (simp_all add: still_def ring_wf_def geom_def row_def cong: if_cong)

lemma row_marked: "row h (q\<lparr>full := 1\<rparr>) = (row h q)\<lparr>marked := True\<rparr>"
  by (simp add: row_def cong: if_cong)

lemma tx_offer_law:
  assumes "tx_still cap hdr q" and "fits cap p"
  shows "\<exists>q'. tx_offer p q = Some (\<not> refuses (row 0 q), q') \<and> tx_still cap hdr q' \<and>
    row 0 q' = snd (row_put p (row 0 q))"
proof (cases "refuses (row 0 q)")
  case True
  have st: "still cap q" using assms(1) by (simp add: tx_still_def)
  have "tx_offer p q = Some (False, q\<lparr>full := 1\<rparr>)"
    using push_still [OF st, of 0] True by (simp add: tx_offer_def tx_io_queue_def)
  moreover have "tx_still cap hdr (q\<lparr>full := 1\<rparr>)"
    using assms(1) by (simp add: tx_still_def stamped_def length_field_def)
  ultimately show ?thesis using True by (simp add: row_put_def row_marked)
next
  case False
  have st: "still cap q" using assms(1) by (simp add: tx_still_def)
  note d = stillD [OF st]
  let ?j = "unat (q_in q)" and ?b = "unat (bsz q)"
  have push: "push q = Some (Inr (Slot ?j, set_slot_lock ?j 1 q))" using push_still [OF st, of 0] False by simp
  from tx_put_effect [OF d(2,3,8) assms(2) d(10) d(6) [OF d(10)] d(5) push]
  obtain mem where put: "tx_put p q = Some ((set_blen ?j (int (length p)) q)\<lparr>pool := mem,
      sz := sz q + 1, q_in := (if rsz q \<le> q_in q + 1 then 0 else q_in q + 1)\<rparr>)"
    and mem: "untouched (?j * ?b + 16) (?j * ?b + 34 + cap) (pool q) mem"
    "read_at (?j * ?b + 34) (length p) mem = p"
    "read_at (?j * ?b + 16) 2 mem = bytes_of_u16 (of_nat (length p + 20))"
    "read_at (?j * ?b + 26) 8 mem = read_at (?j * ?b + 26) 8 (pool q)" by blast
  define q' where "q' = (set_blen ?j (int (length p)) q)\<lparr>pool := mem, sz := sz q + 1,
      q_in := (if rsz q \<le> q_in q + 1 then 0 else q_in q + 1)\<rparr>"
  have "tx_offer p q = Some (True, q')"
    using put unfolding q'_def [symmetric]
    by (auto simp: tx_put_def tx_offer_def split: option.splits sum.splits prod.splits)
  moreover have n: "14 < int (length p)" "int (length p) \<le> int cap" using assms(2) by (auto simp: fits_def)
  have region: "untouched (?j * ?b + 16) (?j * ?b + (34 + cap)) (pool q) mem" using mem(1) by (simp add: add.assoc)
  then have "untouched (?j * ?b) (?j * ?b + (34 + cap)) (pool q) mem" by (rule untouched_mono) simp_all
  note pub = row_publish [OF st False n this, of p, folded q'_def]
  have row: "still cap q'" "row 0 q' = snd (row_put p (row 0 q))" using pub mem(2) by simp_all
  have sel: "bsz q' = bsz q" "rsz q' = rsz q" "pool q' = mem" by (simp_all add: q'_def)
  have blen': "blen (R q' ! i) = (if i = ?j then int (length p) else blen (R q ! i))" for i
    using d(8,10) by (simp add: q'_def)
  have same: "read_at (i * ?b + k) n mem = read_at (i * ?b + k) n (pool q)"
    if "i \<noteq> ?j" "k + n \<le> ?b" for i k n
    using other_block [OF region _ that] d(3) by simp
  have "stamped hdr q' i \<and> (14 < blen (R q' ! i) \<longrightarrow> length_field q' i)" if "i < unat (rsz q)" for i
  proof (cases "i = ?j")
    case True
    have "read_at (?j * ?b) 14 mem = read_at (?j * ?b) 14 (pool q)" by (rule untouched_read [OF mem(1)]) simp
    then show ?thesis using assms(1) True mem(3,4) d(10)
      by (simp add: tx_still_def stamped_def length_field_def sel blen')
  next
    case False
    then show ?thesis using assms(1) that same [OF False, of 0 14] same [OF False, of 26 8] same [OF False, of 16 2] d(3)
      by (simp add: tx_still_def stamped_def length_field_def sel blen')
  qed
  with row have "tx_still cap hdr q'" by (simp add: tx_still_def sel)
  ultimately show ?thesis using row False by auto
qed

lemma tx_get_row:
  assumes "tx_still cap hdr q"
  shows "\<exists>f q'. tx_get q = Some (f, q') \<and> rel_option (encapsulates hdr) f (fst (row_get (row 0 q))) \<and>
    tx_still cap hdr q' \<and> row 0 q' = snd (row_get (row 0 q))"
proof (cases "held (row 0 q) = 0 \<or> at_in (row 0 q) = at_out (row 0 q)")
  case True
  have st: "still cap q" using assms by (simp add: tx_still_def)
  note em = row_emptied [OF st True]
  have "sz (emptied q) = 0" by (simp add: emptied_def reset_ring_def)
  then have "tx_get q = Some (None, next_interval (emptied q))"
    using pop_still [OF st, of 0] True by (simp add: tx_get_def tx_queue_def)
  moreover have "fst (row_get (row 0 q)) = None" using True by (simp add: row_get_def)
  moreover have "tx_still cap hdr (next_interval (emptied q))"
  proof -
    have sel: "rsz (emptied q) = rsz q" "bsz (emptied q) = bsz q" "pool (emptied q) = pool q"
      by (simp_all add: emptied_def reset_ring_def)
    have "blen (R (emptied q) ! j) = blen (R q ! j) \<or> blen (R (emptied q) ! j) = 0" if "j < unat (rsz q)" for j
      using that stillD(8) [OF st] by (simp add: emptied_def) (simp add: reset_ring_def)
    then show ?thesis using assms em(1) by (fastforce simp: tx_still_def stamped_def length_field_def sel)
  qed
  ultimately show ?thesis using em(2) by simp
next
  case False
  have st: "still cap q" using assms by (simp add: tx_still_def)
  note d = stillD [OF st]
  define j where "j = row_start (row 0 q)"
  have j: "j + 1 < unat (rsz q)" using d(9) by (auto simp: j_def row_start_def)
  have sz: "sz q \<noteq> 0" using False by auto
  define q' where "q' = (set_blen j (- 1) q)\<lparr>q_out := of_nat (j + 1), sz := sz q - 1\<rparr>"
  note rel = row_release [OF st sz j, folded q'_def]
  have sel: "bsz q' = bsz q" "rsz q' = rsz q" "pool q' = pool q" by (simp_all add: q'_def)
  have pop: "pop q = Some (Inr (Slot j, set_slot_lock j 1 (q\<lparr>q_out := of_nat (j + 1)\<rparr>)))"
    using pop_still [OF st, of 0] False by (simp only: j_def if_False)
  have commit: "commit_pop j (set_slot_lock j 1 (q\<lparr>q_out := of_nat (j + 1)\<rparr>)) = q'"
    unfolding q'_def using d(6,8) j sz by (intro commit_pop_effect) auto
  have slot: "R (set_slot_lock j 1 (q\<lparr>q_out := of_nat (j + 1)\<rparr>)) ! j = (R q ! j)\<lparr>block_lock := 1\<rparr>"
    using d(8) j by (simp add: set_slot_lock_def)
  have get: "row_get (row 0 q) = (slot (row 0 q) j, row 0 q')"
    using False rel(2) [of 0] unfolding row_get_def j_def [symmetric] by (simp only: Let_def if_False)
  have "blen (R q' ! i) = (if i = j then - 1 else blen (R q ! i))" for i using d(8) j by (simp add: q'_def)
  then have inv: "tx_still cap hdr q'"
    using assms rel(1) by (auto simp: tx_still_def stamped_def length_field_def sel)
  show ?thesis
  proof (cases "14 < blen (R q ! j)")
    case True
    let ?n = "nat (blen (R q ! j))"
    let ?f = "read_at (j * unat (bsz q)) (34 + ?n) (pool q)"
    have pool: "j * unat (bsz q) + 34 + ?n \<le> length (pool q)"
      using geom_pool [OF d(2), of j] d(3) d(7) [of j] j by linarith
    have "encapsulates hdr ?f (payload q j)"
      using frame_encapsulates [of hdr q j] assms j True pool by (simp add: tx_still_def)
    moreover have "ethernet_frame (R q ! j) = j * unat (bsz q)" using geom_fields(1) [OF d(2)] d(8) j by simp
    then have "tx_get q = Some (Some ?f, q')"
      using pop True pool slot commit by (simp add: tx_get_def tx_queue_def Let_def frame_consts add.commute)
    ultimately show ?thesis using get inv True j by (simp add: entry_payload)
  next
    case False
    then have "tx_get q = Some (None, q')"
      using pop slot commit by (simp add: tx_get_def tx_queue_def Let_def)
    then show ?thesis using get inv False by simp
  qed
qed

interpretation tx_laps: slot_ring tx_offer tx_get "tx_still cap hdr" "row 0" "fits cap" "encapsulates hdr" for cap hdr
  by unfold_locales (fact tx_offer_law tx_get_row)+

section \<open>Receiving rings\<close>

text \<open>A pass of \<^verbatim>\<open>rx_io\<close> with a frame of the peer at hand.\<close>

definition rx_offer :: "u32 \<Rightarrow> u8 list \<Rightarrow> Q \<Rightarrow> (bool \<times> Q) option" where
  "rx_offer peer f q = (case rx_io_queue peer [data_event f] q of
     Some (Inr (evs, q')) \<Rightarrow> Some (evs = [], q') | _ \<Rightarrow> None)"

lemma entry_frame: "entry 34 q j = frame q j"
  by (simp add: entry_def frame_def)

lemma rx_offer_law:
  assumes "still cap q" and "from_peer cap peer f"
  shows "\<exists>q'. rx_offer peer f q = Some (\<not> refuses (row 34 q), q') \<and> still cap q' \<and>
    row 34 q' = snd (row_put f (row 34 q))"
proof (cases "refuses (row 34 q)")
  case True
  have "rx_offer peer f q = Some (False, q\<lparr>full := 1\<rparr>)"
    using push_still [OF assms(1), of 34] True by (simp add: rx_offer_def rx_io_queue_def)
  then show ?thesis using True assms(1) by (simp add: row_put_def row_marked)
next
  case False
  note d = stillD [OF assms(1)]
  let ?j = "unat (q_in q)" and ?b = "unat (bsz q)" and ?n = "int (length f) - 34"
  let ?q1 = "set_slot_lock ?j 1 q"
  have f: "48 < length f" "length f \<le> cap + 34" "read_at 26 4 f = bytes_of_u32 peer"
    using assms(2) by (auto simp: from_peer_def)
  have push: "push q = Some (Inr (Slot ?j, ?q1))" using push_still [OF assms(1), of 34] False by simp
  have "geom ?q1" using d(2,8,10) by (simp add: geom_set_slot_lock)
  then obtain mem where
    poll: "rx_io_poll peer ?j (data_event f) ?q1 = Inr (False, (set_blen ?j (int (length f)) ?q1)\<lparr>pool := mem\<rparr>)"
    and mem: "untouched (?j * ?b) (?j * ?b + 34 + cap) (pool q) mem" "read_at (?j * ?b) (length f) mem = f"
    using rx_store [of ?q1 cap ?j f peer] d(3,8,10) f by auto
  define q' where "q' = (set_blen ?j ?n q)\<lparr>pool := mem, sz := sz q + 1,
      q_in := (if rsz q \<le> q_in q + 1 then 0 else q_in q + 1)\<rparr>"
  have "commit_push ?j ((set_blen ?j ?n ?q1)\<lparr>pool := mem\<rparr>) = q'"
    unfolding q'_def using d(5,6,8,10) by (intro commit_push_effect) auto
  then have "rx_offer peer f q = Some (True, q')"
    using push poll d(8,10)
    by (simp add: rx_offer_def rx_io_queue_def set_blen_pool set_blen_twice frame_consts)
  moreover have n: "14 < ?n" "?n \<le> int cap" "34 + nat ?n = length f" using f by linarith+
  have "untouched (?j * ?b) (?j * ?b + (34 + cap)) (pool q) mem" using mem(1) by (simp add: add.assoc)
  note pub = row_publish [OF assms(1) False n(1,2) this, of f, folded q'_def]
  ultimately show ?thesis using False mem(2) n(3) pub by simp
qed

lemma rx_get_row:
  assumes "still cap q"
  shows "\<exists>p q'. rx_get q = Some (p, q') \<and> rel_option (\<lambda>p f. p = drop 34 f) p (fst (row_get (row 34 q))) \<and>
    still cap q' \<and> row 34 q' = snd (row_get (row 34 q))"
proof (cases "held (row 34 q) = 0 \<or> at_in (row 34 q) = at_out (row 34 q)")
  case True
  note em = row_emptied [OF assms True]
  have "sz (emptied q) = 0" by (simp add: emptied_def reset_ring_def)
  then have "rx_get q = Some (None, next_interval (emptied q))"
    using pop_still [OF assms, of 34] True by (simp add: rx_get_def rx_queue_def)
  moreover have "fst (row_get (row 34 q)) = None" using True by (simp add: row_get_def)
  ultimately show ?thesis using em by simp
next
  case False
  note d = stillD [OF assms]
  define j where "j = row_start (row 34 q)"
  have j: "j + 1 < unat (rsz q)" using d(9) by (auto simp: j_def row_start_def)
  have sz: "sz q \<noteq> 0" using False by auto
  define q' where "q' = (set_blen j (- 1) q)\<lparr>q_out := of_nat (j + 1), sz := sz q - 1\<rparr>"
  note rel = row_release [OF assms sz j, folded q'_def]
  have pop: "pop q = Some (Inr (Slot j, set_slot_lock j 1 (q\<lparr>q_out := of_nat (j + 1)\<rparr>)))"
    using pop_still [OF assms, of 34] False by (simp only: j_def if_False)
  have commit: "commit_pop j (set_slot_lock j 1 (q\<lparr>q_out := of_nat (j + 1)\<rparr>)) = q'"
    unfolding q'_def using d(6,8) j sz by (intro commit_pop_effect) auto
  have slot: "R (set_slot_lock j 1 (q\<lparr>q_out := of_nat (j + 1)\<rparr>)) ! j = (R q ! j)\<lparr>block_lock := 1\<rparr>"
    using d(8) j by (simp add: set_slot_lock_def)
  have get: "row_get (row 34 q) = (slot (row 34 q) j, row 34 q')"
    using False rel(2) [of 34] unfolding row_get_def j_def [symmetric] by (simp only: Let_def if_False)
  show ?thesis
  proof (cases "14 < blen (R q ! j)")
    case True
    let ?n = "nat (blen (R q ! j))"
    have pool: "j * unat (bsz q) + 34 + ?n \<le> length (pool q)"
      using geom_pool [OF d(2), of j] d(3) d(7) [of j] j by linarith
    have "drop 34 (frame q j) = read_at (j * unat (bsz q) + 34) ?n (pool q)"
      using read_at_within [of 34 ?n "34 + ?n" "j * unat (bsz q)" "pool q"] pool
      by (simp add: frame_def) (simp add: read_at_def)
    moreover have "ethernet_frame (R q ! j) = j * unat (bsz q)" using geom_fields(1) [OF d(2)] d(8) j by simp
    ultimately have "rx_get q = Some (Some (drop 34 (frame q j)), q')"
      using pop True pool slot commit by (simp add: rx_get_def rx_queue_def Let_def frame_consts)
    then show ?thesis using get rel(1) True j by (simp add: entry_frame)
  next
    case False
    then have "rx_get q = Some (None, q')"
      using pop slot commit by (simp add: rx_get_def rx_queue_def Let_def)
    then show ?thesis using get rel(1) False by simp
  qed
qed

interpretation rx_laps: slot_ring "rx_offer peer" rx_get "still cap" "row 34" "from_peer cap peer" "\<lambda>p f. p = drop 34 f"
  for cap peer
  by unfold_locales (fact rx_offer_law rx_get_row)+

section \<open>A ring after initialisation\<close>

definition blank_row :: "nat \<Rightarrow> 'a slot_row" where
  "blank_row n = \<lparr>n_slots = n, at_in = 0, at_out = 0, held = 0, marked = False, slot = (\<lambda>_. None)\<rparr>"

lemma blank_row_ok: "1 < n \<Longrightarrow> row_ok (blank_row n) \<and> row_waiting (blank_row n) = []"
  by (simp add: blank_row_def row_ok_def row_phase_def row_live_def row_waiting_def)

lemma blank_ring:
  assumes "blank q" and "quiet cap q"
  shows "row h q = blank_row (unat (rsz q))" and "still cap q"
proof -
  note d = quietD [OF assms(2)]
  have blen: "blen (R q ! j) = 0" if "j < unat (rsz q)" for j
    using assms(1) that d(8) by (simp add: blank_def list_all_length)
  show "row h q = blank_row (unat (rsz q))"
    using assms(1) blen by (auto simp: row_def blank_row_def blank_def fun_eq_iff)
  show "still cap q"
    using assms d blen ring_wfD(2) [OF d(1)] by (auto simp: still_def blank_def word_less_nat_alt)
qed

lemma blank_sender: "blank q \<Longrightarrow> tx_inv cap hdr q \<Longrightarrow> tx_still cap hdr q"
  using blank_ring(2) [of q cap] quietD(8) [of cap q]
  by (auto simp: tx_still_def tx_inv_def blank_def list_all_length)

text \<open>A ring of three blocks.\<close>

lemma sample_blank:
  obtains q where "blank q" and "tx_inv 15 sample_headers q" and "quiet 15 q" and "tx_still 15 sample_headers q"
    and "still 15 q" and "\<And>h. row h q = blank_row 3"
proof -
  have init: "init_ok (\<lambda>_ _. True) 200 49 sample_headers"
    by (simp add: init_ok_def headers_ok_def sample_headers_def)
  let ?q = "sample_ring [] 0 0 0"
  have zero: "q_in ?q = 0" "q_out ?q = 0" "sz ?q = 0" by simp_all
  obtain q where q: "init_ring_buffer (\<lambda>_ _. True) ?q 200 49 sample_headers = Inr q" "tx_inv 15 sample_headers q" "room q = 2"
    using init_ring_ready [OF init _ zero, of 0] by auto
  have blank: "blank q" by (rule init_ring_blank [OF init zero q(1)])
  have quiet: "quiet 15 q" using q(2) by (simp add: tx_inv_def)
  have "unat (rsz q) = 3" using q(3) blank by (simp add: room_def blank_def)
  then show ?thesis
    using that [OF blank q(2) quiet blank_sender [OF blank q(2)]] blank_ring [OF blank quiet] by simp
qed

lemmas row_steps = row_put_def row_get_def refuses_def row_start_def blank_row_def

text \<open>Once round a row of three: the third entry is lost, the fourth refused.\<close>

definition round_ops :: "'a \<Rightarrow> 'a \<Rightarrow> 'a \<Rightarrow> 'a \<Rightarrow> 'a \<Rightarrow> 'a fifo_op list" where
  "round_ops a b c d e = [Enq a, Deq, Enq b, Deq, Enq c, Deq, Enq d, Deq, Enq e, Deq]"

lemma once_round:
  "row_waiting (snd (row_run (blank_row 3) (round_ops a b c d e))) = []"
  "kept (blank_row 3) (round_ops a b c d e) = [a, b, e]"
  "keeps_up (blank_row 3) (round_ops a b c d e)"
  by (simp_all add: row_steps round_ops_def row_waiting_def row_live_def Let_def)

lemma once_round_kept:
  assumes "m = blank_row 3" and "m' = snd (row_run m (round_ops a b c d e))"
    and "row_ok m \<and> keeps_up m (round_ops a b c d e) \<longrightarrow>
      (\<exists>xs. P xs \<and> xs @ row_waiting m' = row_waiting m @ kept m (round_ops a b c d e))"
  shows "P [a, b, e]"
proof -
  have "row_ok m" "row_waiting m = []" by (simp_all add: assms(1) blank_row_ok)
  with assms(3) show ?thesis by (simp add: assms(1,2) once_round)
qed

section \<open>Properties\<close>

text \<open>
  C5: a sending ring over any number of laps, under every schedule of \<^verbatim>\<open>tx_io\<close> and \<^verbatim>\<open>tx\<close> passes: no
  pass fails, and the passes answer exactly as the row of slots does, each frame that is sent
  encapsulating the payload of its slot. If the worker keeps up, that is, if it has found the ring
  empty since the last turn whenever the last slot is filled, then it sends, in order and once each,
  the payloads read that did not come to lie in the last slot.
\<close>

theorem tx_ring_over_laps:
  assumes "tx_still cap hdr q" and "\<forall>p \<in> set (enqueued ops). fits cap p"
  shows "\<exists>outs q'. fifo_run (\<lambda>p q. map_option snd (tx_offer p q)) tx_get q ops = Some (outs, q') \<and> tx_still cap hdr q' \<and>
    list_all2 (rel_option (encapsulates hdr)) outs (fst (row_run (row 0 q) ops)) \<and>
    row 0 q' = snd (row_run (row 0 q) ops) \<and>
    (row_ok (row 0 q) \<and> keeps_up (row 0 q) ops \<longrightarrow>
      (\<exists>ps. list_all2 (encapsulates hdr) (gotten outs) ps \<and>
        ps @ row_waiting (row 0 q') = row_waiting (row 0 q) @ kept (row 0 q) ops))"
  by (rule tx_laps.run_over_laps [OF assms])

theorem tx_ring_over_laps_witness:
  "\<exists>q outs q'. fifo_run (\<lambda>p q. map_option snd (tx_offer p q)) tx_get q
      (round_ops (replicate 15 1) (replicate 15 2) (replicate 15 3) (replicate 15 4) (replicate 15 5)) = Some (outs, q') \<and>
    list_all2 (encapsulates sample_headers) (gotten outs) [replicate 15 1, replicate 15 2, replicate 15 5]"
proof -
  obtain q where q: "tx_still 15 sample_headers q" "row 0 q = blank_row 3" using sample_blank by metis
  have "\<exists>outs q'. fifo_run (\<lambda>p q. map_option snd (tx_offer p q)) tx_get q (round_ops a b c d e) = Some (outs, q') \<and>
      list_all2 (encapsulates sample_headers) (gotten outs) [a, b, e]"
    if ok: "\<forall>p \<in> {a, b, c, d, e}. fits 15 p" for a b c d e
  proof -
    have "\<forall>p \<in> set (enqueued (round_ops a b c d e)). fits 15 p" using ok by (simp add: round_ops_def)
    from tx_ring_over_laps [OF q(1) this] obtain outs q' where
      r: "fifo_run (\<lambda>p q. map_option snd (tx_offer p q)) tx_get q (round_ops a b c d e) = Some (outs, q')"
      "row 0 q' = snd (row_run (row 0 q) (round_ops a b c d e))"
      "row_ok (row 0 q) \<and> keeps_up (row 0 q) (round_ops a b c d e) \<longrightarrow>
        (\<exists>ps. list_all2 (encapsulates sample_headers) (gotten outs) ps \<and>
          ps @ row_waiting (row 0 q') = row_waiting (row 0 q) @ kept (row 0 q) (round_ops a b c d e))" by blast
    from once_round_kept [OF q(2) r(2,3)] r(1) show ?thesis by blast
  qed
  note this [of "replicate 15 1" "replicate 15 2" "replicate 15 3" "replicate 15 4" "replicate 15 5"]
  moreover have "\<forall>p \<in> {replicate 15 1, replicate 15 2, replicate 15 3, replicate 15 4, replicate 15 5 :: u8 list}. fits 15 p"
    by (simp add: fits_def)
  ultimately show ?thesis by (intro exI [of _ q])
qed

text \<open>
  C6: the same for a receiving ring with the passes of \<^verbatim>\<open>rx_io\<close> and \<^verbatim>\<open>rx\<close>: what \<^verbatim>\<open>rx\<close> writes is the
  payloads of the frames in the slots, and if it keeps up, those of all frames read that did not
  come to lie in the last slot, in order and once each.
\<close>

theorem rx_ring_over_laps:
  assumes "still cap q" and "\<forall>f \<in> set (enqueued ops). from_peer cap peer f"
  shows "\<exists>outs q'. fifo_run (\<lambda>f q. map_option snd (rx_offer peer f q)) rx_get q ops = Some (outs, q') \<and> still cap q' \<and>
    list_all2 (rel_option (\<lambda>p f. p = drop 34 f)) outs (fst (row_run (row 34 q) ops)) \<and>
    row 34 q' = snd (row_run (row 34 q) ops) \<and>
    (row_ok (row 34 q) \<and> keeps_up (row 34 q) ops \<longrightarrow>
      (\<exists>fs. list_all2 (\<lambda>p f. p = drop 34 f) (gotten outs) fs \<and>
        fs @ row_waiting (row 34 q') = row_waiting (row 34 q) @ kept (row 34 q) ops))"
  by (rule rx_laps.run_over_laps [OF assms])

theorem rx_ring_over_laps_witness:
  "\<exists>q outs q'. fifo_run (\<lambda>f q. map_option snd (rx_offer 0 f q)) rx_get q
      (round_ops (replicate 49 0) (replicate 49 0) (replicate 49 0) (replicate 49 0) (replicate 49 0)) = Some (outs, q') \<and>
    gotten outs = [replicate 15 0, replicate 15 0, replicate 15 0]"
proof -
  obtain q where q: "still 15 q" "row 34 q = blank_row 3" using sample_blank by metis
  have "\<exists>outs q'. fifo_run (\<lambda>f q. map_option snd (rx_offer 0 f q)) rx_get q (round_ops f f f f f) = Some (outs, q') \<and>
      list_all2 (\<lambda>p f. p = drop 34 f) (gotten outs) [f, f, f]"
    if ok: "from_peer 15 0 f" for f
  proof -
    have "\<forall>f \<in> set (enqueued (round_ops f f f f f)). from_peer 15 0 f" using ok by (simp add: round_ops_def)
    from rx_ring_over_laps [OF q(1) this] obtain outs q' where
      r: "fifo_run (\<lambda>f q. map_option snd (rx_offer 0 f q)) rx_get q (round_ops f f f f f) = Some (outs, q')"
      "row 34 q' = snd (row_run (row 34 q) (round_ops f f f f f))"
      "row_ok (row 34 q) \<and> keeps_up (row 34 q) (round_ops f f f f f) \<longrightarrow>
        (\<exists>fs. list_all2 (\<lambda>p f. p = drop 34 f) (gotten outs) fs \<and>
          fs @ row_waiting (row 34 q') = row_waiting (row 34 q) @ kept (row 34 q) (round_ops f f f f f))" by blast
    from once_round_kept [OF q(2) r(2,3)] r(1) show ?thesis by blast
  qed
  moreover have "from_peer 15 0 (replicate 49 0)" by code_simp
  ultimately obtain outs q' where
    "fifo_run (\<lambda>f q. map_option snd (rx_offer 0 f q)) rx_get q
      (round_ops (replicate 49 0) (replicate 49 0) (replicate 49 0) (replicate 49 0) (replicate 49 0)) = Some (outs, q')"
    "list_all2 (\<lambda>p f. p = drop 34 f) (gotten outs) [replicate 49 0, replicate 49 0, replicate 49 0]" by blast
  then show ?thesis by (auto simp: list_all2_Cons2)
qed

text \<open>
  A consumer that falls a whole lap behind loses more than the last slots: here the row has four
  slots, the consumer is always three entries late, and the reset wipes an entry of slot 0.
\<close>

theorem late_consumer_loses_more:
  "let ops = concat [replicate 4 (Enq x), [Deq], concat (replicate 5 [Enq x, Deq]), [Deq, Deq, Enq x, Deq, Deq]]
   in length (filter (\<lambda>y. y = Some x) (fst (row_run (blank_row 4) ops))) < length (kept (blank_row 4) ops) \<and>
      row_waiting (snd (row_run (blank_row 4) ops)) = [] \<and> \<not> keeps_up (blank_row 4) ops"
  by (simp add: row_steps row_waiting_def row_live_def Let_def numeral_eq_Suc)

end
