(* ===== verification/Lanes.thy ===== *)
theory Lanes
  imports Slots "HOL-Library.Multiset" "HOL-Library.Sublist"
begin

text \<open>
  A tunnel over any number of laps: a sending ring, the network between the hosts and a receiving
  ring. The network, with the buffer of the receiving socket, delivers the frames in order. A frame
  for which \<^verbatim>\<open>rx_io\<close> gets no slot stays in the buffer, and a payload for which \<^verbatim>\<open>tx_io\<close> gets none stays
  in the tap device.
\<close>

section \<open>The lane\<close>

datatype 'a lane_op = Read 'a | Transmit | Receive | Write

text \<open>
  The last three fields are the account of a run: the payloads \<^verbatim>\<open>tx_io\<close> read, those that came to lie
  in the last slot of a ring, and whether the workers kept up, that is, whether the count of a ring
  agreed with its cursors each time an entry went into its last slot.
\<close>

record ('s, 'f, 't, 'a) lane =
  sender :: 's
  wire :: "'f list"
  receiver :: 't
  written :: "'a list"
  accepted :: "'a list"
  lost :: "'a list"
  paced :: bool

definition at_last :: "'a slot_row \<Rightarrow> bool" where
  "at_last m \<longleftrightarrow> \<not> refuses m \<and> at_in m = n_slots m - 1"

definition in_step :: "'a slot_row \<Rightarrow> bool" where
  "in_step m \<longleftrightarrow> (at_last m \<longrightarrow> at_in m = at_out m + held m)"

fun lane_step ::
  "('a \<Rightarrow> 's \<Rightarrow> (bool \<times> 's) option) \<Rightarrow> ('s \<Rightarrow> ('f option \<times> 's) option) \<Rightarrow>
   ('f \<Rightarrow> 't \<Rightarrow> (bool \<times> 't) option) \<Rightarrow> ('t \<Rightarrow> ('a option \<times> 't) option) \<Rightarrow>
   ('s \<Rightarrow> 'a slot_row) \<Rightarrow> ('t \<Rightarrow> 'f slot_row) \<Rightarrow> ('f \<Rightarrow> 'a) \<Rightarrow>
   'a lane_op \<Rightarrow> ('s, 'f, 't, 'a) lane \<Rightarrow> ('s, 'f, 't, 'a) lane option" where
  "lane_step offer1 take1 offer2 take2 view1 view2 unwrap (Read x) l = do {
     (ok, s) \<leftarrow> offer1 x (sender l);
     Some (l\<lparr>sender := s, accepted := accepted l @ (if ok then [x] else []),
             lost := lost l @ (if at_last (view1 (sender l)) then [x] else []),
             paced := (paced l \<and> in_step (view1 (sender l)))\<rparr>) }"
| "lane_step offer1 take1 offer2 take2 view1 view2 unwrap Transmit l = do {
     (f, s) \<leftarrow> take1 (sender l);
     Some (l\<lparr>sender := s, wire := wire l @ (case f of None \<Rightarrow> [] | Some f \<Rightarrow> [f])\<rparr>) }"
| "lane_step offer1 take1 offer2 take2 view1 view2 unwrap Receive l =
     (case wire l of
        [] \<Rightarrow> Some l
      | f # fs \<Rightarrow> do {
          (ok, t) \<leftarrow> offer2 f (receiver l);
          Some (l\<lparr>receiver := t, wire := (if ok then fs else f # fs),
                  lost := lost l @ (if at_last (view2 (receiver l)) then [unwrap f] else []),
                  paced := (paced l \<and> in_step (view2 (receiver l)))\<rparr>) })"
| "lane_step offer1 take1 offer2 take2 view1 view2 unwrap Write l = do {
     (y, t) \<leftarrow> take2 (receiver l);
     Some (l\<lparr>receiver := t, written := written l @ (case y of None \<Rightarrow> [] | Some y \<Rightarrow> [y])\<rparr>) }"

fun to_read :: "'a lane_op list \<Rightarrow> 'a list" where
  "to_read [] = []"
| "to_read (Read x # ops) = x # to_read ops"
| "to_read (op # ops) = to_read ops"

section \<open>The account of a run\<close>

lemma slot_put: "slot (snd (row_put x m)) j = Some y \<Longrightarrow> y = x \<or> slot m j = Some y"
  by (auto simp: row_put_def split: if_splits)

lemma slot_get:
  "slot (snd (row_get m)) j = Some y \<Longrightarrow> slot m j = Some y"
  "fst (row_get m) = Some y \<Longrightarrow> \<exists>j. slot m j = Some y"
  by (auto simp: row_get_def Let_def split: if_splits)

lemma row_put_paced:
  assumes "row_ok m" and "in_step m"
  shows "row_ok (snd (row_put x m))"
    and "row_waiting (snd (row_put x m)) = row_waiting m @ (if refuses m \<or> at_last m then [] else [x])"
  using row_put_ok [of m x] assms by (auto simp: in_step_def at_last_def)

locale slot_link =
  up: slot_ring offer1 take1 inv1 view1 okv1 carries1 +
  down: slot_ring offer2 take2 inv2 view2 okv2 carries2
  for offer1 :: "'a \<Rightarrow> 's \<Rightarrow> (bool \<times> 's) option" and take1 inv1 view1 okv1
    and carries1 :: "'f \<Rightarrow> 'a \<Rightarrow> bool"
    and offer2 :: "'f \<Rightarrow> 't \<Rightarrow> (bool \<times> 't) option" and take2 inv2 view2 okv2
    and carries2 :: "'a \<Rightarrow> 'f \<Rightarrow> bool" +
  fixes unwrap :: "'f \<Rightarrow> 'a"
  assumes passes: "okv1 x \<Longrightarrow> carries1 f x \<Longrightarrow> okv2 f \<and> unwrap f = x"
    and unwraps: "carries2 y f \<Longrightarrow> y = unwrap f"
begin

abbreviation step :: "'a lane_op \<Rightarrow> ('s, 'f, 't, 'a) lane \<Rightarrow> ('s, 'f, 't, 'a) lane option" where
  "step \<equiv> lane_step offer1 take1 offer2 take2 view1 view2 unwrap"

text \<open>What was written and what is still on its way.\<close>

definition in_flight :: "('s, 'f, 't, 'a) lane \<Rightarrow> 'a list" where
  "in_flight l = written l @ map unwrap (row_waiting (view2 (receiver l)) @ wire l) @ row_waiting (view1 (sender l))"

definition lane_ok :: "('s, 'f, 't, 'a) lane \<Rightarrow> bool" where
  "lane_ok l \<longleftrightarrow> inv1 (sender l) \<and> inv2 (receiver l) \<and> (\<forall>j x. slot (view1 (sender l)) j = Some x \<longrightarrow> okv1 x) \<and>
     (\<forall>f \<in> set (wire l). okv2 f)"

definition accounted :: "('s, 'f, 't, 'a) lane \<Rightarrow> bool" where
  "accounted l \<longleftrightarrow> row_ok (view1 (sender l)) \<and> row_ok (view2 (receiver l)) \<and>
     subseq (in_flight l) (accepted l) \<and> mset (in_flight l) + mset (lost l) = mset (accepted l)"

text \<open>No pass fails, and a pass of a lane that was paced and accounted for keeps it so.\<close>

definition goes_on :: "('s, 'f, 't, 'a) lane \<Rightarrow> ('s, 'f, 't, 'a) lane \<Rightarrow> bool" where
  "goes_on l l' \<longleftrightarrow> lane_ok l' \<and> (paced l' \<longrightarrow> paced l) \<and> (paced l' \<and> accounted l \<longrightarrow> accounted l')"

lemma read_step:
  assumes "lane_ok l" and "okv1 x"
  shows "\<exists>l'. step (Read x) l = Some l' \<and> goes_on l l'"
proof -
  let ?m = "view1 (sender l)"
  obtain s where s: "offer1 x (sender l) = Some (\<not> refuses ?m, s)" "inv1 s" "view1 s = snd (row_put x ?m)"
    using up.offer_law [of "sender l" x] assms by (auto simp: lane_ok_def)
  define l' where "l' = l\<lparr>sender := s, accepted := accepted l @ (if \<not> refuses ?m then [x] else []),
      lost := lost l @ (if at_last ?m then [x] else []), paced := (paced l \<and> in_step ?m)\<rparr>"
  have "step (Read x) l = Some l'" using s(1) by (simp add: l'_def)
  moreover have "lane_ok l'"
    using assms s slot_put [of x ?m] by (auto simp: lane_ok_def l'_def)
  moreover have "accounted l'" if "paced l'" "accounted l"
  proof -
    have m: "row_ok ?m" "in_step ?m" using that by (simp_all add: l'_def accounted_def)
    note put = row_put_paced [OF m, of x]
    have "in_flight l' = in_flight l @ (if refuses ?m \<or> at_last ?m then [] else [x])"
      by (simp add: in_flight_def l'_def s(3) put(2))
    moreover have "at_last ?m \<Longrightarrow> \<not> refuses ?m" by (simp add: at_last_def)
    moreover have sel: "accepted l' = accepted l @ (if \<not> refuses ?m then [x] else [])" "view1 (sender l') = snd (row_put x ?m)"
      "lost l' = lost l @ (if at_last ?m then [x] else [])" "receiver l' = receiver l" by (simp_all add: l'_def s(3))
    ultimately show ?thesis using that(2) put(1)
      by (cases "refuses ?m"; cases "at_last ?m") (auto simp: accounted_def sel intro: list_emb_prefix list_emb_append_mono)
  qed
  ultimately show ?thesis by (auto simp: goes_on_def l'_def)
qed

lemma transmit_step:
  assumes "lane_ok l"
  shows "\<exists>l'. step Transmit l = Some l' \<and> goes_on l l'"
proof -
  let ?m = "view1 (sender l)"
  obtain f s where s: "take1 (sender l) = Some (f, s)" "rel_option carries1 f (fst (row_get ?m))" "inv1 s"
    "view1 s = snd (row_get ?m)" using up.take_law [of "sender l"] assms by (auto simp: lane_ok_def)
  define l' where "l' = l\<lparr>sender := s, wire := wire l @ (case f of None \<Rightarrow> [] | Some f \<Rightarrow> [f])\<rparr>"
  have f: "okv2 b \<and> fst (row_get ?m) = Some (unwrap b)" if fb: "f = Some b" for b
  proof -
    obtain x where x: "fst (row_get ?m) = Some x" "carries1 b x" using s(2) fb by (cases "fst (row_get ?m)") auto
    then have "okv1 x" using slot_get(2) [of ?m x] assms by (auto simp: lane_ok_def)
    with x passes show ?thesis by auto
  qed
  have none: "fst (row_get ?m) = None" if "f = None" using s(2) that by simp
  have "step Transmit l = Some l'" using s(1) by (simp add: l'_def)
  moreover have "\<forall>j x. slot (view1 s) j = Some x \<longrightarrow> okv1 x"
    using slot_get(1) [of ?m] assms by (simp add: s(4) lane_ok_def) blast
  then have "lane_ok l'" using assms s(3) f by (auto simp: lane_ok_def l'_def split: option.splits)
  moreover have "accounted l'" if "accounted l"
  proof -
    have "row_ok ?m" using that by (simp add: accounted_def)
    from row_get_ok [OF this] have "in_flight l' = in_flight l" "row_ok (view1 s)"
      using f none by (cases f; simp add: in_flight_def l'_def s(4))+
    then show ?thesis using that by (simp add: accounted_def l'_def)
  qed
  ultimately show ?thesis by (auto simp: goes_on_def l'_def)
qed

lemma receive_step:
  assumes "lane_ok l"
  shows "\<exists>l'. step Receive l = Some l' \<and> goes_on l l'"
proof (cases "wire l")
  case Nil
  then show ?thesis using assms by (simp add: goes_on_def)
next
  case (Cons f fs)
  let ?m = "view2 (receiver l)"
  obtain t where t: "offer2 f (receiver l) = Some (\<not> refuses ?m, t)" "inv2 t" "view2 t = snd (row_put f ?m)"
    using down.offer_law [of "receiver l" f] assms Cons by (auto simp: lane_ok_def)
  define l' where "l' = l\<lparr>receiver := t, wire := (if \<not> refuses ?m then fs else f # fs),
      lost := lost l @ (if at_last ?m then [unwrap f] else []), paced := (paced l \<and> in_step ?m)\<rparr>"
  have "step Receive l = Some l'" using t(1) Cons by (simp add: l'_def)
  moreover have "lane_ok l'" using assms t Cons by (auto simp: lane_ok_def l'_def)
  moreover have "accounted l'" if "paced l'" "accounted l"
  proof -
    have m: "row_ok ?m" "in_step ?m" using that by (simp_all add: l'_def accounted_def)
    note put = row_put_paced [OF m, of f]
    let ?pre = "written l @ map unwrap (row_waiting ?m)" and ?post = "map unwrap fs @ row_waiting (view1 (sender l))"
    have old: "in_flight l = ?pre @ unwrap f # ?post" by (simp add: in_flight_def Cons)
    have new: "in_flight l' = (if at_last ?m then ?pre @ ?post else in_flight l)"
      using put(2) by (auto simp: in_flight_def l'_def t(3) Cons at_last_def)
    have "subseq (?pre @ ?post) (in_flight l)" unfolding old by (intro list_emb_append_mono) auto
    then have "subseq (in_flight l') (accepted l)"
      using that(2) by (auto simp: new accounted_def intro: subseq_order.order_trans)
    moreover have "lost l' = lost l @ (if at_last ?m then [unwrap f] else [])" by (simp add: l'_def)
    then have "mset (in_flight l') + mset (lost l') = mset (accepted l)"
      using that(2) by (auto simp: new accounted_def old)
    ultimately show ?thesis using that(2) put(1) by (simp add: accounted_def t(3)) (simp add: l'_def t(3))
  qed
  ultimately show ?thesis by (auto simp: goes_on_def l'_def)
qed

lemma write_step:
  assumes "lane_ok l"
  shows "\<exists>l'. step Write l = Some l' \<and> goes_on l l'"
proof -
  let ?m = "view2 (receiver l)"
  obtain y t where t: "take2 (receiver l) = Some (y, t)" "rel_option carries2 y (fst (row_get ?m))" "inv2 t"
    "view2 t = snd (row_get ?m)" using down.take_law [of "receiver l"] assms by (auto simp: lane_ok_def)
  define l' where "l' = l\<lparr>receiver := t, written := written l @ (case y of None \<Rightarrow> [] | Some y \<Rightarrow> [y])\<rparr>"
  have "step Write l = Some l'" using t(1) by (simp add: l'_def)
  moreover have "lane_ok l'" using assms t by (auto simp: lane_ok_def l'_def)
  moreover have "accounted l'" if "accounted l"
  proof -
    have "row_ok ?m" using that by (simp add: accounted_def)
    from row_get_ok [OF this] have "in_flight l' = in_flight l" "row_ok (view2 t)"
      using t(2) unwraps by (cases y; cases "fst (row_get ?m)"; simp add: in_flight_def l'_def t(4))+
    then show ?thesis using that by (simp add: accounted_def l'_def)
  qed
  ultimately show ?thesis by (auto simp: goes_on_def l'_def)
qed

lemma lane_runs:
  assumes "lane_ok l" and "\<forall>x \<in> set (to_read ops). okv1 x"
  shows "\<exists>l'. run_all step ops l = Some l' \<and> goes_on l l'"
  using assms
proof (induction ops arbitrary: l)
  case Nil
  then show ?case by (simp add: goes_on_def)
next
  case (Cons op ops)
  have "\<exists>l1. step op l = Some l1 \<and> goes_on l l1"
    using read_step transmit_step receive_step write_step Cons.prems by (cases op) auto
  then obtain l1 where l1: "step op l = Some l1" "goes_on l l1" by blast
  moreover have "\<forall>x \<in> set (to_read ops). okv1 x" using Cons.prems(2) by (cases op) auto
  ultimately obtain l2 where "run_all step ops l1 = Some l2" "goes_on l1 l2"
    using Cons.IH [of l1] by (auto simp: goes_on_def)
  with l1 show ?case by (auto simp: goes_on_def)
qed

end

section \<open>The tunnel\<close>

interpretation tunnel_laps: slot_link
  tx_offer tx_get "\<lambda>q. tx_still cap hdr q \<and> sends_as hdr peer" "row 0" "fits cap"
  "\<lambda>f p. encapsulates hdr f p \<and> sends_as hdr peer"
  "rx_offer peer" rx_get "still (cap + spare)" "row 34" "from_peer (cap + spare) peer"
  "\<lambda>p f. p = drop 34 f" "drop 34"
  for cap hdr peer spare
proof (unfold_locales)
  fix q p
  show "tx_still cap hdr q \<and> sends_as hdr peer \<Longrightarrow> fits cap p \<Longrightarrow>
      \<exists>q'. tx_offer p q = Some (\<not> refuses (row 0 q), q') \<and> (tx_still cap hdr q' \<and> sends_as hdr peer) \<and>
        row 0 q' = snd (row_put p (row 0 q))"
    using tx_laps.offer_law by blast
  show "\<exists>f q'. tx_get q = Some (f, q') \<and>
      rel_option (\<lambda>f p. encapsulates hdr f p \<and> sends_as hdr peer) f (fst (row_get (row 0 q))) \<and>
      (tx_still cap hdr q' \<and> sends_as hdr peer) \<and> row 0 q' = snd (row_get (row 0 q))"
    if ok: "tx_still cap hdr q \<and> sends_as hdr peer"
  proof -
    obtain f q' where q': "tx_get q = Some (f, q')" "rel_option (encapsulates hdr) f (fst (row_get (row 0 q)))"
      "tx_still cap hdr q'" "row 0 q' = snd (row_get (row 0 q))" using tx_laps.take_law ok by blast
    have "rel_option (\<lambda>f p. encapsulates hdr f p \<and> sends_as hdr peer) f (fst (row_get (row 0 q)))"
      by (rule option.rel_mono_strong [OF q'(2)]) (simp add: ok)
    with q' ok show ?thesis by blast
  qed
next
  fix p f
  show "fits cap p \<Longrightarrow> encapsulates hdr f p \<and> sends_as hdr peer \<Longrightarrow>
      from_peer (cap + spare) peer f \<and> drop 34 f = p"
    using encapsulated_from_peer [of cap p hdr f peer "cap + spare"] by (simp add: encapsulates_def)
qed

definition tunnel_step :: "u32 \<Rightarrow> u8 list lane_op \<Rightarrow> (Q, u8 list, Q, u8 list) lane \<Rightarrow> (Q, u8 list, Q, u8 list) lane option" where
  "tunnel_step ip = lane_step tx_offer tx_get (rx_offer ip) rx_get (row 0) (row 34) (drop 34)"

definition new_lane :: "Q \<Rightarrow> Q \<Rightarrow> (Q, u8 list, Q, u8 list) lane" where
  "new_lane q r = \<lparr>sender = q, wire = [], receiver = r, written = [], accepted = [], lost = [], paced = True\<rparr>"

text \<open>What was written, and what is on its way, in order.\<close>

definition carried_so_far :: "(Q, u8 list, Q, u8 list) lane \<Rightarrow> u8 list list" where
  "carried_so_far l = written l @ map (drop 34) (row_waiting (row 34 (receiver l)) @ wire l) @ row_waiting (row 0 (sender l))"

lemma blank_lane:
  assumes "blank q" and "tx_inv cap hdr q" and "sends_as hdr ip" and "blank r" and "quiet (cap + spare) r"
  shows "tunnel_laps.lane_ok cap hdr ip spare (new_lane q r)" and "tunnel_laps.accounted (new_lane q r)"
proof -
  have quiet: "quiet cap q" using assms(2) by (simp add: tx_inv_def)
  have rows: "row 0 q = blank_row (unat (rsz q))" "row 34 r = blank_row (unat (rsz r))"
    by (rule blank_ring(1) [OF assms(1) quiet], rule blank_ring(1) [OF assms(4,5)])
  have "1 < unat (rsz q)" "1 < unat (rsz r)"
    using ring_wfD(2) quietD(1) [OF quiet] quietD(1) [OF assms(5)] by blast+
  then have ok: "row_ok (row 0 q) \<and> row_waiting (row 0 q) = []" "row_ok (row 34 r) \<and> row_waiting (row 34 r) = []"
    by (simp_all add: rows blank_row_ok)
  show "tunnel_laps.lane_ok cap hdr ip spare (new_lane q r)"
    unfolding tunnel_laps.lane_ok_def using blank_sender [OF assms(1,2)] assms(3) blank_ring(2) [OF assms(4,5)]
    by (simp add: new_lane_def rows) (simp add: blank_row_def)
  show "tunnel_laps.accounted (new_lane q r)"
    unfolding tunnel_laps.accounted_def tunnel_laps.in_flight_def using ok by (simp add: new_lane_def)
qed

lemma tunnel_runs:
  assumes "blank q" and "tx_inv cap hdr q" and "sends_as hdr ip" and "blank r" and "quiet (cap + spare) r"
    and "\<forall>p \<in> set (to_read ops). fits cap p"
  shows "\<exists>l. run_all (tunnel_step ip) ops (new_lane q r) = Some l \<and>
    (paced l \<longrightarrow> subseq (carried_so_far l) (accepted l) \<and> mset (carried_so_far l) + mset (lost l) = mset (accepted l))"
proof -
  note b = blank_lane [OF assms(1-5)]
  from tunnel_laps.lane_runs [OF b(1) assms(6)] b(2) show ?thesis
    by (auto simp: tunnel_laps.goes_on_def tunnel_laps.accounted_def tunnel_laps.in_flight_def carried_so_far_def
        tunnel_step_def)
qed

section \<open>Properties\<close>

text \<open>
  C4: a tunnel over any number of laps: from two fresh rings, under every schedule of \<^verbatim>\<open>tx_io\<close>, \<^verbatim>\<open>tx\<close>,
  \<^verbatim>\<open>rx_io\<close> and \<^verbatim>\<open>rx\<close> passes, no pass fails, and as long as the workers keep up, the payloads written
  to the other tap device, followed by those on their way, are a subsequence of those read: none is
  doubled, changed or overtaken, and the only ones missing are those that came to lie in the last
  slot of a ring.
\<close>

theorem tunnel_over_laps:
  assumes "blank q" and "tx_inv cap hdr q" and "sends_as hdr ip" and "blank r" and "quiet (cap + spare) r"
    and "\<forall>p \<in> set (to_read ops). fits cap p"
  shows "\<exists>l. run_all (tunnel_step ip) ops (new_lane q r) = Some l \<and>
    (paced l \<longrightarrow> subseq (carried_so_far l) (accepted l) \<and> mset (carried_so_far l) + mset (lost l) = mset (accepted l))"
  by (rule tunnel_runs [OF assms])

theorem tunnel_over_laps_witness:
  "\<exists>q r l. run_all (tunnel_step 0x0100000a) [Read (replicate 15 1), Transmit, Receive, Write] (new_lane q r) = Some l \<and>
    subseq (carried_so_far l) (accepted l) \<and> mset (carried_so_far l) + mset (lost l) = mset (accepted l)"
proof -
  let ?ops = "[Read (replicate 15 1), Transmit, Receive, Write] :: u8 list lane_op list"
  obtain q where q: "blank q" "tx_inv 15 sample_headers q" "quiet 15 q" "\<And>h. row h q = blank_row 3"
    using sample_blank by metis
  have "in_step (row h q)" for h by (simp add: in_step_def at_last_def q(4)) (simp add: blank_row_def)
  then have paced: "paced l" if "run_all (tunnel_step 0x0100000a) ?ops (new_lane q q) = Some l" for l
    using that by (auto simp: tunnel_step_def new_lane_def Option.bind_eq_Some_conv split: list.splits option.splits)
  have "\<forall>p \<in> set (to_read ?ops). fits 15 p" by (simp add: fits_def)
  from tunnel_over_laps [OF q(1,2) sample_sends_as q(1) _ this, of 0] q(3) paced show ?thesis by auto
qed

end
