(* ===== verification/Threads.thy ===== *)
theory Threads
  imports Sessions
begin

text \<open>
  The traffic threads of \<^verbatim>\<open>workers.c\<close> from their start to their end: what they set up, their loop
  while \<open>run\<close> is 1, the wait of a worker for data, and what an IO thread frees. Each thread is
  followed alone, a pass of its loop as one step; what the others do to its session between the
  passes is a parameter. The counter \<open>running\<close>, which nothing reads, is left out.
\<close>

section \<open>Around a thread\<close>

text \<open>
  At time \<open>t\<close> the thread tests \<open>run\<close>, and finds that the other threads have changed the session
  since it last looked.
\<close>

record 'h outside =
  run_at :: "nat \<Rightarrow> int"
  meanwhile :: "nat \<Rightarrow> 'h \<Rightarrow> 'h"

text \<open>What is freed at the end: the descriptors of a ring, the array of rings, the session.\<close>

datatype freed = Descriptors nat | Rings | Session

definition free_session :: "Q list \<Rightarrow> freed list res" where
  "free_session qs = (if qs = [] then Inl (Fault OutOfBounds) else Inr [Descriptors 0, Rings, Session])"

definition free_tx :: "txq \<Rightarrow> freed list res" where "free_tx h = free_session (tx_q h)"
definition free_rx :: "rxq \<Rightarrow> freed list res" where "free_rx h = free_session (rx_q h)"

text \<open>What a thread prints when it starts: its number if it is a worker, and its session.\<close>

definition TAP :: int where "TAP = 95"
definition UNIXSOCKET :: int where "UNIXSOCKET = 100"
definition IFMAP :: int where "IFMAP = 120"

definition type_name :: "int \<Rightarrow> string" where
  "type_name n =
     (if n = TUN then ''TUN'' else if n = TAP then ''TAP'' else if n = UNIXSOCKET then ''UNIX-SOCKET''
      else if n = PIPE then ''NAMED-PIPE'' else if n = IFMAP then ''INTERFACE-TO-INTERFACE MAP''
      else ''UNKNOWN'')"

record online =
  on_worker :: "nat option"
  on_type :: string
  on_tifname :: string
  on_ifname :: string
  on_fd :: int
  on_af :: int
  on_mtu :: int

definition tx_online :: "nat option \<Rightarrow> txq \<Rightarrow> online" where
  "tx_online i h = \<lparr>on_worker = i, on_type = type_name (tx_type h), on_tifname = tx_tifname h,
     on_ifname = tx_ifname h, on_fd = tx_fd h, on_af = tx_af h, on_mtu = tx_mtu h\<rparr>"

definition rx_online :: "nat option \<Rightarrow> rxq \<Rightarrow> online" where
  "rx_online i h = \<lparr>on_worker = i, on_type = type_name (rx_type h), on_tifname = rx_tifname h,
     on_ifname = rx_ifname h, on_fd = rx_fd h, on_af = rx_af h, on_mtu = rx_mtu h\<rparr>"

section \<open>IO threads\<close>

partial_function (option) io_loop ::
  "'h outside \<Rightarrow> (u32 \<Rightarrow> poll_event list \<Rightarrow> 'h \<Rightarrow> (u32 \<times> poll_event list \<times> 'h) may_loop) \<Rightarrow>
     nat \<Rightarrow> u32 \<Rightarrow> poll_event list \<Rightarrow> 'h \<Rightarrow> 'h may_loop" where
  "io_loop out iter t i evs h =
     (if run_at out t \<noteq> 1 then done_with h
      else case iter i evs (meanwhile out t h) of
        None \<Rightarrow> None
      | Some (Inl er) \<Rightarrow> Some (Inl er)
      | Some (Inr (i', evs', h')) \<Rightarrow> io_loop out iter (t + 1) i' evs' h')"

text \<open>\<^verbatim>\<open>tx_io\<close>: it attaches to its queue of the device first.\<close>

definition tx_io :: "'w kernel \<Rightarrow> txq outside \<Rightarrow> poll_event list \<Rightarrow> txq \<Rightarrow> 'w \<Rightarrow>
    (online \<times> freed list \<times> 'w) may_loop" where
  "tx_io k out evs h w =
     (let (_, w1) = tun_set_queue k (tx_fd h) 1 w in
      and_then (io_loop out tx_io_iter 0 0 evs h) (\<lambda>h1.
      case free_tx h1 of Inl er \<Rightarrow> Some (Inl er) | Inr fs \<Rightarrow> done_with (tx_online None h, fs, w1)))"

definition rx_io :: "rxq outside \<Rightarrow> poll_event list \<Rightarrow> rxq \<Rightarrow> (online \<times> freed list) may_loop" where
  "rx_io out evs h =
     and_then (io_loop out rx_io_iter 0 0 evs h) (\<lambda>h1.
     case free_rx h1 of Inl er \<Rightarrow> Some (Inl er) | Inr fs \<Rightarrow> done_with (rx_online None h, fs))"

section \<open>Workers\<close>

text \<open>
  The wait for data: the size of the ring is looked at again and again, and nothing else is. It
  gives the time at which the size was found changed.
\<close>

partial_function (option) size_wait :: "'h outside \<Rightarrow> ('h \<Rightarrow> u32) \<Rightarrow> nat \<Rightarrow> 'h \<Rightarrow> (nat \<times> 'h) option" where
  "size_wait out held t h =
     (let h1 = meanwhile out t h in if held h1 = 0 then size_wait out held (t + 1) h1 else Some (t + 1, h1))"

text \<open>The loop of a worker, with the frames it has passed on.\<close>

partial_function (option) worker_loop ::
  "'h outside \<Rightarrow> (nat \<Rightarrow> 'h \<Rightarrow> (pass \<times> u8 list option \<times> 'h) may_loop) \<Rightarrow> ('h \<Rightarrow> u32) \<Rightarrow>
     nat \<Rightarrow> 'h \<Rightarrow> u8 list list \<Rightarrow> (u8 list list \<times> 'h) may_loop" where
  "worker_loop out iter held t h acc =
     (if run_at out t \<noteq> 1 then done_with (acc, h)
      else case iter t (meanwhile out t h) of
        None \<Rightarrow> None
      | Some (Inl er) \<Rightarrow> Some (Inl er)
      | Some (Inr (p, f, h1)) \<Rightarrow>
          (let acc1 = acc @ (case f of None \<Rightarrow> [] | Some bs \<Rightarrow> [bs]) in
           case p of
             Again \<Rightarrow> worker_loop out iter held (t + 1) h1 acc1
           | SizeWait \<Rightarrow> (case size_wait out held (t + 1) h1 of
               None \<Rightarrow> None
             | Some (t2, h2) \<Rightarrow> worker_loop out iter held t2 h2 acc1)))"

text \<open>
  \<^verbatim>\<open>tx\<close> and \<^verbatim>\<open>rx\<close>: a worker takes its ring and its cpu, then serves the ring; \<open>ret\<close> is what \<^verbatim>\<open>sendto\<close>
  or \<^verbatim>\<open>write\<close> answers at each time. The results are what it prints, the cpu it is pinned to, what is left of
  the counter, and the loop's.
\<close>

definition tx ::
  "txq outside \<Rightarrow> (nat \<Rightarrow> int) \<Rightarrow> i32 \<Rightarrow> txq \<Rightarrow>
     (online \<times> u32 option \<times> i32 \<times> u8 list list \<times> txq) may_loop" where
  "tx out ret cpu h =
     (case worker_start h of
        Inl er \<Rightarrow> Some (Inl er)
      | Inr (k, h1) \<Rightarrow>
          (let (pin, cpu1) = tx_pin cpu in
           and_then (worker_loop out (\<lambda>t. tx_iter k (ret t)) (\<lambda>h. sz (tx_q h ! k)) 0 h1 []) (\<lambda>(fs, h2).
           done_with (tx_online (Some k) h1, pin, cpu1, fs, h2))))"

definition rx ::
  "'w kernel \<Rightarrow> rxq outside \<Rightarrow> (nat \<Rightarrow> int) \<Rightarrow> i32 \<Rightarrow> rxq \<Rightarrow> 'w \<Rightarrow>
     (online \<times> u32 option \<times> i32 \<times> u8 list list \<times> rxq \<times> 'w) may_loop" where
  "rx k out ret cpu h w =
     (let (pin, cpu1) = rx_pin cpu in
      case rx_worker_start h of
        Inl er \<Rightarrow> Some (Inl er)
      | Inr (i, h1) \<Rightarrow>
          (let (_, w1) = tun_set_queue k (rx_fd h1) 1 w in
           and_then (worker_loop out (\<lambda>t. rx_iter i (ret t)) (\<lambda>h. sz (rx_q h ! i)) 0 h1 []) (\<lambda>(fs, h2).
           done_with (rx_online (Some i) h1, pin, cpu1, fs, h2, w1))))"

section \<open>Lemmas\<close>

text \<open>What the other threads never change: the number of rings and what the session says of it.\<close>

definition keeps_rings :: "('h \<Rightarrow> int) \<Rightarrow> ('h \<Rightarrow> Q list) \<Rightarrow> 'h outside \<Rightarrow> bool" where
  "keeps_rings n qs out \<longleftrightarrow> (\<forall>t h. n (meanwhile out t h) = n h \<and> length (qs (meanwhile out t h)) = length (qs h))"

lemma tx_io_iter_rings:
  "tx_io_iter i evs h = done_with (i', evs', h') \<Longrightarrow>
     i' = next_queue i (tx_qnum h) \<and> unat i' < length (tx_q h) \<and> tx_qnum h' = tx_qnum h \<and> length (tx_q h') = length (tx_q h)"
  by (auto simp: tx_io_iter_def Let_def tx_count_in_def split: if_splits option.splits sum.splits prod.splits)

lemma rx_io_iter_rings:
  "rx_io_iter i evs h = done_with (i', evs', h') \<Longrightarrow>
     i' = next_queue i (rx_qnum h) \<and> unat i < length (rx_q h) \<and> rx_qnum h' = rx_qnum h \<and> length (rx_q h') = length (rx_q h)"
  by (auto simp: rx_io_iter_def Let_def split: if_splits option.splits sum.splits prod.splits)

text \<open>A loop that returns was told to before its index reached the number of rings.\<close>

lemma io_loop_told:
  assumes "io_loop out iter t i evs h = done_with r"
    and "\<And>i evs h i' evs' h'. iter i evs h = done_with (i', evs', h') \<Longrightarrow> Inv h \<Longrightarrow> Inv h' \<and> P i h \<and> i' = nextq i"
    and "\<And>t h. Inv h \<Longrightarrow> Inv (meanwhile out t h)" and "Inv h"
    and "\<And>h. Inv h \<Longrightarrow> \<not> P ((nextq ^^ n) i) h"
  shows "\<exists>u. t \<le> u \<and> u \<le> t + n \<and> run_at out u \<noteq> 1"
  using assms(1,4,5)
proof (induction n arbitrary: t i evs h)
  case 0
  have "run_at out t \<noteq> 1"
  proof
    assume "run_at out t = 1"
    with 0(1) obtain x where "iter i evs (meanwhile out t h) = done_with x"
      by (subst (asm) io_loop.simps) (auto split: option.splits sum.splits)
    then show False using assms(2) assms(3) 0(2,3) by (cases x) fastforce
  qed
  then show ?case by auto
next
  case (Suc n)
  show ?case
  proof (cases "run_at out t = 1")
    case True
    with Suc.prems(1) obtain i' evs' h' where x: "iter i evs (meanwhile out t h) = done_with (i', evs', h')"
      and rest: "io_loop out iter (t + 1) i' evs' h' = done_with r"
      by (subst (asm) io_loop.simps) (auto split: option.splits sum.splits)
    have h': "Inv h'" "i' = nextq i" using assms(2) [OF x] assms(3) Suc.prems(2) by blast+
    have "\<not> P ((nextq ^^ n) i') x" if "Inv x" for x
      using Suc.prems(3) [OF that] h'(2) by (simp add: funpow_swap1)
    from Suc.IH [OF rest h'(1) this] obtain u where "t + 1 \<le> u" "u \<le> t + 1 + n" "run_at out u \<noteq> 1" by blast
    then show ?thesis by (intro exI [of _ u]) simp
  qed auto
qed

lemma next_queue_iter:
  assumes "n \<le> m" and "m < 2 ^ 31"
  shows "((\<lambda>i. next_queue i (int m)) ^^ n) 0 = of_nat n"
  using assms(1)
proof (induction n)
  case (Suc n)
  have "unat (of_nat n :: u32) = n" "unat (of_nat m :: u32) = m" using Suc.prems assms(2) by (simp_all add: unat_of_nat_u32)
  then have "(of_nat n :: u32) < of_nat m" using Suc.prems by (simp add: word_less_nat_alt)
  with Suc show ?case by (simp add: next_queue_def add.commute)
qed simp

lemma size_wait_asleep:
  assumes "\<forall>u \<ge> t. \<forall>h. meanwhile out u h = h" and "held h = 0"
  shows "size_wait out held t h = None"
proof (rule ccontr)
  assume "size_wait out held t h \<noteq> None"
  then obtain r where "size_wait out held t h = Some r" by blast
  then show False
    using assms
  proof (induction rule: size_wait.raw_induct [rotated, consumes 1])
    case (1 f out held t h r)
    then have "f out held (t + 1) h = Some r" by (simp add: Let_def)
    moreover have "\<forall>u \<ge> t + 1. \<forall>h. meanwhile out u h = h" using 1(3) by simp
    ultimately show ?case using 1(1,4) by blast
  qed
qed

lemma next_interval_sz [simp]: "sz (next_interval q) = sz q"
  by (simp add: next_interval_def)

text \<open>A pass over an empty ring that is not locked sends the worker to wait.\<close>

lemma tx_iter_empty:
  assumes "k < length (tx_q h)" and "qlock (tx_q h ! k) = 0" and "sz (tx_q h ! k) = 0"
  shows "\<exists>h'. tx_iter k ret h = done_with (SizeWait, None, h') \<and> sz (tx_q h' ! k) = 0"
proof -
  let ?q = "tx_q h ! k"
  have "pop ?q = Some (Inr (NULL, if full ?q \<noteq> 0 then reset_ring (?q\<lparr>sz := 0\<rparr>) else ?q\<lparr>sz := 0\<rparr>))"
    by (rule pop_empty) (use assms in simp_all)
  then have "tx_queue ?q = done_with (SizeWait, None, next_interval (if full ?q \<noteq> 0 then reset_ring (?q\<lparr>sz := 0\<rparr>) else ?q\<lparr>sz := 0\<rparr>))"
    by (simp add: tx_queue_def reset_ring_def)
  then show ?thesis using assms(1) by (simp add: tx_iter_def Let_def reset_ring_def)
qed

lemma rx_iter_empty:
  assumes "k < length (rx_q h)" and "qlock (rx_q h ! k) = 0" and "sz (rx_q h ! k) = 0"
  shows "\<exists>h'. rx_iter k ret h = done_with (SizeWait, None, h') \<and> sz (rx_q h' ! k) = 0"
proof -
  let ?q = "rx_q h ! k"
  have "pop ?q = Some (Inr (NULL, if full ?q \<noteq> 0 then reset_ring (?q\<lparr>sz := 0\<rparr>) else ?q\<lparr>sz := 0\<rparr>))"
    by (rule pop_empty) (use assms in simp_all)
  then have "rx_queue ?q = done_with (SizeWait, None, next_interval (if full ?q \<noteq> 0 then reset_ring (?q\<lparr>sz := 0\<rparr>) else ?q\<lparr>sz := 0\<rparr>))"
    by (simp add: rx_queue_def reset_ring_def word_less_nat_alt)
  then show ?thesis using assms(1) by (simp add: rx_iter_def Let_def reset_ring_def)
qed

section \<open>A worker and its feeder\<close>

text \<open>What is stored while the worker does something else.\<close>

fun stored :: "('a \<Rightarrow> 's \<Rightarrow> 's option) \<Rightarrow> 'a list \<Rightarrow> 's \<Rightarrow> 's" where
  "stored enq [] q = q"
| "stored enq (x # xs) q = (case enq x q of None \<Rightarrow> q | Some q1 \<Rightarrow> stored enq xs q1)"

text \<open>The others store \<open>arr t\<close> into ring \<open>k\<close> at time \<open>t\<close>; what they do to the rest is open.\<close>

definition feeds ::
  "('a \<Rightarrow> Q \<Rightarrow> Q option) \<Rightarrow> ('h \<Rightarrow> Q list) \<Rightarrow> nat \<Rightarrow> (nat \<Rightarrow> 'a list) \<Rightarrow> 'h outside \<Rightarrow> bool" where
  "feeds enq rings k arr out \<longleftrightarrow> (\<forall>t h. k < length (rings h) \<longrightarrow>
     length (rings (meanwhile out t h)) = length (rings h) \<and>
     rings (meanwhile out t h) ! k = stored enq (arr t) (rings h ! k))"

text \<open>
  The contract of a worker: its ring is a queue; one pass takes the first element and goes on, or
  finds the ring empty and waits; the size is 0 exactly when the ring is empty.
\<close>

locale ring_worker = bounded_fifo enq deq inv contents room okv carries
  for enq :: "'a \<Rightarrow> Q \<Rightarrow> Q option" and deq :: "Q \<Rightarrow> (u8 list option \<times> Q) option"
    and inv :: "Q \<Rightarrow> bool" and contents :: "Q \<Rightarrow> 'a list" and room :: "Q \<Rightarrow> nat"
    and okv :: "'a \<Rightarrow> bool" and carries :: "u8 list \<Rightarrow> 'a \<Rightarrow> bool" +
  fixes rings :: "'h \<Rightarrow> Q list" and k :: nat
    and iter :: "nat \<Rightarrow> 'h \<Rightarrow> (pass \<times> u8 list option \<times> 'h) may_loop"
  assumes pass_law: "inv (rings h ! k) \<Longrightarrow> k < length (rings h) \<Longrightarrow> deq (rings h ! k) = Some (f, q) \<Longrightarrow> inv q \<Longrightarrow>
      \<exists>h'. iter t h = done_with (if f = None then SizeWait else Again, f, h') \<and>
           rings h' = (rings h)[k := q]"
    and held_law: "inv q \<Longrightarrow> sz q = 0 \<longleftrightarrow> contents q = []"
begin

text \<open>The ring is in order and has room for all that will arrive.\<close>

definition ready :: "(nat \<Rightarrow> 'a list) \<Rightarrow> nat \<Rightarrow> 'h \<Rightarrow> bool" where
  "ready arr t h \<longleftrightarrow> k < length (rings h) \<and> inv (rings h ! k) \<and> (\<forall>u. \<forall>x \<in> set (arr u). okv x) \<and>
     (\<forall>n. length (concat (map arr [t..<n])) \<le> room (rings h ! k))"

lemma stored_law:
  assumes "inv q" and "\<forall>x \<in> set xs. okv x" and "length xs \<le> room q"
  shows "inv (stored enq xs q) \<and> contents (stored enq xs q) = contents q @ xs \<and>
    room q \<le> length xs + room (stored enq xs q)"
  using assms
proof (induction xs arbitrary: q)
  case (Cons x xs)
  obtain q1 where "enq x q = Some q1" "inv q1" "contents q1 = contents q @ [x]" "room q \<le> Suc (room q1)"
    using enq_law [of q x] Cons.prems by auto
  with Cons.IH [of q1] Cons.prems show ?case by simp
qed simp

lemma fed:
  assumes "feeds enq rings k arr out" and "ready arr t h"
  shows "ready arr (Suc t) (meanwhile out t h)"
    and "contents (rings (meanwhile out t h) ! k) = contents (rings h ! k) @ arr t"
proof -
  have at: "length (concat (map arr [t..<n])) \<le> room (rings h ! k)" for n
    using assms(2) by (simp add: ready_def)
  have ok: "\<forall>x \<in> set (arr t). okv x" using assms(2) by (simp add: ready_def)
  have env: "length (rings (meanwhile out t h)) = length (rings h)"
    "rings (meanwhile out t h) ! k = stored enq (arr t) (rings h ! k)"
    using assms by (simp_all add: feeds_def ready_def)
  have "length (arr t) \<le> room (rings h ! k)" using at [of "Suc t"] by simp
  then have law: "inv (stored enq (arr t) (rings h ! k))"
    "contents (stored enq (arr t) (rings h ! k)) = contents (rings h ! k) @ arr t"
    "room (rings h ! k) \<le> length (arr t) + room (stored enq (arr t) (rings h ! k))"
    using stored_law [OF _ ok, of "rings h ! k"] assms(2) by (simp_all add: ready_def)
  have "length (concat (map arr [Suc t..<n])) \<le> room (stored enq (arr t) (rings h ! k))" for n
  proof (cases "t < n")
    case True
    then show ?thesis using at [of n] law(3) by (simp add: upt_conv_Cons)
  qed simp
  with assms(2) env law(1) show "ready arr (Suc t) (meanwhile out t h)" unfolding ready_def by metis
  show "contents (rings (meanwhile out t h) ! k) = contents (rings h ! k) @ arr t" unfolding env(2) by (rule law(2))
qed

lemma passed:
  assumes "ready arr t h" and "contents (rings h ! k) = x # xs"
  shows "\<exists>f h'. iter u h = done_with (Again, Some f, h') \<and> carries f x \<and> ready arr t h' \<and> contents (rings h' ! k) = xs"
proof -
  have at: "inv (rings h ! k)" "k < length (rings h)" using assms(1) by (simp_all add: ready_def)
  obtain f q where q: "deq (rings h ! k) = Some (Some f, q)" "carries f x" "inv q" "contents q = xs"
    "room (rings h ! k) \<le> room q" using deq_law [OF at(1) assms(2)] by blast
  obtain h' where "iter u h = done_with (Again, Some f, h')" "rings h' = (rings h)[k := q]"
    using pass_law [OF at q(1,3), of u] by auto
  then show ?thesis using q assms(1) by (auto simp: ready_def intro: le_trans)
qed

lemma passed_empty:
  assumes "ready arr t h" and "contents (rings h ! k) = []"
  shows "\<exists>h'. iter u h = done_with (SizeWait, None, h') \<and> ready arr t h' \<and> contents (rings h' ! k) = []"
proof -
  have at: "inv (rings h ! k)" "k < length (rings h)" using assms(1) by (simp_all add: ready_def)
  obtain q where q: "deq (rings h ! k) = Some (None, q)" "inv q" "contents q = []" "room (rings h ! k) \<le> room q"
    using deq_empty_law [OF at(1) assms(2)] by blast
  obtain h' where "iter u h = done_with (SizeWait, None, h')" "rings h' = (rings h)[k := q]"
    using pass_law [OF at q(1,2), of u] by auto
  then show ?thesis using q assms(1) by (auto simp: ready_def intro: le_trans)
qed

abbreviation held :: "'h \<Rightarrow> u32" where "held h \<equiv> sz (rings h ! k)"

lemma waited:
  assumes "size_wait out g t h = Some r" and "feeds enq rings k arr out" and "ready arr t h" and "g = held"
  shows "\<exists>t2 h2. r = (t2, h2) \<and> t < t2 \<and> ready arr t2 h2 \<and>
    contents (rings h2 ! k) = contents (rings h ! k) @ concat (map arr [t..<t2])"
  using assms
proof (induction rule: size_wait.raw_induct [rotated, consumes 1])
  case (1 f out g t h r)
  note next_one = fed [OF 1(3,4)]
  show ?case
  proof (cases "g (meanwhile out t h) = 0")
    case True
    with 1(2) have "f out g (t + 1) (meanwhile out t h) = Some r" by (simp add: Let_def)
    from 1(1) [OF this 1(3) _ 1(5)] next_one obtain t2 h2 where "r = (t2, h2)" "Suc t < t2" "ready arr t2 h2"
      "contents (rings h2 ! k) = contents (rings h ! k) @ arr t @ concat (map arr [Suc t..<t2])" by auto
    then show ?thesis by (simp add: upt_conv_Cons)
  next
    case False
    with 1(2) have "r = (t + 1, meanwhile out t h)" by (simp add: Let_def)
    with next_one show ?thesis by simp
  qed
qed

lemma wakes:
  assumes "feeds enq rings k arr out" and "ready arr t h" and "t \<le> v" and "arr v \<noteq> []"
  shows "\<exists>r. size_wait out held t h = Some r"
  using assms(2,3)
proof (induction "v - t" arbitrary: t h)
  case 0
  then have "contents (rings (meanwhile out t h) ! k) \<noteq> []" using fed(2) [OF assms(1) 0(2)] assms(4) by simp
  moreover have "inv (rings (meanwhile out t h) ! k)" using fed(1) [OF assms(1) 0(2)] by (simp add: ready_def)
  ultimately have "held (meanwhile out t h) \<noteq> 0" using held_law by blast
  then show ?case by (subst size_wait.simps) (simp add: Let_def)
next
  case (Suc n)
  have "\<exists>r. size_wait out held (Suc t) (meanwhile out t h) = Some r"
    using Suc(1) [of "Suc t" "meanwhile out t h"] Suc(2,4) fed(1) [OF assms(1) Suc(3)] by simp
  then show ?case by (subst size_wait.simps) (simp add: Let_def)
qed

text \<open>
  What the loop passes on and what it leaves in the ring is what was there and what arrived, in
  order; it can only end in order.
\<close>

lemma loop_serves:
  assumes "worker_loop out it g t h acc = Some r" and "feeds enq rings k arr out" and "ready arr t h"
    and "it = iter" and "g = held"
  shows "\<exists>fs h' xs n. r = Inr (acc @ fs, h') \<and> list_all2 carries fs xs \<and> run_at out n \<noteq> 1 \<and> t \<le> n \<and>
    xs @ contents (rings h' ! k) = contents (rings h ! k) @ concat (map arr [t..<n])"
  using assms
proof (induction rule: worker_loop.raw_induct [rotated, consumes 1])
  case (1 f out it g t h acc r)
  note eq = 1(5,6)
  show ?case
  proof (cases "run_at out t = 1")
    case False
    with 1(2) have "r = Inr (acc, h)" by simp
    with False show ?thesis by (intro exI [of _ "[]"] exI [of _ h] exI [of _ t]) simp
  next
    case True
    let ?h = "meanwhile out t h"
    note here = fed [OF 1(3,4)]
    have split: "concat (map arr [t..<n]) = arr t @ concat (map arr [Suc t..<n])" if "Suc t \<le> n" for n
      using that by (simp add: upt_conv_Cons)
    show ?thesis
    proof (cases "contents (rings ?h ! k)")
      case Nil
      then obtain h1 where h1: "iter t ?h = done_with (SizeWait, None, h1)" "ready arr (Suc t) h1"
        "contents (rings h1 ! k) = []" using passed_empty [OF here(1)] by blast
      with 1(2) True eq obtain t2 h2 where w: "size_wait out g (Suc t) h1 = Some (t2, h2)"
        "f out it g t2 h2 acc = Some r" by (auto split: option.splits)
      have h2: "Suc t < t2" "ready arr t2 h2" "contents (rings h2 ! k) = concat (map arr [Suc t..<t2])"
        using waited [OF w(1) 1(3) h1(2) eq(2)] h1(3) by auto
      from 1(1) [OF w(2) 1(3) h2(2) eq] obtain fs h' xs n where n: "r = Inr (acc @ fs, h')" "list_all2 carries fs xs"
        "run_at out n \<noteq> 1" "t2 \<le> n" "xs @ contents (rings h' ! k) = contents (rings h2 ! k) @ concat (map arr [t2..<n])"
        by blast
      have "[Suc t..<n] = [Suc t..<t2] @ [t2..<n]" using h2(1) n(4) upt_add_eq_append [of "Suc t" t2 "n - t2"] by simp
      then have "xs @ contents (rings h' ! k) = contents (rings h ! k) @ concat (map arr [t..<n])"
        using n(5) h2(1,3) n(4) Nil here(2) split by simp
      with n h2(1) show ?thesis by (intro exI [of _ fs] exI [of _ h'] exI [of _ xs] exI [of _ n]) simp
    next
      case (Cons x xs)
      then obtain b h1 where h1: "iter t ?h = done_with (Again, Some b, h1)" "carries b x" "ready arr (Suc t) h1"
        "contents (rings h1 ! k) = xs" using passed [OF here(1)] by blast
      with 1(2) True eq have "f out it g (t + 1) h1 (acc @ [b]) = Some r" by simp
      from 1(1) [OF this 1(3) _ eq] h1(3) obtain fs h' ys n where n: "r = Inr ((acc @ [b]) @ fs, h')"
        "list_all2 carries fs ys" "run_at out n \<noteq> 1" "Suc t \<le> n"
        "ys @ contents (rings h' ! k) = xs @ concat (map arr [Suc t..<n])" using h1(4) by auto
      with h1(2) here(2) Cons split show ?thesis
        by (intro exI [of _ "b # fs"] exI [of _ h'] exI [of _ "x # ys"] exI [of _ n]) simp
    qed
  qed
qed

lemma loop_returns:
  assumes "feeds enq rings k arr out" and "\<forall>u \<ge> z. run_at out u \<noteq> 1" and "z \<le> v" and "arr v \<noteq> []"
    and "ready arr t h"
  shows "\<exists>r. worker_loop out iter held t h acc = Some r"
  using assms(5)
proof (induction "z - t" arbitrary: t h acc rule: less_induct)
  case less
  show ?case
  proof (cases "run_at out t = 1")
    case True
    then have t: "t < z" using assms(2) by (meson not_le)
    let ?h = "meanwhile out t h"
    note here = fed(1) [OF assms(1) less(2)]
    show ?thesis
    proof (cases "contents (rings ?h ! k)")
      case Nil
      then obtain h1 where h1: "iter t ?h = done_with (SizeWait, None, h1)" "ready arr (Suc t) h1"
        using passed_empty [OF here] by blast
      obtain r where r: "size_wait out held (Suc t) h1 = Some r"
        using wakes [OF assms(1) h1(2) _ assms(4)] t assms(3) by auto
      obtain t2 h2 where h2: "r = (t2, h2)" "Suc t < t2" "ready arr t2 h2"
        using waited [OF r assms(1) h1(2)] by blast
      have "\<exists>r. worker_loop out iter held t2 h2 acc = Some r" by (rule less(1)) (use t h2 in auto)
      then show ?thesis using True h1(1) r h2(1) by (subst worker_loop.simps) simp
    next
      case (Cons x xs)
      then obtain f h1 where h1: "iter t ?h = done_with (Again, Some f, h1)" "ready arr (Suc t) h1"
        using passed [OF here] by blast
      have "\<exists>r. worker_loop out iter held (Suc t) h1 (acc @ [f]) = Some r" by (rule less(1)) (use t h1 in auto)
      then show ?thesis using True h1(1) by (subst worker_loop.simps) simp
    qed
  qed (subst worker_loop.simps, simp)
qed

end

lemma tx_pass:
  assumes "tx_inv cap hdr q" and "tx_get q = Some (f, q')"
  shows "tx_queue q = done_with (if f = None then SizeWait else Again, f, q')"
proof (cases "payloads q")
  case Nil
  have qt: "quiet cap q" using assms(1) by (simp add: tx_inv_def)
  have "sz q = 0" using live_Nil [OF qt] Nil by (simp add: payloads_def)
  then have "tx_queue q = done_with (SizeWait, None, next_interval (emptied q))"
    using pop_empty [of q] quietD(4) [OF qt] emptied_quiet(7) [OF qt] by (simp add: tx_queue_def emptied_def)
  with assms(2) show ?thesis by (auto simp: tx_get_def)
next
  case (Cons p ps)
  then have "f \<noteq> None" using tx_get_law [OF assms(1) Cons] assms(2) by auto
  with assms(2) show ?thesis
    by (auto simp: tx_get_def tx_queue_def Let_def split: option.splits sum.splits ring_ptr.splits if_splits)
qed

lemma rx_pass:
  assumes "rx_inv cap ip q" and "rx_get q = Some (f, q')"
  shows "rx_queue q = done_with (if f = None then SizeWait else Again, f, q')"
proof (cases "frames q")
  case Nil
  have qt: "quiet cap q" using assms(1) by (simp add: rx_inv_def)
  have "sz q = 0" using live_Nil [OF qt] Nil by (simp add: frames_def)
  then have "rx_queue q = done_with (SizeWait, None, next_interval (emptied q))"
    using pop_empty [of q] quietD(4) [OF qt] emptied_quiet(7) [OF qt] by (simp add: rx_queue_def emptied_def)
  with assms(2) show ?thesis by (auto simp: rx_get_def)
next
  case (Cons p ps)
  then have "f \<noteq> None" using rx_get_law [OF assms(1) Cons] assms(2) by auto
  with assms(2) show ?thesis
    by (auto simp: rx_get_def rx_queue_def Let_def split: option.splits sum.splits ring_ptr.splits if_splits)
qed

interpretation tx_worker: ring_worker tx_put tx_get "tx_inv cap hdr" payloads room "fits cap" "encapsulates hdr"
  tx_q k "\<lambda>t. tx_iter k (ret t)" for cap hdr k ret
proof unfold_locales
  fix h :: txq and f q t
  assume "tx_inv cap hdr (tx_q h ! k)" "k < length (tx_q h)" "tx_get (tx_q h ! k) = Some (f, q)"
  then show "\<exists>h'. tx_iter k (ret t) h = done_with (if f = None then SizeWait else Again, f, h') \<and>
      tx_q h' = (tx_q h)[k := q]" using tx_pass by (fastforce simp: tx_iter_def Let_def)
next
  fix q assume "tx_inv cap hdr q"
  then show "sz q = 0 \<longleftrightarrow> payloads q = []" using live_Nil by (auto simp: tx_inv_def payloads_def)
qed

interpretation rx_worker: ring_worker "rx_put ip" rx_get "rx_inv cap ip" frames room "from_peer cap ip"
  "\<lambda>p f. p = drop 34 f" rx_q k "\<lambda>t. rx_iter k (ret t)" for cap ip k ret
proof unfold_locales
  fix h :: rxq and f q t
  assume "rx_inv cap ip (rx_q h ! k)" "k < length (rx_q h)" "rx_get (rx_q h ! k) = Some (f, q)"
  then show "\<exists>h'. rx_iter k (ret t) h = done_with (if f = None then SizeWait else Again, f, h') \<and>
      rx_q h' = (rx_q h)[k := q]" using rx_pass by (fastforce simp: rx_iter_def Let_def)
next
  fix q assume "rx_inv cap ip q"
  then show "sz q = 0 \<longleftrightarrow> frames q = []" using live_Nil by (auto simp: rx_inv_def frames_def)
qed

text \<open>What a worker changes when it takes its ring does not touch the contents.\<close>

lemma stamp_worker [simp]:
  "tx_inv cap hdr (q\<lparr>qts := x\<rparr>) = tx_inv cap hdr q"
  "payloads (q\<lparr>qts := x\<rparr>) = payloads q"
  "room (q\<lparr>qts := x\<rparr>) = room q"
  "rx_inv cap ip (q\<lparr>qts := x\<rparr>) = rx_inv cap ip q"
  "frames (q\<lparr>qts := x\<rparr>) = frames q"
  "tx_inv cap hdr (q\<lparr>spins := n\<rparr>) = tx_inv cap hdr q"
  "payloads (q\<lparr>spins := n\<rparr>) = payloads q"
  "room (q\<lparr>spins := n\<rparr>) = room q"
  "rx_inv cap ip (q\<lparr>spins := n\<rparr>) = rx_inv cap ip q"
  "frames (q\<lparr>spins := n\<rparr>) = frames q"
  "tx_inv cap hdr (q\<lparr>qid := u\<rparr>) = tx_inv cap hdr q"
  "payloads (q\<lparr>qid := u\<rparr>) = payloads q"
  "room (q\<lparr>qid := u\<rparr>) = room q"
  "rx_inv cap ip (q\<lparr>qid := u\<rparr>) = rx_inv cap ip q"
  "frames (q\<lparr>qid := u\<rparr>) = frames q"
  by (simp_all add: tx_inv_def rx_inv_def quiet_def ring_wf_def geom_def live_def payloads_def frames_def
      payload_def [abs_def] frame_def [abs_def] stamped_def length_field_def room_def)

text \<open>For the examples: one element arrives at time 0 and one at time 1, and \<open>run\<close> is cleared at 1.\<close>

definition sample_arrivals :: "'a \<Rightarrow> nat \<Rightarrow> 'a list" where
  "sample_arrivals x t = (if t < 2 then [x] else [])"

definition sample_run :: "nat \<Rightarrow> int" where
  "sample_run t = (if t = 0 then 1 else 0)"

lemma sample_session_simps [simp]:
  "tx_q (sample_txq qs) = qs" "tx_id (sample_txq qs) = 0" "rx_q (sample_rxq qs) = qs" "rx_id (sample_rxq qs) = 0"
  by (simp_all add: sample_txq_def sample_rxq_def)

lemma sample_arrivals_count: "length (concat (map (sample_arrivals x) [0..<n])) \<le> 2"
proof -
  have "length (concat (map (sample_arrivals x) [0..<n])) = min n 2"
    by (induction n) (simp_all add: sample_arrivals_def)
  then show ?thesis by simp
qed

section \<open>Properties\<close>

text \<open>
  C30: the IO threads visit the rings in turn, but count one ring too many. However the other
  threads and the device behave, \<^verbatim>\<open>tx_io\<close> ends in order only when \<open>run\<close> is cleared before its pass
  number \<open>qnum\<close>, and \<^verbatim>\<open>rx_io\<close> only when it is cleared before the pass after that; otherwise they
  use a ring past the last one, or never return.
\<close>

theorem io_threads_run_out:
  assumes "keeps_rings tx_qnum tx_q out" and "tx_qnum h = int (length (tx_q h))" and "length (tx_q h) < 2 ^ 31"
    and "keeps_rings rx_qnum rx_q out'" and "rx_qnum h' = int (length (rx_q h'))" and "length (rx_q h') < 2 ^ 31"
  shows "(tx_io k out evs h w = done_with r \<longrightarrow> (\<exists>u \<le> length (tx_q h) - 1. run_at out u \<noteq> 1)) \<and>
    (rx_io out' evs' h' = done_with r' \<longrightarrow> (\<exists>u \<le> length (rx_q h'). run_at out' u \<noteq> 1))"
proof (intro conjI impI)
  let ?n = "length (tx_q h)"
  assume "tx_io k out evs h w = done_with r"
  then obtain x where x: "io_loop out tx_io_iter 0 0 evs h = done_with x"
    by (auto simp: tx_io_def and_then_done split: prod.splits)
  let ?inv = "\<lambda>g. tx_qnum g = int ?n \<and> length (tx_q g) = ?n" and ?nextq = "\<lambda>i. next_queue i (int ?n)"
  have "\<exists>u. 0 \<le> u \<and> u \<le> 0 + (?n - 1) \<and> run_at out u \<noteq> 1"
  proof (rule io_loop_told [OF x, where Inv = ?inv and nextq = ?nextq and P = "\<lambda>i g. unat (?nextq i) < ?n"])
    show "\<not> unat (?nextq ((?nextq ^^ (?n - 1)) 0)) < ?n" for g :: txq
    proof (cases "?n = 0")
      case False
      have "?nextq ((?nextq ^^ (?n - 1)) 0) = (?nextq ^^ ?n) 0" using False by (cases ?n) simp_all
      then show ?thesis using next_queue_iter [of ?n ?n] assms(3) by (simp add: unat_of_nat_u32)
    qed simp
  qed (use assms(1,2) in \<open>auto simp: keeps_rings_def dest!: tx_io_iter_rings\<close>)
  then show "\<exists>u \<le> ?n - 1. run_at out u \<noteq> 1" by auto
next
  let ?n = "length (rx_q h')"
  assume "rx_io out' evs' h' = done_with r'"
  then obtain x where x: "io_loop out' rx_io_iter 0 0 evs' h' = done_with x"
    by (auto simp: rx_io_def and_then_done)
  let ?inv = "\<lambda>g. rx_qnum g = int ?n \<and> length (rx_q g) = ?n" and ?nextq = "\<lambda>i. next_queue i (int ?n)"
  have "\<exists>u. 0 \<le> u \<and> u \<le> 0 + ?n \<and> run_at out' u \<noteq> 1"
  proof (rule io_loop_told [OF x, where Inv = ?inv and nextq = ?nextq and P = "\<lambda>i g. unat i < ?n"])
    show "\<not> unat ((?nextq ^^ ?n) 0) < ?n" for g :: rxq
      using next_queue_iter [of ?n ?n] assms(6) by (simp add: unat_of_nat_u32)
  qed (use assms(4,5) in \<open>auto simp: keeps_rings_def dest!: rx_io_iter_rings\<close>)
  then show "\<exists>u \<le> ?n. run_at out' u \<noteq> 1" by auto
qed

theorem io_threads_run_out_witness:
  "\<exists>on on' w'. tx_io sample_kernel \<lparr>run_at = \<lambda>_. 0, meanwhile = \<lambda>_ g. g\<rparr> [] (sample_txq [sample_ring [0, 0, 0] 0 0 0]) [] =
       done_with (on, [Descriptors 0, Rings, Session], w') \<and>
     rx_io \<lparr>run_at = sample_run, meanwhile = \<lambda>_ g. g\<rparr> [] (sample_rxq [sample_ring [0, 0, 0] 0 0 3]) =
       done_with (on', [Descriptors 0, Rings, Session]) \<and>
     (\<exists>u \<le> 1. sample_run u \<noteq> 1)"
proof -
  let ?out = "\<lparr>run_at = \<lambda>_. 0, meanwhile = \<lambda>_ g. g\<rparr>" and ?out' = "\<lparr>run_at = sample_run, meanwhile = \<lambda>_ g. g\<rparr>"
  let ?h = "sample_txq [sample_ring [0, 0, 0] 0 0 0]" and ?h' = "sample_rxq [sample_ring [0, 0, 0] 0 0 3]"
  have "\<exists>on w'. tx_io sample_kernel ?out [] ?h [] = done_with (on, [Descriptors 0, Rings, Session], w')"
    by (cases "tun_set_queue sample_kernel 5 1 []")
      (simp add: tx_io_def io_loop.simps free_tx_def free_session_def sample_txq_def)
  then obtain on w' where tx: "tx_io sample_kernel ?out [] ?h [] = done_with (on, [Descriptors 0, Rings, Session], w')" by blast
  obtain q' where "push (sample_ring [0, 0, 0] 0 0 3) = Some (Inr (NULL, q'))"
    using push_unlocked [of "sample_ring [0, 0, 0] 0 0 3"] by (simp add: sample_ring_wf)
  then have "\<exists>g. rx_io_iter 0 [] ?h' = done_with (1, [], g) \<and> rx_q g \<noteq> []"
    by (simp add: rx_io_iter_def rx_io_queue_def sample_rxq_def next_queue_def)
  then obtain on' where rx: "rx_io ?out' [] ?h' = done_with (on', [Descriptors 0, Rings, Session])"
    by (auto simp: rx_io_def io_loop.simps [of _ _ 0] io_loop.simps [of _ _ "Suc 0"] sample_run_def free_rx_def free_session_def)
  have "\<exists>u \<le> 1. sample_run u \<noteq> 1"
    using io_threads_run_out [where out = ?out and h = ?h and out' = ?out' and h' = ?h' and evs' = "[]"
        and r' = "(on', [Descriptors 0, Rings, Session])"] rx by (simp add: keeps_rings_def sample_txq_def sample_rxq_def)
  with tx rx show ?thesis by blast
qed

text \<open>
  A worker that finds its ring empty sleeps until the size changes and looks at nothing else:
  if nobody stores into the ring any more it never ends, also when \<open>run\<close> has been cleared.
\<close>

theorem workers_sleep_on:
  assumes "\<forall>u. \<forall>g. meanwhile out u g = g" and "run_at out t = 1"
    and "k < length (tx_q h)" and "qlock (tx_q h ! k) = 0" and "sz (tx_q h ! k) = 0"
    and "\<forall>u. \<forall>g. meanwhile out' u g = g" and "run_at out' t = 1"
    and "k < length (rx_q h')" and "qlock (rx_q h' ! k) = 0" and "sz (rx_q h' ! k) = 0"
  shows "worker_loop out (\<lambda>t. tx_iter k (ret t)) (\<lambda>g. sz (tx_q g ! k)) t h acc = None \<and>
    worker_loop out' (\<lambda>t. rx_iter k (ret t)) (\<lambda>g. sz (rx_q g ! k)) t h' acc = None"
proof
  obtain h1 where h1: "tx_iter k (ret t) h = done_with (SizeWait, None, h1)" "sz (tx_q h1 ! k) = 0"
    using tx_iter_empty [OF assms(3-5)] by blast
  have "size_wait out (\<lambda>g. sz (tx_q g ! k)) (t + 1) h1 = None"
    using assms(1) h1(2) by (intro size_wait_asleep) simp_all
  then show "worker_loop out (\<lambda>t. tx_iter k (ret t)) (\<lambda>g. sz (tx_q g ! k)) t h acc = None"
    using assms(1,2) h1(1) by (subst worker_loop.simps) simp
  obtain h2 where h2: "rx_iter k (ret t) h' = done_with (SizeWait, None, h2)" "sz (rx_q h2 ! k) = 0"
    using rx_iter_empty [OF assms(8-10)] by blast
  have "size_wait out' (\<lambda>g. sz (rx_q g ! k)) (t + 1) h2 = None"
    using assms(6) h2(2) by (intro size_wait_asleep) simp_all
  then show "worker_loop out' (\<lambda>t. rx_iter k (ret t)) (\<lambda>g. sz (rx_q g ! k)) t h' acc = None"
    using assms(6,7) h2(1) by (subst worker_loop.simps) simp
qed

theorem workers_sleep_on_witness:
  "let out = \<lparr>run_at = sample_run, meanwhile = \<lambda>_ g. g\<rparr>; out' = \<lparr>run_at = sample_run, meanwhile = \<lambda>_ g. g\<rparr> in
   worker_loop out (\<lambda>_. tx_iter 0 49) (\<lambda>g. sz (tx_q g ! 0)) 0 (sample_txq [sample_ring [0, 0, 0] 0 0 0]) [] = None \<and>
   worker_loop out' (\<lambda>_. rx_iter 0 49) (\<lambda>g. sz (rx_q g ! 0)) 0 (sample_rxq [sample_ring [0, 0, 0] 0 0 0]) [] = None"
  using workers_sleep_on [of "\<lparr>run_at = sample_run, meanwhile = \<lambda>_ g. g\<rparr>" 0 0
      "sample_txq [sample_ring [0, 0, 0] 0 0 0]" "\<lparr>run_at = sample_run, meanwhile = \<lambda>_ g. g\<rparr>"
      "sample_rxq [sample_ring [0, 0, 0] 0 0 0]" "\<lambda>_. 49" "[]"]
  by (simp add: sample_txq_def sample_rxq_def sample_run_def)



text \<open>
  C10: a whole run of \<^verbatim>\<open>rx\<close>, fed by \<^verbatim>\<open>rx_io\<close> at any times within a lap. The worker never fails; if
  it returns, it has written the payloads of the frames that were in its ring and came in, in
  order, up to what it leaves in the ring, and \<open>run\<close> was cleared; and it returns when \<open>run\<close> stays
  cleared and a frame of the peer comes in after that.
\<close>

theorem rx_worker_writes:
  assumes "rx_inv cap ip (rx_q h ! j)" and "unat (rx_id h) = j" and "j < length (rx_q h)"
    and "feeds (rx_put ip) rx_q j arr out" and "\<forall>t. \<forall>f \<in> set (arr t). from_peer cap ip f"
    and "\<forall>n. length (concat (map arr [0..<n])) \<le> room (rx_q h ! j)"
  shows "(\<forall>r. rx k out ret cpu h w = Some r \<longrightarrow> (\<exists>on pin cpu' ps h' w' fs n. r = Inr (on, pin, cpu', ps, h', w') \<and>
      ps = map (drop 34) fs \<and> run_at out n \<noteq> 1 \<and>
      fs @ frames (rx_q h' ! j) = frames (rx_q h ! j) @ concat (map arr [0..<n]))) \<and>
    (\<forall>z v. (\<forall>u \<ge> z. run_at out u \<noteq> 1) \<and> z \<le> v \<and> arr v \<noteq> [] \<longrightarrow> (\<exists>r. rx k out ret cpu h w = Some r))"
proof -
  define q where "q = (rx_q h ! j)\<lparr>qid := of_nat j\<rparr>"
  obtain h1 where start: "rx_worker_start h = Inr (j, h1)" "rx_q h1 = (rx_q h)[j := q]"
    using assms(2,3) by (simp add: rx_worker_start_def Let_def q_def upd_at_def)
  have same: "frames q = frames (rx_q h ! j)" "room q = room (rx_q h ! j)" "rx_inv cap ip q"
    using assms(1) by (simp_all add: q_def)
  have ready: "rx_worker.ready cap ip j arr 0 h1"
    unfolding rx_worker.ready_def using assms(3,5,6) start(2) same by simp
  have drops: "list_all2 (\<lambda>p f. p = drop 34 f) ps fs \<longleftrightarrow> ps = map (drop 34) fs" for ps fs :: "u8 list list"
    by (auto simp: list_all2_conv_all_nth intro: nth_equalityI)
  have run: "rx k out ret cpu h w =
      and_then (worker_loop out (\<lambda>t. rx_iter j (ret t)) (\<lambda>h. sz (rx_q h ! j)) 0 h1 [])
        (\<lambda>(fs, h2). done_with (rx_online (Some j) h1, fst (rx_pin cpu), snd (rx_pin cpu), fs, h2, snd (tun_set_queue k (rx_fd h1) 1 w)))"
    using start(1) by (simp add: rx_def split: prod.split)
  show ?thesis
  proof (intro conjI allI impI)
    fix r assume "rx k out ret cpu h w = Some r"
    then obtain r1 where loop: "worker_loop out (\<lambda>t. rx_iter j (ret t)) (\<lambda>h. sz (rx_q h ! j)) 0 h1 [] = Some r1"
      unfolding run by (auto simp: and_then_def split: option.splits)
    obtain fs h' xs n where n: "r1 = Inr (fs, h')" "list_all2 (\<lambda>p f. p = drop 34 f) fs xs" "run_at out n \<noteq> 1"
      "xs @ frames (rx_q h' ! j) = frames (rx_q h1 ! j) @ concat (map arr [0..<n])"
      using rx_worker.loop_serves [OF loop assms(4) ready refl refl] by auto
    then have left: "xs @ frames (rx_q h' ! j) = frames (rx_q h ! j) @ concat (map arr [0..<n])"
      using start(2) same(1) assms(3) by simp
    have "r = Inr (rx_online (Some j) h1, fst (rx_pin cpu), snd (rx_pin cpu), fs, h', snd (tun_set_queue k (rx_fd h1) 1 w))"
      using \<open>rx k out ret cpu h w = Some r\<close> loop n(1) unfolding run by auto
    then show "\<exists>on pin cpu' ps h' w' fs n. r = Inr (on, pin, cpu', ps, h', w') \<and>
      ps = map (drop 34) fs \<and> run_at out n \<noteq> 1 \<and>
      fs @ frames (rx_q h' ! j) = frames (rx_q h ! j) @ concat (map arr [0..<n])" using n(2,3) left unfolding drops by blast
  next
    fix z v assume z: "(\<forall>u \<ge> z. run_at out u \<noteq> 1) \<and> z \<le> v \<and> arr v \<noteq> []"
    obtain r1 where "worker_loop out (\<lambda>t. rx_iter j (ret t)) (\<lambda>h. sz (rx_q h ! j)) 0 h1 [] = Some r1"
      using rx_worker.loop_returns [OF assms(4) _ _ _ ready, of z v ret "[]"] z by blast
    then show "\<exists>r. rx k out ret cpu h w = Some r" unfolding run by (cases r1) (auto split: prod.splits)
  qed
qed

theorem rx_worker_writes_witness:
  "let f = replicate 49 (0 :: u8); arr = sample_arrivals f;
       out = \<lparr>run_at = sample_run, meanwhile = \<lambda>t g. g\<lparr>rx_q := (rx_q g)[0 := stored (rx_put 0) (arr t) (rx_q g ! 0)]\<rparr>\<rparr>
   in \<exists>q on pin cpu' ps h' w' fs n. frames q = [] \<and>
        rx sample_kernel out (\<lambda>_. 15) 3 (sample_rxq [q]) [] = done_with (on, pin, cpu', ps, h', w') \<and>
        ps = map (drop 34) fs \<and> 0 < n \<and> fs @ frames (rx_q h' ! 0) = concat (map arr [0..<n])"
proof -
  let ?arr = "sample_arrivals (replicate 49 (0 :: u8))"
  let ?out = "\<lparr>run_at = sample_run,
    meanwhile = \<lambda>t g. g\<lparr>rx_q := (rx_q g)[0 := stored (rx_put 0) (?arr t) (rx_q g ! 0)]\<rparr>\<rparr>"
  let ?rx = "rx sample_kernel ?out (\<lambda>_. 15) 3"
  obtain q where q: "rx_inv 15 0 q" "frames q = []" "room q = 2" using sample_ready by blast
  have "feeds (rx_put 0) rx_q 0 ?arr ?out" by (simp add: feeds_def)
  moreover have "from_peer 15 0 (replicate 49 (0 :: u8))" by code_simp
  then have "\<forall>t. \<forall>f \<in> set (?arr t). from_peer 15 0 f" by (simp add: sample_arrivals_def)
  ultimately have run: "(\<forall>r. ?rx (sample_rxq [q]) [] = Some r \<longrightarrow>
      (\<exists>on pin cpu' ps h' w' fs n. r = Inr (on, pin, cpu', ps, h', w') \<and> ps = map (drop 34) fs \<and> sample_run n \<noteq> 1 \<and>
        fs @ frames (rx_q h' ! 0) = concat (map ?arr [0..<n]))) \<and>
    (\<forall>z v. (\<forall>u \<ge> z. sample_run u \<noteq> 1) \<and> z \<le> v \<and> ?arr v \<noteq> [] \<longrightarrow> (\<exists>r. ?rx (sample_rxq [q]) [] = Some r))"
    using rx_worker_writes [of 15 0 "sample_rxq [q]" 0 ?arr ?out sample_kernel "\<lambda>_. 15" 3 "[]"] q
      sample_arrivals_count [of "replicate 49 (0 :: u8)"] by simp
  have "(\<forall>u \<ge> 1. sample_run u \<noteq> 1) \<and> 1 \<le> (1 :: nat) \<and> ?arr 1 \<noteq> []"
    by (simp add: sample_run_def sample_arrivals_def)
  with run obtain r where "?rx (sample_rxq [q]) [] = Some r" by blast
  with run obtain on pin cpu' ps h' w' fs n where
    "?rx (sample_rxq [q]) [] = done_with (on, pin, cpu', ps, h', w')" "ps = map (drop 34) fs"
    "sample_run n \<noteq> 1" "fs @ frames (rx_q h' ! 0) = concat (map ?arr [0..<n])" by blast
  moreover from this have "0 < n" by (cases n) (simp_all add: sample_run_def)
  ultimately show ?thesis using q(2) unfolding Let_def by blast
qed

end
