(* ===== verification/Stall.thy ===== *)
theory Stall
  imports Slots Threads
begin

text \<open>
  The end of a lap with a sleeping worker. When the worker has drained the ring and the next payload
  goes into the last slot, the worker releases slot 0 instead, finds the count 0 and waits for it to
  change. But from then on \<^verbatim>\<open>push\<close> finds \<open>in = out - 1\<close> and refuses everything, so the count never
  changes: only a look of the worker at the marked ring would reset it.
\<close>

section \<open>A worker over laps\<close>

definition stalled :: "'a slot_row \<Rightarrow> bool" where
  "stalled m \<longleftrightarrow> at_in m = 0 \<and> at_out m = 1 \<and> held m = 0"

lemma stalled_put: "stalled m \<Longrightarrow> stalled (snd (row_put x m))"
  by (simp add: stalled_def row_put_def refuses_def)

locale ring_server = slot_ring offer take_one inv view okv carries
  for offer :: "'a \<Rightarrow> Q \<Rightarrow> (bool \<times> Q) option" and take_one :: "Q \<Rightarrow> (u8 list option \<times> Q) option"
    and inv :: "Q \<Rightarrow> bool" and view :: "Q \<Rightarrow> 'a slot_row" and okv :: "'a \<Rightarrow> bool"
    and carries :: "u8 list \<Rightarrow> 'a \<Rightarrow> bool" +
  fixes rings :: "'h \<Rightarrow> Q list" and k :: nat
    and iter :: "nat \<Rightarrow> 'h \<Rightarrow> (pass \<times> u8 list option \<times> 'h) may_loop"
  assumes serve_law: "inv (rings h ! k) \<Longrightarrow> k < length (rings h) \<Longrightarrow> take_one (rings h ! k) = Some (f, q) \<Longrightarrow>
      \<exists>h'. iter t h = done_with
          (if held (view (rings h ! k)) = 0 \<or> at_in (view (rings h ! k)) = at_out (view (rings h ! k))
           then SizeWait else Again, f, h') \<and> rings h' = (rings h)[k := q]"
    and held_law: "inv q \<Longrightarrow> held (view q) = unat (sz q)"
begin

abbreviation enq :: "'a \<Rightarrow> Q \<Rightarrow> Q option" where "enq \<equiv> \<lambda>x q. map_option snd (offer x q)"
abbreviation count :: "'h \<Rightarrow> u32" where "count h \<equiv> sz (rings h ! k)"
abbreviation the_row :: "'h \<Rightarrow> 'a slot_row" where "the_row h \<equiv> view (rings h ! k)"

definition in_order :: "(nat \<Rightarrow> 'a list) \<Rightarrow> 'h \<Rightarrow> bool" where
  "in_order arr h \<longleftrightarrow> k < length (rings h) \<and> inv (rings h ! k) \<and> (\<forall>u. \<forall>x \<in> set (arr u). okv x)"

text \<open>What the ring is after the feeder has offered some entries.\<close>

fun row_puts :: "'a list \<Rightarrow> 'a slot_row \<Rightarrow> 'a slot_row" where
  "row_puts [] m = m"
| "row_puts (x # xs) m = row_puts xs (snd (row_put x m))"

lemma stored_puts:
  "inv q \<Longrightarrow> \<forall>x \<in> set xs. okv x \<Longrightarrow> inv (stored enq xs q) \<and> view (stored enq xs q) = row_puts xs (view q)"
proof (induction xs arbitrary: q)
  case (Cons x xs)
  obtain q1 where "offer x q = Some (\<not> refuses (view q), q1)" "inv q1" "view q1 = snd (row_put x (view q))"
    using offer_law [of q x] Cons.prems by auto
  with Cons.IH [of q1] Cons.prems(2) show ?case by simp
qed simp

lemma fed:
  assumes "feeds enq rings k arr out" and "in_order arr h"
  shows "in_order arr (meanwhile out t h)" and "the_row (meanwhile out t h) = row_puts (arr t) (the_row h)"
  using assms stored_puts [of "rings h ! k" "arr t"] by (simp_all add: feeds_def in_order_def)

lemma served:
  assumes "in_order arr h"
  shows "\<exists>f h'. iter t h = done_with
      (if held (the_row h) = 0 \<or> at_in (the_row h) = at_out (the_row h) then SizeWait else Again, f, h') \<and>
    in_order arr h' \<and> the_row h' = snd (row_get (the_row h))"
proof -
  have at: "inv (rings h ! k)" "k < length (rings h)" using assms by (simp_all add: in_order_def)
  obtain f q where q: "take_one (rings h ! k) = Some (f, q)" "inv q" "view q = snd (row_get (the_row h))"
    using take_law [OF at(1)] by blast
  obtain h' where "iter t h = done_with
      (if held (the_row h) = 0 \<or> at_in (the_row h) = at_out (the_row h) then SizeWait else Again, f, h')"
    "rings h' = (rings h)[k := q]" using serve_law [OF at q(1), of t] by blast
  with q at assms show ?thesis by (auto simp: in_order_def)
qed

lemma stalled_puts: "stalled m \<Longrightarrow> stalled (row_puts xs m)"
  by (induction xs arbitrary: m) (simp_all add: stalled_put)

lemma never_wakes:
  assumes "feeds enq rings k arr out" and "in_order arr h" and "stalled (the_row h)"
  shows "size_wait out count t h = None"
proof (rule ccontr)
  assume "size_wait out count t h \<noteq> None"
  then obtain r where "size_wait out count t h = Some r" by blast
  moreover have "size_wait out g t h = Some r \<Longrightarrow> feeds enq rings k arr out \<Longrightarrow> in_order arr h \<Longrightarrow>
      stalled (the_row h) \<Longrightarrow> g = count \<Longrightarrow> False" for g t h r
  proof (induction rule: size_wait.raw_induct [rotated, consumes 1])
    case (1 f out g t h r)
    let ?h = "meanwhile out t h"
    have h: "in_order arr ?h" "stalled (the_row ?h)"
      using fed [OF 1(3,4), of t] stalled_puts [OF 1(5)] by simp_all
    then have "unat (count ?h) = 0" using held_law [of "rings ?h ! k"] by (simp add: in_order_def stalled_def)
    then have "g ?h = 0" using 1(6) by (simp add: unsigned_eq_0_iff)
    then have "f out g (t + 1) ?h = Some r" using 1(2) by (simp add: Let_def)
    from 1(1) [OF this 1(3) h 1(6)] show False .
  qed
  ultimately show False using assms by blast
qed

text \<open>Drained with both cursors on the last slot: one more entry and the worker never wakes.\<close>

lemma stalls_at_end:
  assumes "feeds enq rings k arr out" and "in_order arr h"
    and m: "1 < n_slots (the_row h)" "at_in (the_row h) = n_slots (the_row h) - 1"
      "at_out (the_row h) = n_slots (the_row h) - 1" "held (the_row h) = 0" "\<not> marked (the_row h)"
    and "arr t = [x]" and "arr (Suc t) = []" and "run_at out t = 1" and "run_at out (Suc t) = 1"
  shows "worker_loop out iter count t h acc = None"
proof -
  let ?h = "meanwhile out t h"
  note h = fed [OF assms(1,2), of t]
  have row: "at_in (the_row ?h) = 0" "at_out (the_row ?h) = n_slots (the_row h) - 1" "held (the_row ?h) = 1"
    "n_slots (the_row ?h) = n_slots (the_row h)" "\<not> marked (the_row ?h)"
    using m by (simp_all add: h(2) assms(8) row_put_def refuses_def)
  obtain f h1 where h1: "iter t ?h = done_with (Again, f, h1)" "in_order arr h1" "the_row h1 = snd (row_get (the_row ?h))"
    using served [OF h(1), of t] row m(1) by auto
  have row1: "stalled (the_row h1)" "\<not> marked (the_row h1)"
    using row m(1) by (simp_all add: h1(3) stalled_def row_get_def row_start_def Let_def)
  let ?h1 = "meanwhile out (Suc t) h1"
  note h2 = fed [OF assms(1) h1(2), of "Suc t"]
  then have row2: "the_row ?h1 = the_row h1" by (simp add: assms(9))
  obtain f' h3 where h3: "iter (Suc t) ?h1 = done_with (SizeWait, f', h3)" "in_order arr h3"
    "the_row h3 = snd (row_get (the_row h1))" using served [OF h2(1), of "Suc t"] row1 by (auto simp: row2 stalled_def)
  have "stalled (the_row h3)" using row1 by (simp add: h3(3) stalled_def row_get_def)
  then have "size_wait out count (Suc (Suc t)) h3 = None" by (rule never_wakes [OF assms(1) h3(2)])
  then have "worker_loop out iter count (Suc t) h1 acc' = None" for acc'
    using h3(1) assms(11) by (subst worker_loop.simps) (simp add: Let_def)
  then show ?thesis using h1(1) assms(10) by (subst worker_loop.simps) (simp add: Let_def)
qed

text \<open>A fresh ring that gets one entry per pass comes to that point.\<close>

lemma stalls_after_lap:
  assumes "feeds enq rings k arr out" and "in_order arr h" and "n_slots (the_row h) = n" and "1 < n"
    and "at_in (the_row h) = t" and "at_out (the_row h) = t" and "held (the_row h) = 0" and "\<not> marked (the_row h)"
    and "t < n" and "\<forall>u < n. \<exists>x. arr u = [x]" and "arr n = []" and "\<forall>u \<le> n. run_at out u = 1"
  shows "worker_loop out iter count t h acc = None"
  using assms(2,3,5-9)
proof (induction "n - 1 - t" arbitrary: t h acc)
  case 0
  then have t: "t = n - 1" "Suc t = n" using assms(4) by simp_all
  obtain x where "arr t = [x]" using assms(10) 0 by blast
  then show ?case
    using 0 t assms(1,4,11,12) by (intro stalls_at_end [OF assms(1) 0(2)]) simp_all
next
  case (Suc d)
  let ?h = "meanwhile out t h"
  note h = fed [OF assms(1) Suc(3), of t]
  obtain x where x: "arr t = [x]" using assms(10) Suc(9) by blast
  have t: "Suc t < n" using Suc(2) by simp
  have row: "at_in (the_row ?h) = Suc t" "at_out (the_row ?h) = t" "held (the_row ?h) = 1"
    "n_slots (the_row ?h) = n" "\<not> marked (the_row ?h)"
    using Suc t by (simp_all add: h(2) x row_put_def refuses_def)
  obtain f h1 where h1: "iter t ?h = done_with (Again, f, h1)" "in_order arr h1" "the_row h1 = snd (row_get (the_row ?h))"
    using served [OF h(1), of t] row by auto
  have "worker_loop out iter count (Suc t) h1 acc' = None" for acc'
    by (rule Suc(1)) (use Suc(2) h1(2) row t in \<open>auto simp: h1(3) row_get_def row_start_def Let_def\<close>)
  then show ?case using h1(1) assms(12) Suc(9) by (subst worker_loop.simps) (simp add: Let_def)
qed

end

section \<open>The workers of a session\<close>

text \<open>A pass of a worker: it waits exactly when \<^verbatim>\<open>pop\<close> finds the ring empty.\<close>

lemma tx_serve:
  assumes "still cap q" and "tx_get q = Some (f, q')"
  shows "tx_queue q = done_with
    (if held (row 0 q) = 0 \<or> at_in (row 0 q) = at_out (row 0 q) then SizeWait else Again, f, q')"
proof -
  have "sz (emptied q) = 0" by (simp add: emptied_def reset_ring_def)
  then show ?thesis using assms(2) pop_still [OF assms(1), of 0]
    by (auto simp: tx_get_def tx_queue_def Let_def split: option.splits sum.splits ring_ptr.splits if_splits)
qed

lemma rx_serve:
  assumes "still cap q" and "rx_get q = Some (f, q')"
  shows "rx_queue q = done_with
    (if held (row 34 q) = 0 \<or> at_in (row 34 q) = at_out (row 34 q) then SizeWait else Again, f, q')"
proof -
  have "sz (emptied q) = 0" by (simp add: emptied_def reset_ring_def)
  then show ?thesis using assms(2) pop_still [OF assms(1), of 34]
    by (auto simp: rx_get_def rx_queue_def Let_def split: option.splits sum.splits ring_ptr.splits if_splits)
qed

interpretation tx_server: ring_server tx_offer tx_get "tx_still cap hdr" "row 0" "fits cap" "encapsulates hdr"
  tx_q k "\<lambda>t. tx_iter k (ret t)" for cap hdr k ret
proof unfold_locales
  fix h :: txq and f q t
  assume "tx_still cap hdr (tx_q h ! k)" "k < length (tx_q h)" "tx_get (tx_q h ! k) = Some (f, q)"
  then show "\<exists>h'. tx_iter k (ret t) h = done_with
      (if held (row 0 (tx_q h ! k)) = 0 \<or> at_in (row 0 (tx_q h ! k)) = at_out (row 0 (tx_q h ! k))
       then SizeWait else Again, f, h') \<and> tx_q h' = (tx_q h)[k := q]"
    using tx_serve [of cap "tx_q h ! k" f q] by (auto simp: tx_iter_def Let_def tx_still_def)
qed simp

interpretation rx_server: ring_server "rx_offer peer" rx_get "still cap" "row 34" "from_peer cap peer"
  "\<lambda>p f. p = drop 34 f" rx_q k "\<lambda>t. rx_iter k (ret t)" for peer cap k ret
proof unfold_locales
  fix h :: rxq and f q t
  assume "still cap (rx_q h ! k)" "k < length (rx_q h)" "rx_get (rx_q h ! k) = Some (f, q)"
  then show "\<exists>h'. rx_iter k (ret t) h = done_with
      (if held (row 34 (rx_q h ! k)) = 0 \<or> at_in (row 34 (rx_q h ! k)) = at_out (row 34 (rx_q h ! k))
       then SizeWait else Again, f, h') \<and> rx_q h' = (rx_q h)[k := q]"
    using rx_serve [of cap "rx_q h ! k" f q] by (auto simp: rx_iter_def Let_def)
qed simp

lemma blank_stamp [simp]:
  "blank (q\<lparr>qts := x\<rparr>) = blank q" "blank (q\<lparr>spins := n\<rparr>) = blank q"
  by (simp_all add: blank_def)

section \<open>Properties\<close>

text \<open>
  C8: a sending worker does not outlive the first lap of its ring on light traffic: when payloads
  come one at a time, each after the one before was sent, until every slot was used once, then \<^verbatim>\<open>tx\<close>
  never returns. After the payload in the last slot it finds the ring empty and waits; if nothing came
  in between, whatever comes later is refused and does not wake it, nor does clearing \<open>run\<close>.
\<close>

theorem tx_dies_after_lap:
  assumes "tx_inv cap hdr (tx_q h ! k)" and "blank (tx_q h ! k)" and "unat (rsz (tx_q h ! k)) = n"
    and "unat (tx_id h) = k" and "k < length (tx_q h)"
    and "feeds (\<lambda>p q. map_option snd (tx_offer p q)) tx_q k arr out" and "\<forall>t. \<forall>p \<in> set (arr t). fits cap p"
    and "\<forall>u < n. \<exists>p. arr u = [p]" and "arr n = []" and "\<forall>u \<le> n. run_at out u = 1"
  shows "tx out ret cpu h = None"
proof -
  define q where "q = (tx_q h ! k)\<lparr>qts := \<lparr>tv_sec = 0, tv_nsec = SLOWSPIN\<rparr>, spins := 0, qid := of_nat k\<rparr>"
  obtain h1 where start: "worker_start h = Inr (k, h1)" "tx_q h1 = (tx_q h)[k := q]"
    using assms(4,5) by (simp add: worker_start_def Let_def q_def upd_at_def)
  have q: "blank q" "tx_inv cap hdr q" "unat (rsz q) = n" using assms(1-3) by (simp_all add: q_def)
  have quiet: "quiet cap q" using q(2) by (simp add: tx_inv_def)
  have row: "row 0 q = blank_row n" using blank_ring(1) [OF q(1) quiet] q(3) by simp
  have n: "1 < n" using ring_wfD(2) [OF quietD(1) [OF quiet]] q(3) by simp
  have at: "tx_server.in_order cap hdr k arr h1"
    unfolding tx_server.in_order_def using start(2) assms(5,7) blank_sender [OF q(1,2)] by simp
  have "worker_loop out (\<lambda>t. tx_iter k (ret t)) (\<lambda>g. sz (tx_q g ! k)) 0 h1 [] = None"
    by (rule tx_server.stalls_after_lap [OF assms(6) at, of n])
      (use n assms(5,8-10) in \<open>simp_all add: start(2) row blank_row_def\<close>)
  then show ?thesis using start(1) by (simp add: tx_def and_then_def split: prod.split)
qed

theorem tx_dies_after_lap_witness:
  "\<exists>q. let arr = (\<lambda>t. if t < 3 then [replicate 15 (7 :: u8)] else []);
       out = \<lparr>run_at = \<lambda>_. 1, meanwhile = \<lambda>t g. g\<lparr>tx_q := (tx_q g)[0 :=
         stored (\<lambda>p q. map_option snd (tx_offer p q)) (arr t) (tx_q g ! 0)]\<rparr>\<rparr>
     in tx out (\<lambda>_. 49) 3 (sample_txq [q]) = None"
proof -
  let ?arr = "\<lambda>t :: nat. if t < 3 then [replicate 15 (7 :: u8)] else []"
  let ?out = "\<lparr>run_at = \<lambda>_. 1, meanwhile = \<lambda>t g. g\<lparr>tx_q := (tx_q g)[0 :=
      stored (\<lambda>p q. map_option snd (tx_offer p q)) (?arr t) (tx_q g ! 0)]\<rparr>\<rparr> :: txq outside"
  obtain q where q: "blank q" "tx_inv 15 sample_headers q" "quiet 15 q" "row 0 q = blank_row 3"
    using sample_blank by metis
  have "unat (rsz q) = 3" using q(4) by (simp add: row_def blank_row_def)
  then have "tx ?out (\<lambda>_. 49) 3 (sample_txq [q]) = None"
    using q(1,2) by (intro tx_dies_after_lap [of 15 sample_headers "sample_txq [q]" 0 3 ?arr])
      (simp_all add: feeds_def fits_def)
  then show ?thesis unfolding Let_def by blast
qed

text \<open>The same end of a receiving worker, from any drained ring with both cursors on the last slot.\<close>

theorem rx_dies_at_lap_end:
  assumes "still cap (rx_q h ! k)" and "k < length (rx_q h)" and "q_in (rx_q h ! k) = rsz (rx_q h ! k) - 1"
    and "q_out (rx_q h ! k) = rsz (rx_q h ! k) - 1" and "sz (rx_q h ! k) = 0" and "full (rx_q h ! k) = 0"
    and "feeds (\<lambda>f q. map_option snd (rx_offer ip f q)) rx_q k arr out" and "\<forall>t. \<forall>f \<in> set (arr t). from_peer cap ip f"
    and "arr t = [f]" and "arr (Suc t) = []" and "run_at out t = 1" and "run_at out (Suc t) = 1"
  shows "worker_loop out (\<lambda>t. rx_iter k (ret t)) (\<lambda>g. sz (rx_q g ! k)) t h acc = None"
proof (rule rx_server.stalls_at_end [OF assms(7), of cap h])
  show "rx_server.in_order cap ip k arr h"
    unfolding rx_server.in_order_def using assms(1,2,8) by simp
  note d = stillD [OF assms(1)]
  show "1 < n_slots (row 34 (rx_q h ! k))" "at_in (row 34 (rx_q h ! k)) = n_slots (row 34 (rx_q h ! k)) - 1"
    "at_out (row 34 (rx_q h ! k)) = n_slots (row 34 (rx_q h ! k)) - 1"
    using d(9,13) assms(3,4) by simp_all
qed (use assms in simp_all)

end
