(* ===== verification/Typing.thy ===== *)
theory Typing
  imports Threads
begin

text \<open>
  What the traffic threads never change: a session stays well typed, its constants and the layout
  of its rings in memory stay what they were set to, whatever passes the threads of the session
  make, in whatever order, and whatever the kernel answers.
\<close>

section \<open>The layout of a ring\<close>

definition layout :: "RNG \<Rightarrow> u32 \<times> nat \<times> nat \<times> nat \<times> nat \<times> nat" where
  "layout b = (header b, footer b, bindex b, ethernet_frame b, ipheader b, bdata b)"

definition ring_fixed :: "Q \<Rightarrow> u32 \<times> u32 \<times> nat \<times> (u32 \<times> nat \<times> nat \<times> nat \<times> nat \<times> nat) list" where
  "ring_fixed q = (bsz q, rsz q, length (pool q), map layout (R q))"

named_theorems fixed_simps \<open>operations that keep the layout of a ring\<close>

lemma layout_updates [simp]: "layout (b\<lparr>blen := n\<rparr>) = layout b" "layout (b\<lparr>block_lock := l\<rparr>) = layout b"
  by (simp_all add: layout_def)

lemma ring_fixed_updates [fixed_simps]:
  "ring_fixed (q\<lparr>q_in := x\<rparr>) = ring_fixed q" "ring_fixed (q\<lparr>q_out := x\<rparr>) = ring_fixed q"
  "ring_fixed (q\<lparr>sz := x\<rparr>) = ring_fixed q" "ring_fixed (q\<lparr>full := y\<rparr>) = ring_fixed q"
  "ring_fixed (q\<lparr>qlock := w\<rparr>) = ring_fixed q" "ring_fixed (q\<lparr>qts := ts\<rparr>) = ring_fixed q"
  "ring_fixed (q\<lparr>spins := n\<rparr>) = ring_fixed q" "ring_fixed (q\<lparr>qid := x\<rparr>) = ring_fixed q"
  by (simp_all add: ring_fixed_def)

lemma ring_fixed_slots [fixed_simps]:
  "ring_fixed (set_slot_lock j l q) = ring_fixed q" "ring_fixed (unlock_slot j q) = ring_fixed q"
  "ring_fixed (set_blen j n q) = ring_fixed q" "ring_fixed (next_interval q) = ring_fixed q"
  "ring_fixed (unlock_queue q) = ring_fixed q"
  by (simp_all add: ring_fixed_def set_slot_lock_def unlock_slot_def set_blen_def next_interval_def
      unlock_queue_def map_upd_at_same)

lemma ring_fixed_reset [fixed_simps]: "ring_fixed (reset_ring q) = ring_fixed q"
proof -
  have "map layout (take n xs) @ map layout (drop n xs) = map layout xs" for n xs
    by (simp flip: map_append)
  then show ?thesis by (simp add: ring_fixed_def reset_ring_def comp_def)
qed

lemma ring_fixed_commit [fixed_simps]:
  "ring_fixed (commit_push j q) = ring_fixed q" "ring_fixed (commit_pop j q) = ring_fixed q"
  by (simp_all add: commit_push_def commit_pop_def Let_def fixed_simps)

lemma write_pool_fixed: "write_pool off bs q = Inr q' \<Longrightarrow> ring_fixed q' = ring_fixed q"
  by (auto simp: write_pool_def ring_fixed_def write_at_length split: sum.splits)

lemma read_into_fixed: "read_into off j answer q = Inr q' \<Longrightarrow> ring_fixed q' = ring_fixed q"
  by (auto simp: read_into_def fixed_simps split: option.splits sum.splits dest: write_pool_fixed)

lemma tx_io_poll_fixed: "tx_io_poll j ev q = Inr q' \<Longrightarrow> ring_fixed q' = ring_fixed q"
  by (auto simp: tx_io_poll_def tx_encap_def Let_def split: sum.splits if_splits
      dest!: read_into_fixed write_pool_fixed)

lemma tx_io_fill_fixed: "tx_io_fill j evs q = Some (Inr (q', evs')) \<Longrightarrow> ring_fixed q' = ring_fixed q"
  by (induction j evs q rule: tx_io_fill.induct) (auto split: sum.splits if_splits dest: tx_io_poll_fixed)

lemma rx_io_poll_fixed: "rx_io_poll ip j ev q = Inr (nope, q') \<Longrightarrow> ring_fixed q' = ring_fixed q"
  by (auto simp: rx_io_poll_def split: sum.splits if_splits dest: read_into_fixed)

lemma rx_io_fill_fixed: "rx_io_fill ip j evs q = Some (Inr (q', evs')) \<Longrightarrow> ring_fixed q' = ring_fixed q"
  by (induction ip j evs q rule: rx_io_fill.induct)
    (auto simp: fixed_simps split: sum.splits if_splits prod.splits dest: rx_io_poll_fixed)

lemma push_fixed: "ring_wf q \<Longrightarrow> push q = Some (Inr (p, q')) \<Longrightarrow> ring_fixed q' = ring_fixed q"
  by (auto simp: push_outcome fixed_simps split: if_splits option.splits)

lemma pop_fixed: "ring_wf q \<Longrightarrow> pop q = Some (Inr (p, q')) \<Longrightarrow> ring_fixed q' = ring_fixed q"
  by (erule (1) pop_cases) (simp_all add: fixed_simps)

text \<open>A pass over a ring keeps it well formed and its layout.\<close>

definition same_type :: "Q \<Rightarrow> Q \<Rightarrow> bool" where
  "same_type q q' \<longleftrightarrow> ring_wf q' \<and> ring_fixed q' = ring_fixed q"

lemma tx_io_queue_type:
  assumes "ring_wf q" and "tx_io_queue evs q = Some (Inr (n, evs', q'))"
  shows "same_type q q'"
  using assms tx_io_queue_wf [OF assms] push_fixed [OF assms(1)]
  by (auto simp: same_type_def tx_io_queue_def fixed_simps split: option.splits sum.splits ring_ptr.splits
      dest!: tx_io_fill_fixed)

lemma rx_io_queue_type:
  assumes "ring_wf q" and "rx_io_queue ip evs q = Some (Inr (evs', q'))"
  shows "same_type q q'"
  using assms rx_io_queue_wf [OF assms] push_fixed [OF assms(1)]
  by (auto simp: same_type_def rx_io_queue_def fixed_simps split: option.splits sum.splits ring_ptr.splits
      dest!: rx_io_fill_fixed)

lemma tx_queue_type:
  assumes "ring_wf q" and "tx_queue q = Some (Inr (p, f, q'))"
  shows "same_type q q'"
  using assms tx_queue_wf [OF assms] pop_fixed [OF assms(1)]
  by (auto simp: same_type_def tx_queue_def Let_def fixed_simps
      split: option.splits sum.splits ring_ptr.splits if_splits)

lemma rx_queue_type:
  assumes "ring_wf q" and "rx_queue q = Some (Inr (p, f, q'))"
  shows "same_type q q'"
  using assms rx_queue_wf [OF assms] pop_fixed [OF assms(1)]
  by (auto simp: same_type_def rx_queue_def Let_def fixed_simps
      split: option.splits sum.splits ring_ptr.splits if_splits)

section \<open>Sessions\<close>

text \<open>A session is well typed if it has as many rings as it says, each of them well formed.\<close>

definition rings_typed :: "int \<Rightarrow> int \<Rightarrow> Q list \<Rightarrow> bool" where
  "rings_typed n now qs \<longleftrightarrow> n = int (length qs) \<and> list_all ring_wf qs \<and> 0 \<le> now \<and> (now = 0 \<or> now < n)"

definition tx_typed :: "txq \<Rightarrow> bool" where "tx_typed h \<longleftrightarrow> rings_typed (tx_qnum h) (tx_qnow h) (tx_q h)"
definition rx_typed :: "rxq \<Rightarrow> bool" where "rx_typed h \<longleftrightarrow> rings_typed (rx_qnum h) (rx_qnow h) (rx_q h)"

definition tx_fixed where
  "tx_fixed h = ((tx_type h, tx_ifname h, tx_tifname h, tx_fd h, tx_af h, tx_mtu h, tx_qnum h),
     (tx_peer_ip h, tx_my_ip h, tx_lb_delay h, tx_sll h, tx_pcx h, map ring_fixed (tx_q h)))"

definition rx_fixed where
  "rx_fixed h = ((rx_type h, rx_ifname h, rx_tifname h, rx_fd h, rx_af h, rx_mtu h, rx_tmtu h, rx_qnum h),
     (rx_peer_ip h, rx_my_ip h, rx_lb_delay h, rx_sll h, rx_pcx h, map ring_fixed (rx_q h)))"

text \<open>What a thread of the session can do in one pass.\<close>

inductive tx_session_step :: "txq \<Rightarrow> txq \<Rightarrow> bool" where
  tx_io_passes: "tx_io_iter i evs h = done_with (i', evs', h') \<Longrightarrow> tx_session_step h h'"
| tx_starts: "worker_start h = Inr (k, h') \<Longrightarrow> tx_session_step h h'"
| tx_passes: "tx_iter k ret h = done_with (p, f, h') \<Longrightarrow> tx_session_step h h'"
| tx_lb_passes: "tx_lb_pass h = Inr h' \<Longrightarrow> tx_session_step h h'"

inductive rx_session_step :: "rxq \<Rightarrow> rxq \<Rightarrow> bool" where
  rx_io_passes: "rx_io_iter i evs h = done_with (i', evs', h') \<Longrightarrow> rx_session_step h h'"
| rx_starts: "rx_worker_start h = Inr (k, h') \<Longrightarrow> rx_session_step h h'"
| rx_passes: "rx_iter k ret h = done_with (p, f, h') \<Longrightarrow> rx_session_step h h'"
| rx_lb_passes: "rx_lb_pass h = Inr h' \<Longrightarrow> rx_session_step h h'"

lemma rings_typed_update:
  assumes "rings_typed n now qs" and "k < length qs" and "same_type (qs ! k) q"
  shows "rings_typed n now (qs[k := q])" and "map ring_fixed (qs[k := q]) = map ring_fixed qs"
proof -
  show "rings_typed n now (qs[k := q])"
    using assms by (auto simp: rings_typed_def same_type_def list_all_length nth_list_update)
  show "map ring_fixed (qs[k := q]) = map ring_fixed qs"
    using assms(2,3) by (simp add: map_update same_type_def list_update_same_conv)
qed

lemma rings_typed_nth: "rings_typed n now qs \<Longrightarrow> k < length qs \<Longrightarrow> ring_wf (qs ! k)"
  by (simp add: rings_typed_def list_all_length)

text \<open>The load balancers point into the array.\<close>

lemma lb_scan_in_range:
  assumes "lowest < i" and "0 \<le> now" and "now < int (i + length xs)"
  shows "0 \<le> lb_scan i lowest s now xs \<and> lb_scan i lowest s now xs < int (i + length xs)"
  using assms
proof (induction xs arbitrary: i lowest s now)
  case (Cons x xs)
  show ?case using Cons.IH [of i "Suc i" "int i"] Cons.IH [of lowest "Suc i" "int lowest"] Cons.prems by simp
qed simp

lemma tx_session_step_typed:
  assumes "tx_session_step h h'" and "tx_typed h"
  shows "tx_typed h' \<and> tx_fixed h' = tx_fixed h"
proof -
  note typed = assms(2) [unfolded tx_typed_def]
  show ?thesis
    using assms(1)
  proof cases
    case (tx_io_passes i evs i' evs')
    define k where "k = unat (next_queue i (tx_qnum h))"
    from tx_io_passes obtain n q where k: "k < length (tx_q h)" and q: "tx_io_queue evs (tx_q h ! k) = done_with (n, evs', q)"
      and h': "h' = (case n of None \<Rightarrow> h\<lparr>tx_q := (tx_q h)[k := q]\<rparr> | Some m \<Rightarrow> tx_count_in m (h\<lparr>tx_q := (tx_q h)[k := q]\<rparr>))"
      by (auto simp: tx_io_iter_def Let_def k_def split: if_splits option.splits sum.splits prod.splits)
    note up = rings_typed_update [OF typed k tx_io_queue_type [OF rings_typed_nth [OF typed k] q]]
    show ?thesis using up by (simp add: h' tx_typed_def tx_fixed_def tx_count_in_def split: option.split)
  next
    case (tx_starts k)
    then have k: "k < length (tx_q h)"
      and h': "h' = h\<lparr>tx_id := tx_id h + 1, tx_q := upd_at k (\<lambda>q. q\<lparr>qts := \<lparr>tv_sec = 0, tv_nsec = SLOWSPIN\<rparr>,
             spins := 0, qid := of_nat k\<rparr>) (tx_q h)\<rparr>"
      by (auto simp: worker_start_def Let_def split: if_splits)
    have "same_type q (q\<lparr>qts := ts, spins := n, qid := x\<rparr>)" if "ring_wf q" for q ts n x
      using that by (simp add: same_type_def fixed_simps) (simp add: ring_wf_def)
    note up = rings_typed_update [OF typed k this [OF rings_typed_nth [OF typed k]]]
    show ?thesis using up by (simp add: h' tx_typed_def tx_fixed_def upd_at_def)
  next
    case (tx_passes k ret p f)
    then obtain q where k: "k < length (tx_q h)" and q: "tx_queue (tx_q h ! k) = done_with (p, f, q)"
      and h': "tx_fixed h' = tx_fixed (h\<lparr>tx_q := (tx_q h)[k := q]\<rparr>)" "tx_typed h' = tx_typed (h\<lparr>tx_q := (tx_q h)[k := q]\<rparr>)"
      by (auto simp: tx_iter_def Let_def tx_fixed_def tx_typed_def split: if_splits option.splits sum.splits prod.splits)
    note up = rings_typed_update [OF typed k tx_queue_type [OF rings_typed_nth [OF typed k] q]]
    show ?thesis using up unfolding h' by (simp add: tx_typed_def tx_fixed_def)
  next
    case tx_lb_passes
    have n: "nat (tx_qnum h) = length (tx_q h)" using typed by (simp add: rings_typed_def)
    obtain q qs where qs: "tx_q h = q # qs"
      using tx_lb_passes by (cases "tx_q h") (auto simp: tx_lb_pass_def)
    with n tx_lb_passes have h': "h' = h\<lparr>tx_qnow := lb_scan 1 0 (sz q) (tx_qnow h) qs\<rparr>"
      by (simp add: tx_lb_pass_def)
    have "0 \<le> lb_scan 1 0 (sz q) (tx_qnow h) qs \<and> lb_scan 1 0 (sz q) (tx_qnow h) qs < int (length qs) + 1"
      using lb_scan_in_range [of 0 1 "tx_qnow h" qs "sz q"] typed qs by (auto simp: rings_typed_def)
    then show ?thesis using typed qs by (auto simp: h' tx_typed_def tx_fixed_def rings_typed_def)
  qed
qed


lemma rx_session_step_typed:
  assumes "rx_session_step h h'" and "rx_typed h"
  shows "rx_typed h' \<and> rx_fixed h' = rx_fixed h"
proof -
  note typed = assms(2) [unfolded rx_typed_def]
  show ?thesis
    using assms(1)
  proof cases
    case (rx_io_passes i evs i' evs')
    define k where "k = unat i"
    from rx_io_passes obtain q where k: "k < length (rx_q h)"
      and q: "rx_io_queue (rx_peer_ip h) evs (rx_q h ! k) = done_with (evs', q)"
      and h': "h' = h\<lparr>rx_q := (rx_q h)[k := q]\<rparr>"
      by (auto simp: rx_io_iter_def Let_def k_def split: if_splits option.splits sum.splits prod.splits)
    note up = rings_typed_update [OF typed k rx_io_queue_type [OF rings_typed_nth [OF typed k] q]]
    show ?thesis using up by (simp add: h' rx_typed_def rx_fixed_def)
  next
    case (rx_starts k)
    then have k: "k < length (rx_q h)"
      and h': "h' = h\<lparr>rx_id := rx_id h + 1, rx_q := upd_at k (\<lambda>q. q\<lparr>qid := of_nat k\<rparr>) (rx_q h)\<rparr>"
      by (auto simp: rx_worker_start_def Let_def split: if_splits)
    have "same_type q (q\<lparr>qid := x\<rparr>)" if "ring_wf q" for q x
      using that by (simp add: same_type_def fixed_simps) (simp add: ring_wf_def)
    note up = rings_typed_update [OF typed k this [OF rings_typed_nth [OF typed k]]]
    show ?thesis using up by (simp add: h' rx_typed_def rx_fixed_def upd_at_def)
  next
    case (rx_passes k ret p f)
    then obtain q where k: "k < length (rx_q h)" and q: "rx_queue (rx_q h ! k) = done_with (p, f, q)"
      and h': "rx_fixed h' = rx_fixed (h\<lparr>rx_q := (rx_q h)[k := q]\<rparr>)" "rx_typed h' = rx_typed (h\<lparr>rx_q := (rx_q h)[k := q]\<rparr>)"
      by (auto simp: rx_iter_def Let_def rx_fixed_def rx_typed_def split: if_splits option.splits sum.splits prod.splits)
    note up = rings_typed_update [OF typed k rx_queue_type [OF rings_typed_nth [OF typed k] q]]
    show ?thesis using up unfolding h' by (simp add: rx_typed_def rx_fixed_def)
  next
    case rx_lb_passes
    have n: "nat (rx_qnum h) = length (rx_q h)" using typed by (simp add: rings_typed_def)
    obtain q qs where qs: "rx_q h = q # qs"
      using rx_lb_passes by (cases "rx_q h") (auto simp: rx_lb_pass_def)
    with n rx_lb_passes have h': "h' = h\<lparr>rx_qnow := lb_scan 1 0 (sz q) (rx_qnow h) qs\<rparr>"
      by (simp add: rx_lb_pass_def)
    have "0 \<le> lb_scan 1 0 (sz q) (rx_qnow h) qs \<and> lb_scan 1 0 (sz q) (rx_qnow h) qs < int (length qs) + 1"
      using lb_scan_in_range [of 0 1 "rx_qnow h" qs "sz q"] typed qs by (auto simp: rings_typed_def)
    then show ?thesis using typed qs by (auto simp: h' rx_typed_def rx_fixed_def rings_typed_def)
  qed
qed


section \<open>Properties\<close>

text \<open>
  C19: the threads of a session keep it well typed: whatever passes the IO thread, the workers and
  the load balancer make, in whatever order, however the kernel answers, the session has as many
  rings as it says, each ring well formed, and \<open>qnow\<close> is the index of one; its descriptors,
  addresses, names and sizes, and the size, the pool and the offsets of every descriptor of its
  rings, are those it was set up with.
\<close>

theorem sessions_stay_typed:
  assumes "tx_session_step\<^sup>*\<^sup>* h h'" and "tx_typed h" and "rx_session_step\<^sup>*\<^sup>* g g'" and "rx_typed g"
  shows "tx_typed h' \<and> tx_fixed h' = tx_fixed h \<and> rx_typed g' \<and> rx_fixed g' = rx_fixed g"
proof -
  have "tx_typed h' \<and> tx_fixed h' = tx_fixed h"
    using assms(1,2) by (induction rule: rtranclp_induct) (auto dest: tx_session_step_typed)
  moreover have "rx_typed g' \<and> rx_fixed g' = rx_fixed g"
    using assms(3,4) by (induction rule: rtranclp_induct) (auto dest: rx_session_step_typed)
  ultimately show ?thesis by blast
qed

theorem sessions_stay_typed_witness:
  "let h = sample_txq [sample_ring [0, 0, 0] 0 0 0]; g = sample_rxq [sample_ring [0, 1, 0] 1 0 1] in
   \<exists>h1 h2 g1. worker_start h = Inr (0, h1) \<and> tx_lb_pass h1 = Inr h2 \<and> rx_worker_start g = Inr (0, g1) \<and>
     tx_typed h2 \<and> tx_fixed h2 = tx_fixed h \<and> rx_typed g1 \<and> rx_fixed g1 = rx_fixed g"
proof -
  let ?h = "sample_txq [sample_ring [0, 0, 0] 0 0 0]" and ?g = "sample_rxq [sample_ring [0, 1, 0] 1 0 1]"
  obtain h1 where h1: "worker_start ?h = Inr (0, h1)" by (simp add: worker_start_def Let_def)
  have typed: "tx_typed ?h" "rx_typed ?g"
    by (simp_all add: tx_typed_def rx_typed_def rings_typed_def sample_txq_def sample_rxq_def sample_ring_wf)
  have "tx_qnum h1 = 1" "length (tx_q h1) = 1"
    using h1 by (auto simp: worker_start_def Let_def sample_txq_def)
  then obtain h2 where h2: "tx_lb_pass h1 = Inr h2" by (cases "tx_q h1") (simp_all add: tx_lb_pass_def)
  obtain g1 where g1: "rx_worker_start ?g = Inr (0, g1)" by (simp add: rx_worker_start_def Let_def)
  have "tx_session_step\<^sup>*\<^sup>* ?h h2" using tx_starts [OF h1] tx_lb_passes [OF h2] by simp
  moreover have "rx_session_step\<^sup>*\<^sup>* ?g g1" using rx_starts [OF g1] by simp
  ultimately show ?thesis using sessions_stay_typed typed h1 h2 g1 unfolding Let_def by blast
qed

end
