(* ===== verification/Support.thy ===== *)
theory Support
  imports Threads
begin

unbundle bit_operations_syntax

text \<open>
  Functions beside the path of the traffic: the hex dump \<^verbatim>\<open>trace_dump\<close>, \<^verbatim>\<open>set_fanout\<close> and \<^verbatim>\<open>free_map\<close>
  of \<^verbatim>\<open>network.c\<close>, the statistics of \<^verbatim>\<open>workers.c\<close>, the opening and closing of the configuration file in
  \<^verbatim>\<open>state.c\<close>, and the set-up of the encryption library in \<^verbatim>\<open>crypto.c\<close>. The library, \<^verbatim>\<open>setsockopt\<close>,
  \<^verbatim>\<open>fopen\<close> and the parser's initialisation are parameters.
\<close>

section \<open>The hex dump\<close>

text \<open>\<^verbatim>\<open>%i\<close> and \<^verbatim>\<open>%02x\<close> of \<^verbatim>\<open>printf\<close>.\<close>

definition print_int :: "int \<Rightarrow> string" where
  "print_int n = (if n < 0 then ''-'' @ dec (nat (- n)) else dec (nat n))"

definition hex_digit :: "nat \<Rightarrow> char" where
  "hex_digit n = (if n < 10 then char_of (48 + n) else char_of (87 + n))"

definition hex2 :: "u8 \<Rightarrow> string" where
  "hex2 b = [hex_digit (unat b div 16), hex_digit (unat b mod 16)]"

definition escape :: "string \<Rightarrow> string" where "escape s = CHR 0x1B # s"

definition crlf :: string where "crlf = [CHR 0x0D, CHR 0x0A]"

definition star_line :: string where
  "star_line = ''******************************************************************************''"

definition dump_bytes :: "string \<Rightarrow> u8 list \<Rightarrow> string" where
  "dump_bytes hue bs = concat (map (\<lambda>b. escape hue @ hex2 b) bs)"

text \<open>
  The frame in slot \<open>j\<close>: the Ethernet header, the IP header and the payload. The line between the
  first two stands behind a NUL in its format, so only a line break is printed there.
\<close>

definition trace_dump :: "string \<Rightarrow> nat \<Rightarrow> Q \<Rightarrow> string res" where
  "trace_dump msg j q =
     (if length (R q) \<le> j then Inl (Fault OutOfBounds)
      else let b = R q ! j; n = max (ETH_HDRLEN + IP4_HDRLEN) (nat (blen b + int ETHIP4));
               frame = read_at (ethernet_frame b) n (pool q) in
        if length (pool q) < ethernet_frame b + n then Inl (Fault OutOfBounds)
        else Inr (crlf @ ''+----------------------------'' @ print_int (int (bindex b)) @ ''{'' @ msg @ ''}len:'' @
          print_int (blen b) @ ''-----------------------------------------+'' @ crlf @
          dump_bytes ''[1;32m'' (take ETH_HDRLEN frame) @ crlf @
          dump_bytes ''[1;33m'' (take IP4_HDRLEN (drop ETH_HDRLEN frame)) @
          crlf @ star_line @ crlf @
          dump_bytes ''[1;34m'' (drop ETHIP4 frame) @ [CHR 0x0A]))"

text \<open>Reading the digits back.\<close>

definition hex_value :: "char \<Rightarrow> nat" where
  "hex_value c = (if of_char c < (58 :: nat) then of_char c - 48 else of_char c - 87)"

fun undump :: "nat \<Rightarrow> string \<Rightarrow> u8 list" where
  "undump n s = (if length s < n + 2 then []
     else of_nat (16 * hex_value (s ! n) + hex_value (s ! (n + 1))) # undump n (drop (n + 2) s))"

declare undump.simps [simp del]

lemma hex_value_digit: "n < 16 \<Longrightarrow> hex_value (hex_digit n) = n"
  by (simp add: hex_value_def hex_digit_def)

lemma undump_dump: "undump (Suc (length hue)) (dump_bytes hue bs) = bs"
proof (induction bs)
  case Nil
  then show ?case by (simp add: dump_bytes_def undump.simps)
next
  case (Cons b bs)
  let ?rest = "dump_bytes hue bs"
  let ?s = "(escape hue @ [hex_digit (unat b div 16)]) @ [hex_digit (unat b mod 16)] @ ?rest"
  have s: "dump_bytes hue (b # bs) = ?s" by (simp add: dump_bytes_def hex2_def)
  have n: "length (escape hue) = Suc (length hue)" by (simp add: escape_def)
  have "?s ! Suc (length hue) = hex_digit (unat b div 16)"
    "?s ! (Suc (length hue) + 1) = hex_digit (unat b mod 16)" "drop (Suc (length hue) + 2) ?s = ?rest"
    using n by (simp_all add: nth_append)
  moreover have "unat b < 256" using unsigned_less [of b] by simp
  moreover from this have "unat b div 16 < 16" by (simp add: less_mult_imp_div_less)
  moreover have "of_nat (16 * (unat b div 16) + unat b mod 16) = b" by simp
  ultimately show ?case
    using n Cons.IH unfolding s by (subst undump.simps) (simp add: hex_value_digit)
qed

lemma undump_7: "length hue = 6 \<Longrightarrow> undump 7 (dump_bytes hue bs) = bs"
  using undump_dump [of hue bs] by (simp only:) (simp add: eval_nat_numeral)

section \<open>Sockets and memory\<close>

definition PACKET_FANOUT_CPU :: int where "PACKET_FANOUT_CPU = 2"

text \<open>\<open>setsockopt\<close> is asked for the fanout of socket \<open>af\<close>; a failure ends the process.\<close>

definition set_fanout ::
  "settings \<Rightarrow> (int \<Rightarrow> int \<Rightarrow> 'w \<Rightarrow> int \<times> 'w) \<Rightarrow> int \<Rightarrow> int \<Rightarrow> 'w \<Rightarrow> message list \<times> 'w res" where
  "set_fanout g setsockopt fanout_id af w =
     (let (r, w1) = setsockopt af (fanout_id OR PACKET_FANOUT_CPU) w in
      if r = 0 then ([], Inr w1)
      else case die g 1 (''Error setting AF_PACKET Fanout'' @ [CHR 0x0A]) of
          (ms, Inl e) \<Rightarrow> (ms, Inl e)
        | (ms, Inr _) \<Rightarrow> (ms, Inr w1))"

text \<open>A map session is freed as the other sessions are.\<close>

record mapq =
  map_type :: int
  map_ifname :: string
  map_mapifname :: string
  map_id :: i32
  map_fd :: int
  map_mtu :: int
  map_af :: int
  map_afmap :: int
  map_lost_in :: i32
  map_lost_out :: i32
  map_packets_in :: i32
  map_packets_out :: i32
  map_bytes_in :: i32
  map_bytes_out :: i32
  map_lb_delay :: timespec
  map_sll :: sockaddr_ll
  map_sllmap :: sockaddr_ll
  map_pcx :: ptr
  map_q :: "Q list"

definition free_map :: "mapq \<Rightarrow> freed list res" where "free_map h = free_session (map_q h)"

section \<open>Statistics\<close>

text \<open>
  What \<^verbatim>\<open>snprintf (type, 30, s)\<close> stores: at most 29 characters and a NUL. The statistics functions
  print nothing, since their output is commented out: they only fill a local array of 32 characters
  with the name of the session's type.
\<close>

definition snprintf_30 :: "string \<Rightarrow> string" where
  "snprintf_30 s = take 29 s @ [NUL]"

definition print_tx_stats :: "txq \<Rightarrow> string" where
  "print_tx_stats h = snprintf_30 (type_name (tx_type h))"

definition print_rx_stats :: "rxq \<Rightarrow> string" where
  "print_rx_stats h = snprintf_30 (type_name (rx_type h))"

definition print_map_stats :: "mapq \<Rightarrow> string" where
  "print_map_stats h = snprintf_30 (type_name (map_type h))"

section \<open>Opening and closing the configuration file\<close>

text \<open>
  The parser and the file of \<^verbatim>\<open>load_config\<close>. The arguments of \<^verbatim>\<open>open_config\<close> are the answers of
  \<^verbatim>\<open>yaml_parser_initialize\<close> and of \<^verbatim>\<open>fopen\<close>; a failure is printed to
  the standard error, and the loader goes on.
  \<^verbatim>\<open>unload_config\<close> closes both. Closing a null file is a fault.
\<close>

record config_source =
  parser_live :: bool
  config_file_handle :: "int option"

definition open_config :: "bool \<Rightarrow> int option \<Rightarrow> string list \<times> config_source" where
  "open_config initialised opened =
     ((if initialised then [] else [''Failed to initialize parser!'' @ [CHR 0x0A]]) @
      (if opened = None then [''Failed to open file!'' @ [CHR 0x0A]] else []),
      \<lparr>parser_live = initialised, config_file_handle = opened\<rparr>)"

definition unload_config :: "config_source \<Rightarrow> config_source res" where
  "unload_config c =
     (let c1 = c\<lparr>parser_live := False\<rparr> in
      if config_file_handle c1 = None then Inl (Fault NullDeref) else Inr (c1\<lparr>config_file_handle := None\<rparr>))"

section \<open>The encryption library\<close>

datatype gcry_command = SuspendSecmemWarn | InitSecmem int | ResumeSecmemWarn | InitializationFinished

text \<open>
  Each call of \<^verbatim>\<open>gcry_control\<close> gives an error code, and the codes are joined. The second argument
  says whether \<^verbatim>\<open>gcry_check_version\<close> accepts the version.
\<close>

fun gcry_controls :: "(gcry_command \<Rightarrow> 'w \<Rightarrow> u32 \<times> 'w) \<Rightarrow> gcry_command list \<Rightarrow> u32 \<Rightarrow> 'w \<Rightarrow> u32 \<times> 'w" where
  "gcry_controls control [] err w = (err, w)"
| "gcry_controls control (c # cs) err w = (let (e, w1) = control c w in gcry_controls control cs (err OR e) w1)"

definition init_gcrypt ::
  "settings \<Rightarrow> bool \<Rightarrow> (gcry_command \<Rightarrow> 'w \<Rightarrow> u32 \<times> 'w) \<Rightarrow> 'w \<Rightarrow> message list \<times> 'w res" where
  "init_gcrypt g version_ok control w =
     (case (if version_ok then ([], Inr ()) else die g 1 ''gcrypt: library version mismatch'') of
        (ms, Inl e) \<Rightarrow> (ms, Inl e)
      | (ms, Inr _) \<Rightarrow>
          (let (err, w1) = gcry_controls control
             [SuspendSecmemWarn, InitSecmem 16384, ResumeSecmemWarn, InitializationFinished] 0 w in
           if err = 0 then (ms, Inr w1)
           else case die g 1 ''gcrypt: failed initialization'' of
               (ms1, Inl e) \<Rightarrow> (ms @ ms1, Inl e)
             | (ms1, Inr _) \<Rightarrow> (ms @ ms1, Inr w1)))"

definition start_gcrypt ::
  "settings \<Rightarrow> bool \<Rightarrow> (gcry_command \<Rightarrow> 'w \<Rightarrow> u32 \<times> 'w) \<Rightarrow> 'w \<Rightarrow> message list \<times> (int \<times> 'w) res" where
  "start_gcrypt g version_ok control w =
     (case init_gcrypt g version_ok control w of (ms, Inl e) \<Rightarrow> (ms, Inl e) | (ms, Inr w1) \<Rightarrow> (ms, Inr (1, w1)))"

text \<open>The functions of \<^verbatim>\<open>state.c\<close> that do nothing but return 1.\<close>

definition start_threads :: int where "start_threads = 1"
definition stop_gcrypt :: int where "stop_gcrypt = 1"
definition stop_networking :: int where "stop_networking = 1"
definition stop_threads :: int where "stop_threads = 1"

text \<open>The answers of the library, one command after the other.\<close>

fun gcry_answers :: "(gcry_command \<Rightarrow> 'w \<Rightarrow> u32 \<times> 'w) \<Rightarrow> gcry_command list \<Rightarrow> 'w \<Rightarrow> u32 list" where
  "gcry_answers control [] w = []"
| "gcry_answers control (c # cs) w = (let (e, w1) = control c w in e # gcry_answers control cs w1)"

lemma or_zero_iff: "x OR y = 0 \<longleftrightarrow> x = 0 \<and> y = (0 :: u32)"
  by (rule or_eq_0_iff)

lemma gcry_controls_zero:
  "fst (gcry_controls control cs err w) = 0 \<longleftrightarrow> err = 0 \<and> (\<forall>e \<in> set (gcry_answers control cs w). e = 0)"
  by (induction cs arbitrary: err w) (auto simp: Let_def or_zero_iff split: prod.split)

section \<open>Theorems\<close>

text \<open>The dump shows every byte of the frame: its digits, read back, are the frame.\<close>

theorem trace_dump_shows_frame:
  assumes "trace_dump msg j q = Inr s" and "0 \<le> blen (R q ! j)"
  shows "\<exists>h a b c. s = h @ a @ crlf @ b @ crlf @
      star_line @ crlf @ c @ [CHR 0x0A] \<and>
    undump 7 a @ undump 7 b @ undump 7 c =
      read_at (ethernet_frame (R q ! j)) (34 + nat (blen (R q ! j))) (pool q)"
proof -
  let ?b = "R q ! j"
  let ?frame = "read_at (ethernet_frame ?b) (34 + nat (blen ?b)) (pool q)"
  let ?h = "crlf @ ''+----------------------------'' @ print_int (int (bindex ?b)) @ ''{'' @ msg @ ''}len:'' @
    print_int (blen ?b) @ ''-----------------------------------------+'' @ crlf"
  have n: "max (ETH_HDRLEN + IP4_HDRLEN) (nat (blen ?b + int ETHIP4)) = 34 + nat (blen ?b)"
    using assms(2) by (simp add: frame_consts nat_add_distrib max_def)
  have "s = ?h @ dump_bytes ''[1;32m'' (take 14 ?frame) @ crlf @ dump_bytes ''[1;33m'' (take 20 (drop 14 ?frame)) @
      crlf @ star_line @ crlf @
      dump_bytes ''[1;34m'' (drop 34 ?frame) @ [CHR 0x0A]"
    using assms(1) unfolding trace_dump_def Let_def n by (simp add: frame_consts split: if_splits)
  moreover have "take 20 (drop 14 x) @ drop 34 x = drop 14 x" for x :: "u8 list"
    using append_take_drop_id [of 20 "drop 14 x"] by simp
  then have whole: "take 14 x @ take 20 (drop 14 x) @ drop 34 x = x" for x :: "u8 list" by simp
  have "undump 7 (dump_bytes ''[1;32m'' (take 14 ?frame)) @ undump 7 (dump_bytes ''[1;33m'' (take 20 (drop 14 ?frame))) @
      undump 7 (dump_bytes ''[1;34m'' (drop 34 ?frame)) = ?frame"
    using undump_7 [of "''[1;32m''"] undump_7 [of "''[1;33m''"] undump_7 [of "''[1;34m''"] whole [of ?frame] by simp
  ultimately show ?thesis by blast
qed

text \<open>No name of a type is cut, and the array of 32 characters holds each.\<close>

theorem stats_hold_the_type:
  "print_tx_stats t = type_name (tx_type t) @ [NUL] \<and> length (print_tx_stats t) \<le> 32"
  "print_rx_stats r = type_name (rx_type r) @ [NUL] \<and> length (print_rx_stats r) \<le> 32"
  "print_map_stats m = type_name (map_type m) @ [NUL] \<and> length (print_map_stats m) \<le> 32"
proof -
  have "snprintf_30 (type_name n) = type_name n @ [NUL] \<and> length (snprintf_30 (type_name n)) \<le> 32" for n
    by (simp add: snprintf_30_def type_name_def)
  then show
    "print_tx_stats t = type_name (tx_type t) @ [NUL] \<and> length (print_tx_stats t) \<le> 32"
    "print_rx_stats r = type_name (rx_type r) @ [NUL] \<and> length (print_rx_stats r) \<le> 32"
    "print_map_stats m = type_name (map_type m) @ [NUL] \<and> length (print_map_stats m) \<le> 32"
    unfolding print_tx_stats_def print_rx_stats_def print_map_stats_def by blast+
qed

text \<open>
  A file that was opened is closed with the parser; one that was not is only reported, and closing
  it is a fault.
\<close>

theorem unload_config_closes:
  "(\<exists>ms c. open_config ok f = (ms, c) \<and>
     (case f of
        Some n \<Rightarrow> unload_config c = Inr \<lparr>parser_live = False, config_file_handle = None\<rparr>
      | None \<Rightarrow> ''Failed to open file!'' @ [CHR 0x0A] \<in> set ms \<and> unload_config c = Inl (Fault NullDeref)))"
  by (cases f) (simp_all add: open_config_def unload_config_def)

text \<open>
  The encryption library is set up exactly when its version fits and none of the four commands
  gives an error; all four are given even after an error, and any failure ends the process.
\<close>

theorem start_gcrypt_result:
  "(\<exists>ms w'. start_gcrypt g version_ok control w = (ms, Inr (1, w'))) \<longleftrightarrow>
     version_ok \<and> (\<forall>e \<in> set (gcry_answers control
       [SuspendSecmemWarn, InitSecmem 16384, ResumeSecmemWarn, InitializationFinished] w). e = 0)"
  "(\<exists>ms w'. start_gcrypt g version_ok control w = (ms, Inr (1, w'))) \<or>
     (\<exists>ms. start_gcrypt g version_ok control w = (ms, Inl (Exit 1)))"
proof -
  let ?cs = "[SuspendSecmemWarn, InitSecmem 16384, ResumeSecmemWarn, InitializationFinished]"
  obtain err w1 where c: "gcry_controls control ?cs 0 w = (err, w1)" by (cases "gcry_controls control ?cs 0 w")
  have zero: "err = 0 \<longleftrightarrow> (\<forall>e \<in> set (gcry_answers control ?cs w). e = 0)"
    using gcry_controls_zero [of control ?cs 0 w] c by simp
  show "(\<exists>ms w'. start_gcrypt g version_ok control w = (ms, Inr (1, w'))) \<longleftrightarrow>
     version_ok \<and> (\<forall>e \<in> set (gcry_answers control ?cs w). e = 0)"
    "(\<exists>ms w'. start_gcrypt g version_ok control w = (ms, Inr (1, w'))) \<or>
     (\<exists>ms. start_gcrypt g version_ok control w = (ms, Inl (Exit 1)))"
    unfolding zero [symmetric]
    by (simp_all only: start_gcrypt_def init_gcrypt_def c) (auto simp: die_def)
qed

end
