(* ===== verification/Ringtest.thy ===== *)
theory Ringtest
  imports Fifo "HOL-Library.Signed_Division"
begin

text \<open>
  The ring test \<^verbatim>\<open>ringtst.c\<close>, a program of its own: a ring of bytes in blocks of \<open>bsz\<close>, and ten
  threads that store into it and ten that take from it, under one mutex. The ring is a second
  instance of the queue interface of theory \<^verbatim>\<open>Fifo\<close>. The mutex is the library's: it is given to
  one thread at a time, so what a thread does inside it is one step. Printing and the random thread
  handles, which \<^verbatim>\<open>pthread_create\<close> overwrites, are left out.
\<close>

section \<open>The ring\<close>

text \<open>\<^verbatim>\<open>struct queue\<close> with the globals around it; \<open>None\<close> is a null \<open>rng\<close>.\<close>

record testq =
  t_bsz :: int
  t_rsz :: int
  t_total :: i32
  t_lost :: i32
  t_in :: int
  t_out :: int
  t_sz :: int
  t_rng :: "u8 list option"

text \<open>\<open>granted\<close> says whether \<^verbatim>\<open>calloc\<close> gives the memory.\<close>

definition init_test :: "(int \<Rightarrow> int \<Rightarrow> bool) \<Rightarrow> int \<Rightarrow> int \<Rightarrow> testq \<Rightarrow> testq res" where
  "init_test granted memory chunks q =
     (if chunks = 0 then Inl (Fault DivByZero)
      else let r = memory sdiv chunks in
        Inr (q\<lparr>t_bsz := chunks, t_rsz := r, t_in := 0, t_out := 0, t_sz := 0,
               t_rng := (if granted (r + chunks) chunks
                         then Some (replicate (nat ((r + chunks) * chunks)) 0) else None)\<rparr>))"

definition enqueue :: "u8 list \<Rightarrow> testq \<Rightarrow> (int \<times> testq) res" where
  "enqueue s q =
     (let q1 = (if t_rsz q - t_bsz q \<le> t_in q then q\<lparr>t_in := 0\<rparr> else q) in
      if t_rsz q \<le> t_sz q1 then Inr (1, q1\<lparr>t_lost := t_lost q1 + 1\<rparr>)
      else if length s < nat (t_bsz q) then Inl (Fault OutOfBounds)
      else case t_rng q1 of
        None \<Rightarrow> Inl (Fault NullDeref)
      | Some mem \<Rightarrow> (case write_at (nat (t_in q1)) (take (nat (t_bsz q)) s) mem of
          Inl e \<Rightarrow> Inl e
        | Inr mem1 \<Rightarrow> Inr (0, q1\<lparr>t_rng := Some mem1, t_in := t_in q1 + t_bsz q, t_sz := t_sz q1 + t_bsz q,
                                  t_total := t_total q1 + of_int (t_bsz q)\<rparr>)))"

text \<open>The result is the offset of the block, which stays where it is.\<close>

definition pop_test :: "testq \<Rightarrow> int option \<times> testq" where
  "pop_test q =
     (let q1 = (if t_rsz q - t_bsz q \<le> t_out q then q\<lparr>t_out := 0\<rparr> else q) in
      if t_sz q1 < t_bsz q then (None, q1)
      else (Some (t_out q1), q1\<lparr>t_sz := t_sz q1 - t_bsz q, t_out := t_out q1 + t_bsz q\<rparr>))"

section \<open>Invariant\<close>

text \<open>The cursors wrap after this many blocks.\<close>

definition slots :: "testq \<Rightarrow> nat" where
  "slots q = nat ((t_rsz q - 1) div t_bsz q)"

lemma slots_same [simp]:
  "slots (q\<lparr>t_in := x\<rparr>) = slots q" "slots (q\<lparr>t_out := x\<rparr>) = slots q" "slots (q\<lparr>t_sz := x\<rparr>) = slots q"
  "slots (q\<lparr>t_rng := m\<rparr>) = slots q" "slots (q\<lparr>t_total := w\<rparr>) = slots q" "slots (q\<lparr>t_lost := w\<rparr>) = slots q"
  by (simp_all add: slots_def)

text \<open>Block \<open>a\<close> is the next to write, \<open>b\<close> the next to read, and \<open>n\<close> blocks are stored.\<close>

definition lies :: "nat \<Rightarrow> nat \<Rightarrow> nat \<Rightarrow> testq \<Rightarrow> bool" where
  "lies a b n q \<longleftrightarrow> 0 < t_bsz q \<and> t_bsz q < t_rsz q \<and>
     (\<exists>mem. t_rng q = Some mem \<and> nat (t_rsz q + t_bsz q) \<le> length mem) \<and>
     t_in q = t_bsz q * int a \<and> t_out q = t_bsz q * int b \<and> t_sz q = t_bsz q * int n \<and>
     a \<le> slots q \<and> b \<le> slots q \<and> n \<le> Suc (slots q) \<and> (b + n) mod slots q = a mod slots q"

definition test_wf :: "testq \<Rightarrow> bool" where
  "test_wf q \<longleftrightarrow> (\<exists>a b n. lies a b n q)"

text \<open>Where the cursors wrap, and when the ring refuses.\<close>

lemma div_below: "0 < (b :: int) \<Longrightarrow> m div b < n \<longleftrightarrow> m < n * b"
proof -
  assume b: "0 < b"
  have m: "m = (m div b) * b + m mod b" "0 \<le> m mod b" "m mod b < b" using b by simp_all
  show ?thesis
  proof
    assume "m div b < n"
    then have "(m div b + 1) * b \<le> n * b" using b by (intro mult_right_mono) auto
    moreover have "(m div b + 1) * b = (m div b) * b + b" by (simp add: distrib_right)
    ultimately show "m < n * b" using m by linarith
  next
    assume "m < n * b"
    with m have "(m div b) * b < n * b" by linarith
    then show "m div b < n" using b by simp
  qed
qed

lemma at_wrap:
  assumes "0 < t_bsz q" and "t_bsz q < t_rsz q"
  shows "t_rsz q - t_bsz q \<le> t_bsz q * int a \<longleftrightarrow> slots q \<le> a"
proof -
  have "t_rsz q - t_bsz q \<le> t_bsz q * int a \<longleftrightarrow> t_rsz q - 1 < (int a + 1) * t_bsz q"
    by (auto simp: algebra_simps)
  also have "\<dots> \<longleftrightarrow> (t_rsz q - 1) div t_bsz q < int a + 1"
    by (rule div_below [OF assms(1), symmetric])
  finally show ?thesis by (simp add: slots_def) linarith
qed

lemma at_end:
  assumes "0 < t_bsz q" and "t_bsz q < t_rsz q"
  shows "t_rsz q \<le> t_bsz q * int n \<longleftrightarrow> slots q < n"
  using at_wrap [OF assms, of "n - 1"] assms by (cases n) (auto simp: algebra_simps)

lemma slots_pos: "0 < t_bsz q \<Longrightarrow> t_bsz q < t_rsz q \<Longrightarrow> 0 < slots q"
  using at_wrap [of q 0] by (cases "slots q = 0") auto

lemma block_inside:
  assumes "0 < t_bsz q" and "t_bsz q < t_rsz q" and "j < slots q"
  shows "t_bsz q * int j + t_bsz q < t_rsz q"
  using at_wrap [OF assms(1,2), of j] assms(3) by (simp add: algebra_simps)

lemma wrapped: "j \<le> n \<Longrightarrow> 0 < n \<Longrightarrow> (if n \<le> j then 0 else j) = j mod (n :: nat)"
  by auto

section \<open>Effects of the operations\<close>

lemma enqueue_effect:
  assumes "lies a b n q" and "t_bsz q \<le> int (length s)"
  shows "if n \<le> slots q
    then \<exists>mem mem'. t_rng q = Some mem \<and>
      write_at (nat (t_bsz q) * (a mod slots q)) (take (nat (t_bsz q)) s) mem = Inr mem' \<and>
      enqueue s q = Inr (0, q\<lparr>t_rng := Some mem', t_in := t_bsz q * int (Suc (a mod slots q)),
        t_sz := t_bsz q * int (Suc n), t_total := t_total q + of_int (t_bsz q)\<rparr>) \<and>
      lies (Suc (a mod slots q)) b (Suc n) (q\<lparr>t_rng := Some mem', t_in := t_bsz q * int (Suc (a mod slots q)),
        t_sz := t_bsz q * int (Suc n), t_total := t_total q + of_int (t_bsz q)\<rparr>)
    else enqueue s q = Inr (1, q\<lparr>t_in := t_bsz q * int (a mod slots q), t_lost := t_lost q + 1\<rparr>) \<and>
      lies (a mod slots q) b n (q\<lparr>t_in := t_bsz q * int (a mod slots q), t_lost := t_lost q + 1\<rparr>)"
proof -
  define a' where "a' = a mod slots q"
  note l = assms(1) [unfolded lies_def]
  have b: "0 < t_bsz q" "t_bsz q < t_rsz q" using l by simp_all
  note pos = slots_pos [OF b]
  have a': "a' < slots q" using pos by (simp add: a'_def)
  have "(if t_rsz q - t_bsz q \<le> t_in q then q\<lparr>t_in := 0\<rparr> else q) = q\<lparr>t_in := t_bsz q * int a'\<rparr>"
    using l at_wrap [OF b, of a] wrapped [of a "slots q"] pos by (auto simp: a'_def)
  note step = enqueue_def [of s q, unfolded this Let_def]
  show ?thesis
  proof (cases "n \<le> slots q")
    case True
    obtain mem where mem: "t_rng q = Some mem" "nat (t_rsz q + t_bsz q) \<le> length mem" using l by blast
    have off: "nat (t_bsz q * int a') = nat (t_bsz q) * a'" using b(1) by (simp add: nat_mult_distrib)
    have "int (nat (t_bsz q) * a' + nat (t_bsz q)) < t_rsz q" using block_inside [OF b a'] b(1) by simp
    then have "nat (t_bsz q) * a' + length (take (nat (t_bsz q)) s) \<le> length mem"
      using mem(2) b assms(2) by (simp del: of_nat_add of_nat_mult)
    then obtain mem' where w: "write_at (nat (t_bsz q) * a') (take (nat (t_bsz q)) s) mem = Inr mem'"
      using write_at_fits by blast
    have "enqueue s q = Inr (0, q\<lparr>t_rng := Some mem', t_in := t_bsz q * int (Suc a'),
        t_sz := t_bsz q * int (Suc n), t_total := t_total q + of_int (t_bsz q)\<rparr>)"
      unfolding step using True at_end [OF b, of n] l mem(1) w off assms(2) by (simp add: algebra_simps)
    moreover have "lies (Suc a') b (Suc n) (q\<lparr>t_rng := Some mem', t_in := t_bsz q * int (Suc a'),
        t_sz := t_bsz q * int (Suc n), t_total := t_total q + of_int (t_bsz q)\<rparr>)"
      using l True a' mem write_at_length [OF w] mod_Suc_eq [of a "slots q"] mod_Suc_eq [of "b + n" "slots q"]
      by (simp add: lies_def a'_def)
    ultimately show ?thesis using True mem(1) w unfolding a'_def by auto
  next
    case False
    then have "enqueue s q = Inr (1, q\<lparr>t_in := t_bsz q * int a', t_lost := t_lost q + 1\<rparr>)"
      unfolding step using at_end [OF b, of n] l by simp
    moreover have "lies a' b n (q\<lparr>t_in := t_bsz q * int a', t_lost := t_lost q + 1\<rparr>)"
      using l a' by (simp add: lies_def a'_def)
    ultimately show ?thesis using False by (simp add: a'_def)
  qed
qed

lemma pop_test_effect:
  assumes "lies a b n q"
  shows "pop_test q = (if n = 0 then (None, q\<lparr>t_out := t_bsz q * int (b mod slots q)\<rparr>)
      else (Some (t_bsz q * int (b mod slots q)),
        q\<lparr>t_sz := t_bsz q * int (n - 1), t_out := t_bsz q * int (Suc (b mod slots q))\<rparr>)) \<and>
    (n = 0 \<longrightarrow> lies a (b mod slots q) 0 (snd (pop_test q))) \<and>
    (n \<noteq> 0 \<longrightarrow> lies a (Suc (b mod slots q)) (n - 1) (snd (pop_test q)))"
proof -
  define b' where "b' = b mod slots q"
  note l = assms(1) [unfolded lies_def]
  have z: "0 < t_bsz q" "t_bsz q < t_rsz q" using l by simp_all
  note pos = slots_pos [OF z]
  have b': "b' < slots q" using pos by (simp add: b'_def)
  have "(if t_rsz q - t_bsz q \<le> t_out q then q\<lparr>t_out := 0\<rparr> else q) = q\<lparr>t_out := t_bsz q * int b'\<rparr>"
    using l at_wrap [OF z, of b] wrapped [of b "slots q"] pos by (auto simp: b'_def)
  note step = pop_test_def [of q, unfolded this Let_def]
  show ?thesis
  proof (cases n)
    case 0
    then have "pop_test q = (None, q\<lparr>t_out := t_bsz q * int b'\<rparr>)" unfolding step using l z by simp
    then show ?thesis using 0 l b' by (simp add: lies_def b'_def [symmetric])
  next
    case (Suc m)
    have "0 \<le> t_bsz q * int m" using z by (intro mult_nonneg_nonneg) simp_all
    moreover have "t_sz q = t_bsz q * int m + t_bsz q" using l Suc by (simp add: algebra_simps)
    ultimately have "\<not> t_sz q < t_bsz q" by linarith
    then have "pop_test q = (Some (t_bsz q * int b'), q\<lparr>t_sz := t_bsz q * int m, t_out := t_bsz q * int (Suc b')\<rparr>)"
      unfolding step using l Suc by (simp add: algebra_simps)
    moreover have "(Suc b' + m) mod slots q = a mod slots q"
      using l Suc mod_add_left_eq [of b "slots q" "Suc m"] by (simp add: b'_def)
    ultimately show ?thesis using Suc l b' by (simp add: lies_def b'_def [symmetric])
  qed
qed

section \<open>The ring as a queue\<close>

text \<open>The messages that wait, as long as no block was overwritten.\<close>

definition stored_blocks :: "testq \<Rightarrow> nat" where
  "stored_blocks q = nat (t_sz q div t_bsz q)"

definition test_block :: "testq \<Rightarrow> nat \<Rightarrow> u8 list" where
  "test_block q j = read_at (nat (t_bsz q) * j) (nat (t_bsz q)) (case t_rng q of None \<Rightarrow> [] | Some mem \<Rightarrow> mem)"

definition waiting :: "testq \<Rightarrow> u8 list list" where
  "waiting q = map (\<lambda>i. test_block q ((nat (t_out q div t_bsz q) + i) mod slots q)) [0..<stored_blocks q]"

definition test_inv :: "nat \<Rightarrow> testq \<Rightarrow> bool" where
  "test_inv width q \<longleftrightarrow> test_wf q \<and> nat (t_bsz q) = width \<and> stored_blocks q \<le> slots q"

definition test_room :: "testq \<Rightarrow> nat" where
  "test_room q = slots q - stored_blocks q"

text \<open>Storing a message, and taking one and reading the block at once.\<close>

definition test_put :: "u8 list \<Rightarrow> testq \<Rightarrow> testq option" where
  "test_put s q = (case enqueue s q of Inr (r, q1) \<Rightarrow> if r = 0 then Some q1 else None | Inl _ \<Rightarrow> None)"

definition test_get :: "testq \<Rightarrow> (u8 list option \<times> testq) option" where
  "test_get q = (case pop_test q of
     (None, q1) \<Rightarrow> Some (None, q1)
   | (Some p, q1) \<Rightarrow> Some (Some (read_at (nat p) (nat (t_bsz q1)) (case t_rng q1 of None \<Rightarrow> [] | Some mem \<Rightarrow> mem)), q1))"

lemma lies_counts:
  assumes "lies a b n q"
  shows "stored_blocks q = n" "nat (t_out q div t_bsz q) = b" "0 < t_bsz q" "0 < slots q"
  using assms slots_pos [of q] by (auto simp: lies_def stored_blocks_def)

lemma waiting_lies: "lies a b n q \<Longrightarrow> waiting q = map (\<lambda>i. test_block q ((b + i) mod slots q)) [0..<n]"
  by (simp add: waiting_def lies_counts)

lemma test_block_other:
  assumes "t_rng q = Some mem" and "write_at (nat (t_bsz q) * j) s mem = Inr mem'"
    and "length s = nat (t_bsz q)" and "i \<noteq> j"
  shows "read_at (nat (t_bsz q) * i) (nat (t_bsz q)) mem' = test_block q i"
proof -
  let ?z = "nat (t_bsz q)"
  have "?z * i + ?z \<le> ?z * j \<or> ?z * j + ?z \<le> ?z * i"
  proof (cases "i < j")
    case True
    then have "?z * Suc i \<le> ?z * j" by (intro mult_le_mono2) simp
    then show ?thesis by simp
  next
    case False
    then have "?z * Suc j \<le> ?z * i" using assms(4) by (intro mult_le_mono2) simp
    then show ?thesis by simp
  qed
  then show ?thesis
    using read_write_disjoint [OF assms(2), of "?z * i" ?z] assms(1,3) by (auto simp: test_block_def)
qed

lemma offsets_differ: "i < n \<Longrightarrow> n < (m :: nat) \<Longrightarrow> (b + i) mod m \<noteq> (b + n) mod m"
proof
  assume "i < n" "n < m" "(b + i) mod m = (b + n) mod m"
  then have "m dvd (b + n) - (b + i)" using mod_eq_dvd_iff_nat [of "b + i" "b + n" m] by simp
  then show False using \<open>i < n\<close> \<open>n < m\<close> by (auto dest: dvd_imp_le)
qed

lemma test_put_law:
  assumes "test_inv width q" and "length s = width" and "0 < test_room q"
  shows "\<exists>q'. test_put s q = Some q' \<and> test_inv width q' \<and> waiting q' = waiting q @ [s] \<and>
    test_room q \<le> Suc (test_room q')"
proof -
  obtain a b n where l: "lies a b n q" using assms(1) by (auto simp: test_inv_def test_wf_def)
  note c = lies_counts [OF l]
  have n: "n < slots q" using assms(3) c(1) by (simp add: test_room_def)
  have width: "nat (t_bsz q) = width" using assms(1) by (simp add: test_inv_def)
  then have fit: "t_bsz q \<le> int (length s)" "take (nat (t_bsz q)) s = s" using assms(2) c(3) by auto
  let ?a = "a mod slots q"
  obtain mem mem' where m: "t_rng q = Some mem" "write_at (nat (t_bsz q) * ?a) s mem = Inr mem'"
    "enqueue s q = Inr (0, q\<lparr>t_rng := Some mem', t_in := t_bsz q * int (Suc ?a),
        t_sz := t_bsz q * int (Suc n), t_total := t_total q + of_int (t_bsz q)\<rparr>)"
    "lies (Suc ?a) b (Suc n) (q\<lparr>t_rng := Some mem', t_in := t_bsz q * int (Suc ?a),
        t_sz := t_bsz q * int (Suc n), t_total := t_total q + of_int (t_bsz q)\<rparr>)"
    using enqueue_effect [OF l fit(1)] n fit(2) by auto
  define q' where "q' = q\<lparr>t_rng := Some mem', t_in := t_bsz q * int (Suc ?a),
        t_sz := t_bsz q * int (Suc n), t_total := t_total q + of_int (t_bsz q)\<rparr>"
  note l' = m(4) [folded q'_def]
  have sel: "t_bsz q' = t_bsz q" "slots q' = slots q" "t_rng q' = Some mem'" by (simp_all add: q'_def)
  have at: "?a = (b + n) mod slots q" using l by (simp add: lies_def)
  have "test_block q' ((b + i) mod slots q) = test_block q ((b + i) mod slots q)" if "i < n" for i
    using test_block_other [OF m(1,2), of "(b + i) mod slots q"] offsets_differ [OF that n] assms(2) width at
    by (simp add: test_block_def sel)
  moreover have "test_block q' ((b + n) mod slots q) = s"
    using read_write_same [OF m(2)] assms(2) width at by (simp add: test_block_def sel)
  ultimately have "waiting q' = waiting q @ [s]"
    unfolding waiting_lies [OF l'] waiting_lies [OF l] sel(2) by simp
  moreover have "test_inv width q'"
    using l' n lies_counts [OF l'] assms(1) by (auto simp: test_inv_def test_wf_def sel)
  moreover have "test_put s q = Some q'" by (simp add: test_put_def m(3) q'_def)
  ultimately show ?thesis using lies_counts(1) [OF l'] c(1) by (auto simp: test_room_def sel)
qed

lemma test_get_law:
  assumes "test_inv width q"
  shows "\<exists>f q'. test_get q = Some (f, q') \<and> test_inv width q' \<and> test_room q \<le> test_room q' \<and>
    (case waiting q of [] \<Rightarrow> f = None \<and> waiting q' = [] | s # ss \<Rightarrow> f = Some s \<and> waiting q' = ss)"
proof -
  obtain a b n where l: "lies a b n q" using assms(1) by (auto simp: test_inv_def test_wf_def)
  note c = lies_counts [OF l]
  define q' where "q' = snd (pop_test q)"
  note eff = pop_test_effect [OF l]
  have sel: "t_bsz q' = t_bsz q" "slots q' = slots q" "t_rng q' = t_rng q"
    using eff by (simp_all add: q'_def split: if_splits)
  have n: "n \<le> slots q" "nat (t_bsz q) = width" using assms c(1) by (simp_all add: test_inv_def)
  show ?thesis
  proof (cases n)
    case 0
    have l': "lies a (b mod slots q) 0 q'" using eff 0 unfolding q'_def by blast
    have pop: "pop_test q = (None, q')" using eff 0 by (cases "pop_test q") (simp add: q'_def)
    have "waiting q = []" "waiting q' = []" using waiting_lies [OF l] waiting_lies [OF l'] 0 by simp_all
    moreover have "test_inv width q'"
      using l' n lies_counts(1) [OF l'] by (auto simp: test_inv_def test_wf_def sel)
    ultimately show ?thesis
      using pop lies_counts(1) [OF l'] by (auto simp: test_get_def test_room_def sel)
  next
    case (Suc m)
    have l': "lies a (Suc (b mod slots q)) m q'" using eff Suc unfolding q'_def by (metis diff_Suc_1 nat.distinct(1))
    have pop: "pop_test q = (Some (t_bsz q * int (b mod slots q)), q')"
      using eff Suc by (cases "pop_test q") (simp add: q'_def)
    have "waiting q = test_block q (b mod slots q) # map (\<lambda>i. test_block q ((b + Suc i) mod slots q)) [0..<m]"
      using waiting_lies [OF l] Suc by (simp add: upt_conv_Cons map_Suc_upt [symmetric] del: upt_Suc)
    moreover have "waiting q' = map (\<lambda>i. test_block q ((b + Suc i) mod slots q)) [0..<m]"
      unfolding waiting_lies [OF l'] using mod_add_left_eq [of b "slots q"]
      by (simp add: test_block_def sel) (metis add_Suc_right)
    moreover have "nat (t_bsz q * int (b mod slots q)) = nat (t_bsz q) * (b mod slots q)"
      using c(3) by (simp add: nat_mult_distrib)
    then have "test_get q = Some (Some (test_block q (b mod slots q)), q')"
      using pop by (simp add: test_get_def test_block_def sel)
    moreover have "test_inv width q'"
      using l' n lies_counts(1) [OF l'] Suc by (auto simp: test_inv_def test_wf_def sel)
    ultimately show ?thesis
      using lies_counts(1) [OF l'] c(1) Suc by (simp add: test_room_def sel)
  qed
qed

interpretation test_ring: bounded_fifo test_put test_get "test_inv width" waiting test_room
  "\<lambda>s. length s = width" "(=)" for width
proof unfold_locales
  fix q s assume "test_inv width q" "s \<in> set (waiting q)"
  then obtain a b n where l: "lies a b n q" by (auto simp: test_inv_def test_wf_def)
  obtain j where j: "s = test_block q (j mod slots q)"
    using \<open>s \<in> set (waiting q)\<close> waiting_lies [OF l] by auto
  have "t_bsz q * int (j mod slots q) + t_bsz q < t_rsz q"
    using l lies_counts(4) [OF l] by (intro block_inside) (auto simp: lies_def)
  then have "int (nat (t_bsz q) * (j mod slots q) + nat (t_bsz q)) < t_rsz q" using lies_counts(3) [OF l] by simp
  moreover obtain mem where "t_rng q = Some mem" "nat (t_rsz q + t_bsz q) \<le> length mem"
    using l by (auto simp: lies_def)
  moreover have w: "nat (t_bsz q) = width" using \<open>test_inv width q\<close> by (simp add: test_inv_def)
  ultimately have "width * (j mod slots q) + width \<le> length mem"
    unfolding w [symmetric] using lies_counts(3) [OF l] by linarith
  then show "length s = width" using \<open>t_rng q = Some mem\<close> by (simp add: j test_block_def w)
next
  fix q s ss assume "test_inv width q" "waiting q = s # ss"
  then show "\<exists>b s'. test_get q = Some (Some b, s') \<and> b = s \<and> test_inv width s' \<and> waiting s' = ss \<and>
      test_room q \<le> test_room s'" using test_get_law [of width q] by auto
next
  fix q assume "test_inv width q" "waiting q = []"
  then show "\<exists>s'. test_get q = Some (None, s') \<and> test_inv width s' \<and> waiting s' = [] \<and>
      test_room q \<le> test_room s'" using test_get_law [of width q] by auto
qed (rule test_put_law)

section \<open>Twenty threads\<close>

text \<open>
  Threads 0 to 9 run \<^verbatim>\<open>input\<close>, 10 to 19 \<^verbatim>\<open>output\<close>. Each waits for the mutex, does its work inside,
  and leaves. The log says what the work of each gave.
\<close>

datatype test_at = Waits | Inside | Leaves

datatype seen = Stored nat | Dropped nat | Took nat int | Found_none nat

record test_sys =
  tq :: testq
  owner :: "nat option"
  loc :: "nat \<Rightarrow> test_at"
  seen_log :: "seen list"

definition test_message :: "int \<Rightarrow> nat \<Rightarrow> u8 list" where
  "test_message b i = replicate (nat b - 1) (of_nat (64 + i)) @ [0]"

inductive test_step :: "test_sys \<Rightarrow> test_sys \<Rightarrow> bool" where
  take_mutex: "i < 20 \<Longrightarrow> loc s i = Waits \<Longrightarrow> owner s = None \<Longrightarrow>
    test_step s (s\<lparr>owner := Some i, loc := (loc s)(i := Inside)\<rparr>)"
| run_input: "i < 10 \<Longrightarrow> loc s i = Inside \<Longrightarrow> enqueue (test_message (t_bsz (tq s)) i) (tq s) = Inr (r, q) \<Longrightarrow>
    test_step s (s\<lparr>tq := q, loc := (loc s)(i := Leaves),
      seen_log := seen_log s @ [if r = 0 then Stored i else Dropped i]\<rparr>)"
| run_output: "10 \<le> i \<Longrightarrow> i < 20 \<Longrightarrow> loc s i = Inside \<Longrightarrow> pop_test (tq s) = (p, q) \<Longrightarrow>
    test_step s (s\<lparr>tq := q, loc := (loc s)(i := Leaves),
      seen_log := seen_log s @ [case p of None \<Rightarrow> Found_none i | Some off \<Rightarrow> Took i off]\<rparr>)"
| give_mutex: "i < 20 \<Longrightarrow> loc s i = Leaves \<Longrightarrow>
    test_step s (s\<lparr>owner := None, loc := (loc s)(i := Waits)\<rparr>)"

inductive test_reach :: "test_sys \<Rightarrow> test_sys \<Rightarrow> bool" for s0 where
  at_start: "test_reach s0 s0"
| one_more: "test_reach s0 s \<Longrightarrow> test_step s s' \<Longrightarrow> test_reach s0 s'"

text \<open>\<^verbatim>\<open>main\<close>; \<open>malloced\<close> says which threads' arguments were allocated, which it does not check.\<close>

definition test_main :: "(int \<Rightarrow> int \<Rightarrow> bool) \<Rightarrow> (nat \<Rightarrow> bool) \<Rightarrow> test_sys res" where
  "test_main granted malloced =
     (case init_test granted 70000000 1500 \<lparr>t_bsz = 0, t_rsz = 0, t_total = 0, t_lost = 0, t_in = 0, t_out = 0,
         t_sz = 0, t_rng = None\<rparr> of
        Inl e \<Rightarrow> Inl e
      | Inr q \<Rightarrow> if list_all malloced [0..<20] then Inr \<lparr>tq = q, owner = None, loc = (\<lambda>_. Waits), seen_log = []\<rparr>
          else Inl (Fault NullDeref))"

fun is_stored :: "seen \<Rightarrow> bool" where "is_stored (Stored i) = True" | "is_stored _ = False"
fun is_dropped :: "seen \<Rightarrow> bool" where "is_dropped (Dropped i) = True" | "is_dropped _ = False"
fun is_taken :: "seen \<Rightarrow> bool" where "is_taken (Took i p) = True" | "is_taken _ = False"

text \<open>How often something was seen.\<close>

definition how_often :: "(seen \<Rightarrow> bool) \<Rightarrow> seen list \<Rightarrow> nat" where
  "how_often P xs = length (filter P xs)"

lemma how_often_simps [simp]: "how_often P [] = 0" "how_often P (xs @ [x]) = how_often P xs + (if P x then 1 else 0)"
  by (simp_all add: how_often_def)

text \<open>
  The invariant: the ring is in order, its size and its counters agree with what the threads saw,
  and the owner of the mutex is the only thread that is not waiting.
\<close>

definition test_ok :: "test_sys \<Rightarrow> bool" where
  "test_ok s \<longleftrightarrow> test_wf (tq s) \<and> t_bsz (tq s) = 1500 \<and>
     stored_blocks (tq s) + how_often is_taken (seen_log s) = how_often is_stored (seen_log s) \<and>
     t_total (tq s) = of_nat (1500 * how_often is_stored (seen_log s)) \<and>
     t_lost (tq s) = of_nat (how_often is_dropped (seen_log s)) \<and>
     (\<forall>i. loc s i \<noteq> Waits \<longleftrightarrow> owner s = Some i) \<and> (\<forall>i. owner s = Some i \<longrightarrow> i < 20)"

lemma enqueue_counts:
  assumes "test_wf q" and "t_bsz q \<le> int (length s)"
  shows "\<exists>r q'. enqueue s q = Inr (r, q') \<and> test_wf q' \<and> t_bsz q' = t_bsz q \<and>
    (if stored_blocks q \<le> slots q
     then r = 0 \<and> stored_blocks q' = Suc (stored_blocks q) \<and> t_total q' = t_total q + of_int (t_bsz q) \<and> t_lost q' = t_lost q
     else r = 1 \<and> stored_blocks q' = stored_blocks q \<and> t_total q' = t_total q \<and> t_lost q' = t_lost q + 1)"
proof -
  obtain a b n where l: "lies a b n q" using assms(1) by (auto simp: test_wf_def)
  note eff = enqueue_effect [OF l assms(2)] and c = lies_counts [OF l]
  show ?thesis
  proof (cases "n \<le> slots q")
    case True
    define g where "g mem' = q\<lparr>t_rng := Some mem', t_in := t_bsz q * int (Suc (a mod slots q)),
        t_sz := t_bsz q * int (Suc n), t_total := t_total q + of_int (t_bsz q)\<rparr>" for mem'
    obtain mem' where "enqueue s q = Inr (0, g mem')" "lies (Suc (a mod slots q)) b (Suc n) (g mem')"
      using eff True by (auto simp: g_def)
    then show ?thesis using True c(1) lies_counts(1) [of _ _ _ "g mem'"]
      by (auto simp: test_wf_def g_def)
  next
    case False
    define g where "g = q\<lparr>t_in := t_bsz q * int (a mod slots q), t_lost := t_lost q + 1\<rparr>"
    have "enqueue s q = Inr (1, g)" "lies (a mod slots q) b n g" using eff False by (simp_all add: g_def)
    then show ?thesis using False c(1) lies_counts(1) [of _ _ _ g] by (auto simp: test_wf_def g_def)
  qed
qed

lemma pop_test_counts:
  assumes "test_wf q" and "pop_test q = (p, q')"
  shows "test_wf q' \<and> t_bsz q' = t_bsz q \<and> t_total q' = t_total q \<and> t_lost q' = t_lost q \<and>
    (case p of None \<Rightarrow> stored_blocks q = 0 \<and> stored_blocks q' = 0
     | Some off \<Rightarrow> stored_blocks q = Suc (stored_blocks q'))"
proof -
  obtain a b n where l: "lies a b n q" using assms(1) by (auto simp: test_wf_def)
  note eff = pop_test_effect [OF l, unfolded assms(2) snd_conv] and c = lies_counts [OF l]
  show ?thesis
  proof (cases "n = 0")
    case True
    with eff have "p = None" and q': "q' = q\<lparr>t_out := t_bsz q * int (b mod slots q)\<rparr>"
      and l': "lies a (b mod slots q) 0 q'" by auto
    then show ?thesis using c(1) True lies_counts(1) [OF l'] by (auto simp: test_wf_def)
  next
    case False
    with eff have "p \<noteq> None" and q': "q' = q\<lparr>t_sz := t_bsz q * int (n - 1), t_out := t_bsz q * int (Suc (b mod slots q))\<rparr>"
      and l': "lies a (Suc (b mod slots q)) (n - 1) q'" by auto
    then show ?thesis using c(1) False lies_counts(1) [OF l'] by (auto simp: test_wf_def)
  qed
qed

lemma test_step_ok:
  assumes "test_step s s'" and "test_ok s"
  shows "test_ok s'"
  using assms(1)
proof cases
  case (take_mutex i)
  then show ?thesis using assms(2) by (auto simp: test_ok_def)
next
  case (run_input i r q)
  have "test_wf (tq s)" "t_bsz (tq s) \<le> int (length (test_message (t_bsz (tq s)) i))"
    using assms(2) by (simp_all add: test_ok_def test_message_def)
  from enqueue_counts [OF this] run_input(4) have q: "test_wf q" "t_bsz q = t_bsz (tq s)"
    "if stored_blocks (tq s) \<le> slots (tq s)
     then r = 0 \<and> stored_blocks q = Suc (stored_blocks (tq s)) \<and>
       t_total q = t_total (tq s) + of_int (t_bsz (tq s)) \<and> t_lost q = t_lost (tq s)
     else r = 1 \<and> stored_blocks q = stored_blocks (tq s) \<and> t_total q = t_total (tq s) \<and> t_lost q = t_lost (tq s) + 1"
    by (auto split: if_splits)
  have "loc s i \<noteq> Waits" using run_input(3) by simp
  then show ?thesis
    using q assms(2) run_input(1) by (auto simp: test_ok_def algebra_simps split: if_splits)
next
  case (run_output i p q)
  have "test_wf (tq s)" using assms(2) by (simp add: test_ok_def)
  note q = pop_test_counts [OF this run_output(5)]
  have "loc s i \<noteq> Waits" using run_output(4) by simp
  then show ?thesis
    using q assms(2) run_output(1) by (auto simp: test_ok_def split: option.splits)
next
  case (give_mutex i)
  then have own: "owner s = Some i" using assms(2) by (metis test_at.distinct(3) test_ok_def)
  have "loc s j = Waits" if "j \<noteq> i" for j using assms(2) own that unfolding test_ok_def by (metis option.inject)
  with give_mutex assms(2) show ?thesis by (auto simp: test_ok_def)
qed

lemma test_reach_ok: "test_reach s0 s \<Longrightarrow> test_ok s0 \<Longrightarrow> test_ok s"
  by (induction rule: test_reach.induct) (auto dest: test_step_ok)

lemma sdiv_pos: "0 \<le> x \<Longrightarrow> 0 \<le> y \<Longrightarrow> x sdiv y = x div (y :: int)"
  by (cases "x = 0"; cases "y = 0") (simp_all add: signed_divide_int_def)

lemma init_test_lies:
  assumes "0 < chunks" and "chunks < memory div chunks" and "granted (memory div chunks + chunks) chunks"
  shows "\<exists>q1. init_test granted memory chunks q = Inr q1 \<and> lies 0 0 0 q1 \<and> t_bsz q1 = chunks \<and>
    t_total q1 = t_total q \<and> t_lost q1 = t_lost q \<and> t_rsz q1 = memory div chunks"
proof -
  have "0 \<le> memory"
  proof (rule ccontr)
    assume "\<not> 0 \<le> memory"
    then have "memory div chunks < 0" using assms(1) by (simp add: div_neg_pos_less0)
    then show False using assms(1,2) by linarith
  qed
  then have r: "memory sdiv chunks = memory div chunks" using assms(1) by (simp add: sdiv_pos)
  have "memory div chunks + chunks \<le> (memory div chunks + chunks) * chunks"
    using assms(1,2) by (intro mult_le_cancel_left1 [THEN iffD2]) auto
  then show ?thesis using assms r by (auto simp: init_test_def lies_def nat_le_iff Let_def)
qed

lemma test_main_ok:
  assumes "granted 48166 1500" and "list_all malloced [0..<20]"
  shows "\<exists>s. test_main granted malloced = Inr s \<and> test_ok s"
proof -
  obtain q where "init_test granted 70000000 1500 \<lparr>t_bsz = 0, t_rsz = 0, t_total = 0, t_lost = 0, t_in = 0, t_out = 0,
      t_sz = 0, t_rng = None\<rparr> = Inr q" "lies 0 0 0 q" "t_bsz q = 1500" "t_total q = 0" "t_lost q = 0"
    using init_test_lies [of 1500 70000000 granted] assms(1) by fastforce
  then show ?thesis
    using assms(2) lies_counts(1) [of 0 0 0 q] by (auto simp: test_main_def test_ok_def test_wf_def)
qed

section \<open>Properties\<close>

text \<open>
  C38: the ring of the test is a queue as long as no more messages wait than it has slots: whatever
  is stored and taken, in any order, comes out unchanged, in order and once.
\<close>

theorem test_ring_is_queue:
  assumes "test_inv width q" and "\<forall>s \<in> set (enqueued ops). length s = width"
    and "length (enqueued ops) \<le> test_room q"
  shows "\<exists>outs q'. fifo_run test_put test_get q ops = Some (outs, q') \<and> test_inv width q' \<and>
    outs = fst (list_run (waiting q) ops) \<and> waiting q' = snd (list_run (waiting q) ops)"
  using test_ring.run_refines [OF assms] by (simp add: option.rel_eq list.rel_eq)

lemma sample_test_ring:
  obtains q where "test_inv 4 q" "waiting q = []" "test_room q = 3"
proof -
  obtain q where "lies 0 0 0 q" "t_bsz q = 4" "t_rsz q = 15"
    using init_test_lies [of 4 60 "\<lambda>_ _. True"] by auto
  moreover from this have "slots q = 3" "stored_blocks q = 0" "waiting q = []"
    using lies_counts(1) [of 0 0 0 q] by (simp_all add: slots_def waiting_lies [of 0 0 0])
  ultimately show ?thesis
    by (intro that [of q]) (auto simp: test_inv_def test_wf_def test_room_def)
qed

theorem test_ring_is_queue_witness:
  "\<exists>q q'. fifo_run test_put test_get q [Enq [1, 2, 3, 0], Enq [4, 5, 6, 0], Deq, Deq, Deq] =
     Some ([Some [1, 2, 3, 0], Some [4, 5, 6, 0], None], q')"
proof -
  obtain q where q: "test_inv 4 q" "waiting q = []" "test_room q = 3" by (rule sample_test_ring)
  from test_ring_is_queue [OF q(1), of "[Enq [1, 2, 3, 0], Enq [4, 5, 6, 0], Deq, Deq, Deq]"] q(2,3) show ?thesis
    by auto
qed

text \<open>
  C39: the ring accepts one message more than it has slots: when every slot holds a message that
  waits, the next is stored over the oldest, \<^verbatim>\<open>enqueue\<close> reports success, and the next \<^verbatim>\<open>pop\<close>
  gives the new message in place of the oldest; only the message after that is refused.
\<close>

theorem full_test_ring_overwrites:
  assumes "test_inv width q" and "test_room q = 0" and "length s = width" and "length s' = width"
  shows "\<exists>q1 q2 q3. enqueue s q = Inr (0, q1) \<and> test_get q1 = Some (Some s, q2) \<and>
    enqueue s' q1 = Inr (1, q3) \<and> t_lost q3 = t_lost q + 1 \<and> length (waiting q) = slots q"
proof -
  obtain a b where l: "lies a b (slots q) q" and wf: "test_wf q"
    using assms(1,2) lies_counts(1) by (fastforce simp: test_inv_def test_wf_def test_room_def)
  note c = lies_counts [OF l]
  have fit: "t_bsz q \<le> int (length s)" "take (nat (t_bsz q)) s = s" "nat (t_bsz q) = length s"
    using assms(1,3) c(3) by (auto simp: test_inv_def)
  let ?a = "a mod slots q"
  obtain mem mem' where m: "write_at (nat (t_bsz q) * ?a) s mem = Inr mem'"
    "enqueue s q = Inr (0, q\<lparr>t_rng := Some mem', t_in := t_bsz q * int (Suc ?a),
        t_sz := t_bsz q * int (Suc (slots q)), t_total := t_total q + of_int (t_bsz q)\<rparr>)"
    "lies (Suc ?a) b (Suc (slots q)) (q\<lparr>t_rng := Some mem', t_in := t_bsz q * int (Suc ?a),
        t_sz := t_bsz q * int (Suc (slots q)), t_total := t_total q + of_int (t_bsz q)\<rparr>)"
    using enqueue_effect [OF l fit(1)] fit(2) by auto
  define q1 where "q1 = q\<lparr>t_rng := Some mem', t_in := t_bsz q * int (Suc ?a),
        t_sz := t_bsz q * int (Suc (slots q)), t_total := t_total q + of_int (t_bsz q)\<rparr>"
  note l1 = m(3) [folded q1_def]
  have sel: "t_bsz q1 = t_bsz q" "slots q1 = slots q" "t_rng q1 = Some mem'" "t_lost q1 = t_lost q"
    by (simp_all add: q1_def)
  have same: "b mod slots q = ?a" using l by (simp add: lies_def)
  obtain q2 where "pop_test q1 = (Some (t_bsz q * int ?a), q2)" "t_bsz q2 = t_bsz q" "t_rng q2 = Some mem'"
    using pop_test_effect [OF l1] sel same by auto
  moreover have "nat (t_bsz q * int ?a) = nat (t_bsz q) * ?a" using c(3) by (simp add: nat_mult_distrib)
  ultimately have "test_get q1 = Some (Some s, q2)"
    using read_write_same [OF m(1)] fit(3) by (simp add: test_get_def)
  moreover have "t_bsz q1 \<le> int (length s')" using fit(1) assms(3,4) by (simp add: sel)
  from enqueue_effect [OF l1 this] obtain q3 where "enqueue s' q1 = Inr (1, q3)" "t_lost q3 = t_lost q + 1"
    by (simp add: sel)
  ultimately show ?thesis using m(2) waiting_lies [OF l] by (auto simp: q1_def)
qed

definition sample_full :: testq where
  "sample_full = \<lparr>t_bsz = 4, t_rsz = 15, t_total = 12, t_lost = 0, t_in = 12, t_out = 0, t_sz = 12,
     t_rng = Some ([1, 1, 1, 0, 2, 2, 2, 0, 3, 3, 3, 0] @ replicate 64 0)\<rparr>"

theorem full_test_ring_overwrites_witness:
  "\<exists>q1 q2. enqueue [9, 9, 9, 0] sample_full = Inr (0, q1) \<and> test_get q1 = Some (Some [9, 9, 9, 0], q2) \<and>
     length (waiting sample_full) = 3"
proof -
  have "slots sample_full = 3" by (simp add: slots_def sample_full_def)
  then have "lies 3 0 3 sample_full" by (simp add: lies_def) (simp add: sample_full_def)
  then have "test_inv 4 sample_full" "test_room sample_full = 0"
    using lies_counts(1) [of 3 0 3 sample_full] \<open>slots sample_full = 3\<close>
    by (auto simp: test_inv_def test_wf_def test_room_def) (simp add: sample_full_def)
  from full_test_ring_overwrites [OF this, of "[9, 9, 9, 0]" "[9, 9, 9, 0]"] \<open>slots sample_full = 3\<close>
  show ?thesis by auto
qed

text \<open>
  C37: in every state that the twenty threads of the test reach, under every schedule: at most one
  of them has left its wait for the mutex, what it does inside succeeds, the ring is in order,
  \<open>sz\<close> is what was stored less what was taken, \<open>total\<close> and \<open>lost\<close> count the stored bytes and the
  refused messages, up to the wrap-around of an \<^verbatim>\<open>int\<close>, and some thread can go on.
\<close>

theorem test_threads_safe:
  assumes "test_main granted malloced = Inr s0" and "granted 48166 1500" and "test_reach s0 s"
  shows "(\<forall>i j. loc s i \<noteq> Waits \<longrightarrow> loc s j \<noteq> Waits \<longrightarrow> i = j) \<and>
    (\<forall>i. \<exists>r q. enqueue (test_message (t_bsz (tq s)) i) (tq s) = Inr (r, q)) \<and> test_wf (tq s) \<and>
    stored_blocks (tq s) + how_often is_taken (seen_log s) = how_often is_stored (seen_log s) \<and>
    t_total (tq s) = of_nat (1500 * how_often is_stored (seen_log s)) \<and>
    t_lost (tq s) = of_nat (how_often is_dropped (seen_log s)) \<and> (\<exists>s'. test_step s s')"
proof -
  have "list_all malloced [0..<20]" using assms(1) by (auto simp: test_main_def split: sum.splits if_splits)
  then have "test_ok s0" using test_main_ok [of granted malloced] assms(1,2) by auto
  then have ok: "test_ok s" using test_reach_ok [OF assms(3)] by blast
  have input: "\<exists>r q. enqueue (test_message (t_bsz (tq s)) i) (tq s) = Inr (r, q)" for i
    using enqueue_counts [of "tq s" "test_message (t_bsz (tq s)) i"] ok by (auto simp: test_ok_def test_message_def)
  have "\<exists>s'. test_step s s'"
  proof (cases "owner s")
    case None
    then have "loc s 0 = Waits" using ok by (auto simp: test_ok_def)
    from take_mutex [OF _ this None] show ?thesis by auto
  next
    case (Some i)
    then have i: "i < 20" "loc s i \<noteq> Waits" using ok by (auto simp: test_ok_def)
    show ?thesis
    proof (cases "loc s i")
      case Inside
      obtain r q where "enqueue (test_message (t_bsz (tq s)) i) (tq s) = Inr (r, q)" using input by blast
      then show ?thesis
        using run_input [OF _ Inside] run_output [OF _ i(1) Inside, of "fst (pop_test (tq s))" "snd (pop_test (tq s))"]
        by (cases "i < 10") (auto simp: not_less)
    qed (use i give_mutex [OF i(1)] in auto)
  qed
  moreover have "i = j" if "loc s i \<noteq> Waits" "loc s j \<noteq> Waits" for i j
    using ok that unfolding test_ok_def by (metis option.inject)
  ultimately show ?thesis using input ok unfolding test_ok_def by blast
qed

theorem test_threads_safe_witness:
  "\<exists>s0 s. test_main (\<lambda>_ _. True) (\<lambda>_. True) = Inr s0 \<and> test_reach s0 s \<and> loc s 3 = Leaves \<and> loc s 4 = Waits \<and>
     how_often is_stored (seen_log s) = 1 \<and> t_total (tq s) = 1500 \<and> stored_blocks (tq s) = 1"
proof -
  let ?granted = "\<lambda>_ _. True" and ?malloced = "\<lambda>_. True"
  obtain s0 where s0: "test_main ?granted ?malloced = Inr s0" "test_ok s0"
    using test_main_ok [of ?granted ?malloced] by (auto simp: list_all_iff)
  have start: "owner s0 = None" "loc s0 = (\<lambda>_. Waits)" "seen_log s0 = []"
    using s0(1) by (auto simp: test_main_def split: sum.splits if_splits)
  then have empty: "stored_blocks (tq s0) = 0" using s0(2) by (simp add: test_ok_def)
  define s1 where "s1 = s0\<lparr>owner := Some 3, loc := (loc s0)(3 := Inside)\<rparr>"
  have r1: "test_reach s0 s1" unfolding s1_def using take_mutex [of 3 s0] start by (intro one_more [OF at_start]) simp
  obtain q where q: "enqueue (test_message (t_bsz (tq s1)) 3) (tq s1) = Inr (0, q)"
    using enqueue_counts [of "tq s0" "test_message (t_bsz (tq s0)) 3"] s0(2) empty
    by (auto simp: test_ok_def test_message_def s1_def)
  define s2 where "s2 = s1\<lparr>tq := q, loc := (loc s1)(3 := Leaves), seen_log := seen_log s1 @ [if (0 :: int) = 0 then Stored 3 else Dropped 3]\<rparr>"
  have r2: "test_reach s0 s2" unfolding s2_def using run_input [OF _ _ q] by (intro one_more [OF r1]) (simp add: s1_def)
  have at: "loc s2 3 = Leaves" "loc s2 4 = Waits" "seen_log s2 = [Stored 3]"
    by (simp_all add: s2_def s1_def start)
  with test_threads_safe [OF s0(1) _ r2] s0(1) r2 show ?thesis by (auto simp: how_often_def)
qed

end
