(* ===== verification/Oldloader.thy ===== *)
theory Oldloader
  imports Config
begin

text \<open>
  The older loader \<^verbatim>\<open>load_config\<close> of \<^verbatim>\<open>xstate.c\<close>, which the Makefile leaves out: it prints the
  sections of a file and the settings in them. The tokens come from the scanner as in theory
  \<^verbatim>\<open>Config\<close>, and a loop that never ends is \<open>None\<close>. When the file or the parser cannot be opened the
  loader says so and goes on; what the scanner then gives is part of the tokens.
\<close>

section \<open>The loader\<close>

record xloader =
  x_pos :: nat
  x_tok :: token
  x_key :: chars
  x_tmpkey :: chars
  x_out :: "string list"

definition x_scan :: "(nat \<Rightarrow> token) \<Rightarrow> xloader \<Rightarrow> xloader" where
  "x_scan toks st = st\<lparr>x_tok := toks (x_pos st), x_pos := x_pos st + 1\<rparr>"

definition x_print :: "string \<Rightarrow> xloader \<Rightarrow> xloader" where
  "x_print line st = st\<lparr>x_out := x_out st @ [line @ [CHR 0x0D, CHR 0x0A]]\<rparr>"

text \<open>An item of a sequence, from its \<open>BlockEntry\<close> on: it is expected to hold one pair.\<close>

definition x_item_value :: "(nat \<Rightarrow> token) \<Rightarrow> xloader \<Rightarrow> xloader" where
  "x_item_value toks st =
     (let a = x_scan toks st in
      if x_tok a \<noteq> Value then a
      else let b = x_scan toks a in
        case x_tok b of
          Scalar v \<Rightarrow>
            (let c = x_scan toks (x_print (buf (x_tmpkey b) @ '' == '' @ v) b)
             in if x_tok c = BlockEnd then x_scan toks c else c)
        | _ \<Rightarrow> b)"

definition x_item :: "(nat \<Rightarrow> token) \<Rightarrow> xloader \<Rightarrow> xloader" where
  "x_item toks st =
     (let a = x_scan toks st in
      if x_tok a \<noteq> MappingStart then a
      else let b = x_scan toks a in
        if x_tok b \<noteq> Key then b
        else let c = x_scan toks b in
          case x_tok c of
            Scalar k \<Rightarrow> x_item_value toks (c\<lparr>x_tmpkey := strncpy 0 k 255 (x_tmpkey c)\<rparr>)
          | _ \<Rightarrow> c)"

text \<open>The loop over the items; it scans nothing unless it sees a \<open>BlockEntry\<close>.\<close>

partial_function (option) x_items :: "(nat \<Rightarrow> token) \<Rightarrow> xloader \<Rightarrow> xloader option" where
  "x_items toks st =
     (if x_tok st = BlockEnd then Some st
      else x_items toks (if x_tok st = BlockEntry then x_item toks st else st))"

text \<open>One pass of the loop over the keys of a mapping.\<close>

definition x_mapping_step :: "(nat \<Rightarrow> token) \<Rightarrow> xloader \<Rightarrow> xloader option" where
  "x_mapping_step toks st =
     (let a = x_scan toks st in
      if x_tok a \<noteq> Key then Some a
      else
        let b = x_scan toks a;
            c = x_scan toks (case x_tok b of Scalar k \<Rightarrow> b\<lparr>x_key := strncpy 0 k 255 (x_key b)\<rparr> | _ \<Rightarrow> b) in
        if x_tok c \<noteq> Value then Some c
        else let d = x_scan toks c in
          if x_tok d \<noteq> SequenceStart then Some d
          else case x_items toks (x_scan toks (x_print (''Block sequence start: '' @ buf (x_key d)) d)) of
              None \<Rightarrow> None
            | Some e \<Rightarrow> Some (if x_tok e = BlockEnd then x_scan toks e else e))"

partial_function (option) x_mapping :: "(nat \<Rightarrow> token) \<Rightarrow> xloader \<Rightarrow> xloader option" where
  "x_mapping toks st =
     (case x_mapping_step toks st of
        None \<Rightarrow> None
      | Some st1 \<Rightarrow> if x_tok st1 = BlockEnd then Some st1 else x_mapping toks st1)"

partial_function (option) x_document :: "(nat \<Rightarrow> token) \<Rightarrow> xloader \<Rightarrow> xloader option" where
  "x_document toks st =
     (case (let a = x_scan toks st in if x_tok a = MappingStart then x_mapping toks a else Some a) of
        None \<Rightarrow> None
      | Some st1 \<Rightarrow> if x_tok st1 = StreamEnd then Some st1 else x_document toks st1)"

text \<open>The buffers start with what is on the stack; the result is the return value and the output.\<close>

definition x_load_config :: "(nat \<Rightarrow> token) \<Rightarrow> chars \<Rightarrow> chars \<Rightarrow> (int \<times> string list) option" where
  "x_load_config toks key tmpkey =
     map_option (\<lambda>st. (0, x_out st))
       (x_document toks \<lparr>x_pos = 0, x_tok = NoToken, x_key = key, x_tmpkey = tmpkey, x_out = []\<rparr>)"

section \<open>Lemmas\<close>

definition x_item_tokens :: "string \<times> string \<Rightarrow> token list" where
  "x_item_tokens kv = [BlockEntry, MappingStart, Key, Scalar (fst kv), Value, Scalar (snd kv), BlockEnd]"

definition x_section_tokens :: "string \<times> (string \<times> string) list \<Rightarrow> token list" where
  "x_section_tokens sec = [Key, Scalar (fst sec), Value, SequenceStart] @ concat (map x_item_tokens (snd sec)) @ [BlockEnd]"

definition x_item_line :: "string \<times> string \<Rightarrow> string" where
  "x_item_line kv = fst kv @ '' == '' @ snd kv @ [CHR 0x0D, CHR 0x0A]"

definition x_section_line :: "string \<Rightarrow> string" where
  "x_section_line g = ''Block sequence start: '' @ g @ [CHR 0x0D, CHR 0x0A]"

text \<open>What every lemma below keeps: the output, and where the tokens go on.\<close>

definition x_at :: "(nat \<Rightarrow> token) \<Rightarrow> xloader \<Rightarrow> string list \<Rightarrow> token list \<Rightarrow> bool" where
  "x_at toks st out ts \<longleftrightarrow> x_out st = out \<and> coming toks (x_pos st) ts"

lemma x_at_updates [simp]:
  "x_at toks (st\<lparr>x_key := k\<rparr>) out ts = x_at toks st out ts"
  "x_at toks (st\<lparr>x_tmpkey := k\<rparr>) out ts = x_at toks st out ts"
  "x_at toks (st\<lparr>x_tok := t\<rparr>) out ts = x_at toks st out ts"
  by (simp_all add: x_at_def)

lemma x_at_print [simp]:
  "x_at toks (x_print line st) (out @ [line @ [CHR 0x0D, CHR 0x0A]]) ts = x_at toks st out ts"
  by (simp add: x_at_def x_print_def)

lemma x_at_scan: "x_at toks st out (t # ts) \<Longrightarrow> x_tok (x_scan toks st) = t \<and> x_at toks (x_scan toks st) out ts"
  by (simp add: x_at_def x_scan_def)

lemma x_keeps_buffers [simp]:
  "x_key (x_scan toks st) = x_key st" "x_tmpkey (x_scan toks st) = x_tmpkey st"
  "x_tmpkey (x_print line st) = x_tmpkey st" "x_tok (x_print line st) = x_tok st"
  by (simp_all add: x_scan_def x_print_def)

lemma x_item_read:
  assumes "x_at toks st out (MappingStart # Key # Scalar k # Value # Scalar v # t # ts)" and "short k"
  shows "\<exists>g. x_tok g = t \<and> x_at toks g (out @ [x_item_line (k, v)]) ts \<and>
    x_item toks st = (if t = BlockEnd then x_scan toks g else g)"
proof -
  let ?a = "x_scan toks st"
  let ?b = "x_scan toks ?a"
  let ?c = "x_scan toks ?b"
  let ?d = "?c\<lparr>x_tmpkey := strncpy 0 k 255 (x_tmpkey ?c)\<rparr>"
  let ?e = "x_scan toks ?d"
  let ?f = "x_scan toks ?e"
  let ?g = "x_scan toks (x_print (k @ '' == '' @ v) ?f)"
  have a: "x_tok ?a = MappingStart \<and> x_at toks ?a out (Key # Scalar k # Value # Scalar v # t # ts)"
    using assms(1) by (rule x_at_scan)
  then have b: "x_tok ?b = Key \<and> x_at toks ?b out (Scalar k # Value # Scalar v # t # ts)"
    by (intro x_at_scan) simp
  then have c: "x_tok ?c = Scalar k \<and> x_at toks ?c out (Value # Scalar v # t # ts)"
    by (intro x_at_scan) simp
  then have e: "x_tok ?e = Value \<and> x_at toks ?e out (Scalar v # t # ts)"
    by (intro x_at_scan) simp
  then have f: "x_tok ?f = Scalar v \<and> x_at toks ?f out (t # ts)"
    by (intro x_at_scan) simp
  then have "x_at toks (x_print (k @ '' == '' @ v) ?f) (out @ [x_item_line (k, v)]) (t # ts)"
    using x_at_print [of toks "k @ '' == '' @ v" ?f out] by (simp add: x_item_line_def)
  note g = x_at_scan [OF this]
  have "buf (x_tmpkey ?f) = k" using assms(2) by simp
  then have "x_item toks st = (if t = BlockEnd then x_scan toks ?g else ?g)"
    using a b c e f g by (simp add: x_item_def x_item_value_def Let_def)
  with g show ?thesis by blast
qed

lemma x_items_done: "x_tok st = BlockEnd \<Longrightarrow> x_items toks st = Some st"
  by (subst x_items.simps) simp

lemma x_items_entry: "x_tok st = BlockEntry \<Longrightarrow> x_items toks st = x_items toks (x_item toks st)"
  by (subst x_items.simps) simp

text \<open>The items with one pair each are read and printed, up to the token \<open>t\<close> that follows them.\<close>

lemma x_items_pairs:
  assumes "\<forall>kv \<in> set kvs. short (fst kv)" and "x_at toks st out (tl (concat (map x_item_tokens kvs) @ [t]) @ ts)"
    and "x_tok st = hd (concat (map x_item_tokens kvs) @ [t])"
  shows "\<exists>st'. x_items toks st = x_items toks st' \<and> x_tok st' = t \<and> x_at toks st' (out @ map x_item_line kvs) ts"
  using assms
proof (induction kvs arbitrary: st out)
  case Nil
  then show ?case by auto
next
  case (Cons kv kvs)
  obtain k v where kv: "kv = (k, v)" by (cases kv)
  let ?next = "concat (map x_item_tokens kvs) @ [t]"
  have next_eq: "?next @ ts = hd ?next # tl ?next @ ts" by (cases ?next) auto
  have "x_at toks st out (MappingStart # Key # Scalar k # Value # Scalar v # BlockEnd # ?next @ ts)"
    using Cons.prems(2) by (simp add: kv x_item_tokens_def [of "(k, v)"])
  moreover have "short k" using Cons.prems(1) kv by simp
  ultimately obtain g where g: "x_at toks g (out @ [x_item_line kv]) (hd ?next # tl ?next @ ts)"
    "x_item toks st = x_scan toks g"
    using x_item_read [of toks st out k v BlockEnd "?next @ ts"] unfolding kv next_eq by auto
  have "x_tok st = BlockEntry" using Cons.prems(3) by (simp add: x_item_tokens_def)
  then have "x_items toks st = x_items toks (x_scan toks g)" using x_items_entry g(2) by simp
  with Cons.IH [of "x_scan toks g" "out @ [x_item_line kv]"] x_at_scan [OF g(1)] Cons.prems(1)
  show ?case by simp
qed

text \<open>At any other token the loop over the items runs for ever.\<close>

lemma x_items_hang:
  assumes "x_tok st \<noteq> BlockEnd" and "x_tok st \<noteq> BlockEntry"
  shows "x_items toks st = None"
proof (rule ccontr)
  assume "x_items toks st \<noteq> None"
  then obtain r where "x_items toks st = Some r" by blast
  then show False
    using assms
  proof (induction rule: x_items.raw_induct [rotated, consumes 1])
    case (1 f toks st r)
    then have "f toks st = Some r" by simp
    with 1(1,3,4) show ?case by blast
  qed
qed

text \<open>The first tokens of a section.\<close>

lemma x_mapping_step_section:
  assumes "x_at toks st out (Key # Scalar g # Value # SequenceStart # t # ts)" and "short g"
  shows "\<exists>e. x_tok e = t \<and> x_at toks e (out @ [x_section_line g]) ts \<and>
    x_mapping_step toks st = (case x_items toks e of None \<Rightarrow> None
      | Some e1 \<Rightarrow> Some (if x_tok e1 = BlockEnd then x_scan toks e1 else e1))"
proof -
  let ?a = "x_scan toks st"
  let ?b = "x_scan toks ?a"
  let ?b1 = "?b\<lparr>x_key := strncpy 0 g 255 (x_key ?b)\<rparr>"
  let ?c = "x_scan toks ?b1"
  let ?d = "x_scan toks ?c"
  let ?e = "x_scan toks (x_print (''Block sequence start: '' @ g) ?d)"
  have a: "x_tok ?a = Key \<and> x_at toks ?a out (Scalar g # Value # SequenceStart # t # ts)"
    using assms(1) by (rule x_at_scan)
  then have b: "x_tok ?b = Scalar g \<and> x_at toks ?b out (Value # SequenceStart # t # ts)"
    by (intro x_at_scan) simp
  then have c: "x_tok ?c = Value \<and> x_at toks ?c out (SequenceStart # t # ts)"
    by (intro x_at_scan) simp
  then have d: "x_tok ?d = SequenceStart \<and> x_at toks ?d out (t # ts)"
    by (intro x_at_scan) simp
  then have "x_at toks (x_print (''Block sequence start: '' @ g) ?d) (out @ [x_section_line g]) (t # ts)"
    using x_at_print [of toks "''Block sequence start: '' @ g" ?d out] by (simp add: x_section_line_def)
  note e = x_at_scan [OF this]
  have "buf (x_key ?d) = g" using assms(2) by simp
  then have "x_mapping_step toks st = (case x_items toks ?e of None \<Rightarrow> None
      | Some e1 \<Rightarrow> Some (if x_tok e1 = BlockEnd then x_scan toks e1 else e1))"
    using a b c d by (simp add: x_mapping_step_def Let_def)
  with e show ?thesis by blast
qed

lemma x_mapping_section:
  assumes "x_at toks st out (x_section_tokens (g, kvs) @ t # ts)" and "short g" and "\<forall>kv \<in> set kvs. short (fst kv)"
  shows "\<exists>st'. x_mapping_step toks st = Some st' \<and> x_tok st' = t \<and>
    x_at toks st' (out @ x_section_line g # map x_item_line kvs) ts"
proof -
  let ?items = "concat (map x_item_tokens kvs) @ [BlockEnd]"
  have "x_section_tokens (g, kvs) @ t # ts =
      Key # Scalar g # Value # SequenceStart # hd ?items # tl ?items @ t # ts"
    by (cases "concat (map x_item_tokens kvs)") (simp_all add: x_section_tokens_def)
  with assms(1) have "x_at toks st out (Key # Scalar g # Value # SequenceStart # hd ?items # tl ?items @ t # ts)" by (simp only:)
  from x_mapping_step_section [OF this assms(2)] obtain e where
    e: "x_tok e = hd ?items" "x_at toks e (out @ [x_section_line g]) (tl ?items @ t # ts)"
    "x_mapping_step toks st = (case x_items toks e of None \<Rightarrow> None
      | Some e1 \<Rightarrow> Some (if x_tok e1 = BlockEnd then x_scan toks e1 else e1))" by blast
  from x_items_pairs [OF assms(3) e(2,1)] obtain e1 where "x_items toks e = Some e1" "x_tok e1 = BlockEnd"
    "x_at toks e1 (out @ x_section_line g # map x_item_line kvs) (t # ts)" by (auto simp: x_items_done)
  with e(3) x_at_scan [OF this(3)] show ?thesis by simp
qed

text \<open>Tokens before the first key of a mapping are passed over, and so is a pair without a sequence.\<close>

lemma x_mapping_skip:
  assumes "x_at toks st out (us @ ts)" and "set us \<inter> {Key, BlockEnd} = {}"
  shows "\<exists>st'. x_mapping toks st = x_mapping toks st' \<and> x_at toks st' out ts"
  using assms
proof (induction us arbitrary: st)
  case (Cons u us)
  have u: "x_tok (x_scan toks st) = u" "x_at toks (x_scan toks st) out (us @ ts)"
    using x_at_scan [of toks st out u "us @ ts"] Cons.prems(1) by auto
  have "u \<noteq> Key" "u \<noteq> BlockEnd" using Cons.prems(2) by auto
  with u(1) have "x_mapping toks st = x_mapping toks (x_scan toks st)"
    by (subst x_mapping.simps) (simp add: x_mapping_step_def Let_def)
  with Cons.IH [OF u(2)] Cons.prems(2) show ?case by auto
qed auto

lemma x_mapping_end:
  assumes "x_at toks st out (BlockEnd # ts)"
  shows "\<exists>st'. x_mapping toks st = Some st' \<and> x_tok st' = BlockEnd \<and> x_at toks st' out ts"
  using x_at_scan [OF assms] by (subst x_mapping.simps) (simp add: x_mapping_step_def Let_def)

lemma x_mapping_pair:
  assumes "x_at toks st out (Key # Scalar k # Value # Scalar v # BlockEnd # ts)"
  shows "\<exists>st'. x_mapping toks st = Some st' \<and> x_tok st' = BlockEnd \<and> x_at toks st' out ts"
proof -
  let ?a = "x_scan toks st"
  let ?b = "x_scan toks ?a"
  let ?c = "x_scan toks (?b\<lparr>x_key := strncpy 0 k 255 (x_key ?b)\<rparr>)"
  let ?d = "x_scan toks ?c"
  have a: "x_tok ?a = Key \<and> x_at toks ?a out (Scalar k # Value # Scalar v # BlockEnd # ts)"
    using assms by (rule x_at_scan)
  then have b: "x_tok ?b = Scalar k \<and> x_at toks ?b out (Value # Scalar v # BlockEnd # ts)"
    by (intro x_at_scan) simp
  then have c: "x_tok ?c = Value \<and> x_at toks ?c out (Scalar v # BlockEnd # ts)"
    by (intro x_at_scan) simp
  then have d: "x_tok ?d = Scalar v \<and> x_at toks ?d out (BlockEnd # ts)"
    by (intro x_at_scan) simp
  then have "x_mapping toks st = x_mapping toks ?d"
    using a b c by (subst x_mapping.simps) (simp add: x_mapping_step_def Let_def)
  with x_mapping_end d show ?thesis by metis
qed

lemma x_document_skip:
  assumes "x_at toks st out (t # ts)" and "t \<noteq> MappingStart" and "t \<noteq> StreamEnd"
  shows "\<exists>st'. x_document toks st = x_document toks st' \<and> x_at toks st' out ts"
  using x_at_scan [OF assms(1)] assms(2,3)
  by (intro exI [of _ "x_scan toks st"], subst x_document.simps) (simp add: Let_def)

lemma x_document_mapping:
  assumes "x_at toks st out (MappingStart # ts)"
    and "\<And>a. x_at toks a out ts \<Longrightarrow> \<exists>b. x_mapping toks a = Some b \<and> x_tok b = BlockEnd \<and> x_at toks b out' us"
  shows "\<exists>st'. x_document toks st = x_document toks st' \<and> x_at toks st' out' us"
proof -
  obtain b where "x_mapping toks (x_scan toks st) = Some b" "x_tok b = BlockEnd" "x_at toks b out' us"
    using assms(2) x_at_scan [OF assms(1)] by blast
  then show ?thesis using x_at_scan [OF assms(1)]
    by (intro exI [of _ b], subst x_document.simps) (simp add: Let_def)
qed

lemma x_document_end:
  assumes "x_at toks st out [StreamEnd]"
  shows "\<exists>st'. x_document toks st = Some st' \<and> x_out st' = out"
  using x_at_scan [OF assms] by (subst x_document.simps) (simp add: Let_def x_at_def)

text \<open>Outside the first section, items and sections leave no output.\<close>

lemma x_document_items:
  assumes "x_at toks st out (concat (map x_item_tokens kvs) @ ts)"
  shows "\<exists>st'. x_document toks st = x_document toks st' \<and> x_at toks st' out ts"
  using assms
proof (induction kvs arbitrary: st)
  case (Cons kv kvs)
  let ?rest = "concat (map x_item_tokens kvs) @ ts"
  have "x_at toks st out (BlockEntry # MappingStart # Key # Scalar (fst kv) # Value # Scalar (snd kv) # BlockEnd # ?rest)"
    using Cons.prems by (simp add: x_item_tokens_def [of kv])
  then obtain st1 where st1: "x_document toks st = x_document toks st1"
    "x_at toks st1 out (MappingStart # Key # Scalar (fst kv) # Value # Scalar (snd kv) # BlockEnd # ?rest)"
    using x_document_skip by blast
  obtain st2 where "x_document toks st1 = x_document toks st2" "x_at toks st2 out ?rest"
    using x_document_mapping [OF st1(2), of out ?rest] x_mapping_pair by blast
  with st1(1) Cons.IH [of st2] show ?case by auto
qed auto

lemma x_document_skips:
  assumes "x_at toks st out (us @ ts)" and "set us \<inter> {MappingStart, StreamEnd} = {}"
  shows "\<exists>st'. x_document toks st = x_document toks st' \<and> x_at toks st' out ts"
  using assms
proof (induction us arbitrary: st)
  case (Cons u us)
  obtain st1 where "x_document toks st = x_document toks st1" "x_at toks st1 out (us @ ts)"
    using x_document_skip [of toks st out u "us @ ts"] Cons.prems by auto
  with Cons.IH [of st1] Cons.prems(2) show ?case by auto
qed auto

lemma x_document_sections:
  assumes "x_at toks st out (concat (map x_section_tokens secs) @ ts)"
  shows "\<exists>st'. x_document toks st = x_document toks st' \<and> x_at toks st' out ts"
  using assms
proof (induction secs arbitrary: st)
  case (Cons sec secs)
  let ?rest = "concat (map x_section_tokens secs) @ ts"
  have "x_at toks st out ([Key, Scalar (fst sec), Value, SequenceStart] @
      concat (map x_item_tokens (snd sec)) @ BlockEnd # ?rest)"
    using Cons.prems by (simp add: x_section_tokens_def [of sec])
  then obtain st1 where st1: "x_document toks st = x_document toks st1"
    "x_at toks st1 out (concat (map x_item_tokens (snd sec)) @ BlockEnd # ?rest)"
    using x_document_skips by fastforce
  obtain st2 where st2: "x_document toks st1 = x_document toks st2" "x_at toks st2 out (BlockEnd # ?rest)"
    using x_document_items [OF st1(2)] by blast
  obtain st3 where "x_document toks st2 = x_document toks st3" "x_at toks st3 out ?rest"
    using x_document_skip [OF st2(2)] by auto
  with st1(1) st2(1) Cons.IH [of st3] show ?case by auto
qed auto

definition x_file_tokens :: "(string \<times> (string \<times> string) list) list \<Rightarrow> token list" where
  "x_file_tokens secs = [OtherToken, MappingStart] @ concat (map x_section_tokens secs) @ [BlockEnd, StreamEnd]"

lemma x_document_tail:
  assumes "x_at toks st out (concat (map x_section_tokens secs) @ [BlockEnd, StreamEnd])"
  shows "\<exists>st'. x_document toks st = Some st' \<and> x_out st' = out"
proof -
  obtain st1 where st1: "x_document toks st = x_document toks st1" "x_at toks st1 out [BlockEnd, StreamEnd]"
    using x_document_sections [OF assms] by blast
  obtain st2 where "x_document toks st1 = x_document toks st2" "x_at toks st2 out [StreamEnd]"
    using x_document_skip [OF st1(2)] by auto
  with st1(1) x_document_end show ?thesis by fastforce
qed

text \<open>After the first section the mapping loop ends within the second, or at the end of the file's.\<close>

lemma x_mapping_rest:
  assumes "x_mapping_step toks a = Some b" and "x_tok b = hd (concat (map x_section_tokens secs) @ [BlockEnd])"
    and "x_at toks b out (tl (concat (map x_section_tokens secs) @ [BlockEnd]) @ [StreamEnd])"
  shows "\<exists>c us. x_mapping toks a = Some c \<and> x_tok c = BlockEnd \<and> x_at toks c out us \<and>
    (us = [StreamEnd] \<or> (\<exists>kvs secs'. us = concat (map x_item_tokens kvs) @ BlockEnd #
      concat (map x_section_tokens secs') @ [BlockEnd, StreamEnd]) \<or>
      (\<exists>secs'. us = concat (map x_section_tokens secs') @ [BlockEnd, StreamEnd]))"
proof (cases secs)
  case Nil
  with assms have "x_mapping toks a = Some b" by (subst x_mapping.simps) simp
  moreover from Nil assms have "x_tok b = BlockEnd" "x_at toks b out [StreamEnd]" by simp_all
  ultimately show ?thesis by blast
next
  case (Cons sec secs')
  obtain g kvs where sec: "sec = (g, kvs)" by (cases sec)
  let ?rest = "concat (map x_section_tokens secs') @ [BlockEnd, StreamEnd]"
  have secs: "x_tok b = Key" "x_at toks b out ([Scalar g, Value, SequenceStart] @
      concat (map x_item_tokens kvs) @ BlockEnd # ?rest)"
    using assms(2,3) Cons by (simp_all add: sec x_section_tokens_def [of "(g, kvs)"])
  then have b: "x_mapping toks a = x_mapping toks b" using assms(1) by (subst x_mapping.simps) simp
  show ?thesis
  proof (cases kvs)
    case Nil
    with secs(2) obtain c where c: "x_mapping toks b = x_mapping toks c" "x_at toks c out (BlockEnd # ?rest)"
      using x_mapping_skip [of toks b out "[Scalar g, Value, SequenceStart]" "BlockEnd # ?rest"] by auto
    with x_mapping_end [OF c(2)] b have "\<exists>d. x_mapping toks a = Some d \<and> x_tok d = BlockEnd \<and> x_at toks d out ?rest"
      by simp
    then show ?thesis by blast
  next
    case (Cons kv kvs')
    let ?pair = "Key # Scalar (fst kv) # Value # Scalar (snd kv) # BlockEnd #
      concat (map x_item_tokens kvs') @ BlockEnd # ?rest"
    have "x_at toks b out ([Scalar g, Value, SequenceStart, BlockEntry, MappingStart] @ ?pair)"
      using secs(2) Cons by (simp add: x_item_tokens_def [of kv])
    then obtain c where c: "x_mapping toks b = x_mapping toks c" "x_at toks c out ?pair"
      using x_mapping_skip by fastforce
    with x_mapping_pair [OF c(2)] b have "\<exists>d. x_mapping toks a = Some d \<and> x_tok d = BlockEnd \<and>
        x_at toks d out (concat (map x_item_tokens kvs') @ BlockEnd # ?rest)" by simp
    then show ?thesis by blast
  qed
qed

text \<open>After the first section the loader prints nothing, whatever is left of the file.\<close>

lemma x_document_rest:
  assumes "x_at toks c out us" and "us = [StreamEnd] \<or> (\<exists>kvs secs. us = concat (map x_item_tokens kvs) @ BlockEnd #
      concat (map x_section_tokens secs) @ [BlockEnd, StreamEnd]) \<or>
      (\<exists>secs. us = concat (map x_section_tokens secs) @ [BlockEnd, StreamEnd])"
  shows "\<exists>st. x_document toks c = Some st \<and> x_out st = out"
  using assms(2)
proof (elim disjE exE)
  assume "us = [StreamEnd]"
  then show ?thesis using x_document_end assms(1) by blast
next
  fix kvs secs
  assume us: "us = concat (map x_item_tokens kvs) @ BlockEnd # concat (map x_section_tokens secs) @ [BlockEnd, StreamEnd]"
  obtain d where d: "x_document toks c = x_document toks d"
    "x_at toks d out (BlockEnd # concat (map x_section_tokens secs) @ [BlockEnd, StreamEnd])"
    using x_document_items assms(1) unfolding us by blast
  obtain e where "x_document toks d = x_document toks e"
    "x_at toks e out (concat (map x_section_tokens secs) @ [BlockEnd, StreamEnd])"
    using x_document_skip [OF d(2)] by auto
  with d(1) x_document_tail show ?thesis by fastforce
next
  fix secs assume "us = concat (map x_section_tokens secs) @ [BlockEnd, StreamEnd]"
  then show ?thesis using x_document_tail assms(1) by blast
qed

section \<open>Properties\<close>

text \<open>
  C40: on a file of sections, each a list of items with one setting, the old loader stops, returns
  0 and prints the name and the settings of the first section, in order; of all other sections it
  prints nothing.
\<close>

theorem old_loader_prints_first_section:
  assumes "coming toks 0 (x_file_tokens ((g, kvs) # secs))" and "short g" and "\<forall>kv \<in> set kvs. short (fst kv)"
  shows "x_load_config toks key tmpkey = Some (0, x_section_line g # map x_item_line kvs)"
proof -
  let ?st = "\<lparr>x_pos = 0, x_tok = NoToken, x_key = key, x_tmpkey = tmpkey, x_out = []\<rparr>"
  let ?out = "x_section_line g # map x_item_line kvs"
  let ?secs = "concat (map x_section_tokens secs) @ [BlockEnd]"
  have split: "?secs @ [StreamEnd] = hd ?secs # tl ?secs @ [StreamEnd]" by (cases ?secs) auto
  have "x_at toks ?st [] (OtherToken # MappingStart # x_section_tokens (g, kvs) @ ?secs @ [StreamEnd])"
    using assms(1) by (simp add: x_at_def x_file_tokens_def)
  then obtain st1 where st1: "x_document toks ?st = x_document toks st1"
    "x_at toks st1 [] (MappingStart # x_section_tokens (g, kvs) @ hd ?secs # tl ?secs @ [StreamEnd])"
    using x_document_skip [of toks ?st "[]" OtherToken] unfolding split by blast
  let ?a = "x_scan toks st1"
  note a = x_at_scan [OF st1(2)]
  obtain b where "x_mapping_step toks ?a = Some b" "x_tok b = hd ?secs" "x_at toks b ?out (tl ?secs @ [StreamEnd])"
    using x_mapping_section [of toks ?a "[]" g kvs] a assms(2,3) by fastforce
  from x_mapping_rest [OF this] obtain c us where c: "x_mapping toks ?a = Some c" "x_tok c = BlockEnd"
    "x_at toks c ?out us" "us = [StreamEnd] \<or> (\<exists>kvs secs'. us = concat (map x_item_tokens kvs) @ BlockEnd #
      concat (map x_section_tokens secs') @ [BlockEnd, StreamEnd]) \<or>
      (\<exists>secs'. us = concat (map x_section_tokens secs') @ [BlockEnd, StreamEnd])" by blast
  have "x_document toks st1 = x_document toks c"
    using a c(1,2) by (subst x_document.simps) (simp add: Let_def)
  moreover have "\<exists>st'. x_document toks c = Some st' \<and> x_out st' = ?out" by (rule x_document_rest [OF c(3,4)])
  ultimately show ?thesis using st1(1) by (auto simp: x_load_config_def)
qed

theorem old_loader_prints_first_section_witness:
  "x_load_config (\<lambda>i. let ts = x_file_tokens [(''net'', [(''a'', ''1''), (''b'', ''2'')]), (''crypt'', [(''c'', ''3'')])]
       in if i < length ts then ts ! i else NoToken) (\<lambda>_. NUL) (\<lambda>_. NUL) =
     Some (0, [x_section_line ''net'', x_item_line (''a'', ''1''), x_item_line (''b'', ''2'')])"
proof -
  let ?ts = "x_file_tokens [(''net'', [(''a'', ''1''), (''b'', ''2'')]), (''crypt'', [(''c'', ''3'')])]"
  have "coming (\<lambda>i. if i < length ?ts then ?ts ! i else NoToken) 0 ?ts" using coming_nth [of ?ts "[]" ?ts] by simp
  from old_loader_prints_first_section [OF this, of "\<lambda>_. NUL" "\<lambda>_. NUL"] show ?thesis
    by (simp add: short_def NUL_def Let_def)
qed

text \<open>
  An item with a second setting stops the old loader for ever: the loop over the items scans
  no token unless it sees the start of an item, and here it sees a key.
\<close>

theorem old_loader_hangs_on_second_setting:
  assumes "coming toks 0 ([OtherToken, MappingStart, Key, Scalar g, Value, SequenceStart] @
      concat (map x_item_tokens kvs) @ [BlockEntry, MappingStart, Key, Scalar k, Value, Scalar v, Key])"
    and "short g" and "short k" and "\<forall>kv \<in> set kvs. short (fst kv)"
  shows "x_load_config toks key tmpkey = None"
proof -
  let ?st = "\<lparr>x_pos = 0, x_tok = NoToken, x_key = key, x_tmpkey = tmpkey, x_out = []\<rparr>"
  let ?items = "concat (map x_item_tokens kvs) @ [BlockEntry]"
  let ?rest = "[MappingStart, Key, Scalar k, Value, Scalar v, Key]"
  have split: "?items @ ?rest = hd ?items # tl ?items @ ?rest" by (cases ?items) auto
  have "x_at toks ?st [] (OtherToken # MappingStart # Key # Scalar g # Value # SequenceStart # ?items @ ?rest)"
    using assms(1) by (simp add: x_at_def)
  then obtain st1 where st1: "x_document toks ?st = x_document toks st1"
    "x_at toks st1 [] (MappingStart # Key # Scalar g # Value # SequenceStart # hd ?items # tl ?items @ ?rest)"
    using x_document_skip [of toks ?st "[]" OtherToken] unfolding split by blast
  let ?a = "x_scan toks st1"
  note a = x_at_scan [OF st1(2)]
  obtain e where e: "x_tok e = hd ?items" "x_at toks e [x_section_line g] (tl ?items @ ?rest)"
    "x_items toks e = None \<Longrightarrow> x_mapping_step toks ?a = None"
    using x_mapping_step_section [of toks ?a "[]" g] a assms(2) by fastforce
  obtain e1 where e1: "x_items toks e = x_items toks e1" "x_tok e1 = BlockEntry"
    "x_at toks e1 ([x_section_line g] @ map x_item_line kvs) ?rest"
    using x_items_pairs [OF assms(4) e(2,1)] by blast
  from x_item_read [OF e1(3) assms(3)] have "x_tok (x_item toks e1) = Key" by auto
  then have "x_items toks e1 = None" using x_items_entry [OF e1(2)] x_items_hang by simp
  then have "x_mapping_step toks ?a = None" using e(3) e1(1) by simp
  then have "x_mapping toks ?a = None" by (subst x_mapping.simps) simp
  then have "x_document toks st1 = None" using a by (subst x_document.simps) (simp add: Let_def)
  then show ?thesis using st1(1) by (simp add: x_load_config_def)
qed

theorem old_loader_hangs_on_second_setting_witness:
  "x_load_config (\<lambda>i. let ts = [OtherToken, MappingStart, Key, Scalar ''net'', Value, SequenceStart, BlockEntry,
       MappingStart, Key, Scalar ''name'', Value, Scalar ''a'', Key]
     in if i < length ts then ts ! i else NoToken) (\<lambda>_. NUL) (\<lambda>_. NUL) = None"
proof -
  let ?ts = "[OtherToken, MappingStart, Key, Scalar ''net'', Value, SequenceStart, BlockEntry,
       MappingStart, Key, Scalar ''name'', Value, Scalar ''a'', Key]"
  have "coming (\<lambda>i. if i < length ?ts then ?ts ! i else NoToken) 0 ?ts" using coming_nth [of ?ts "[]" ?ts] by simp
  then have "coming (\<lambda>i. let ts = ?ts in if i < length ts then ts ! i else NoToken) 0 ([OtherToken, MappingStart, Key,
      Scalar ''net'', Value, SequenceStart] @ concat (map x_item_tokens []) @
      [BlockEntry, MappingStart, Key, Scalar ''name'', Value, Scalar ''a'', Key])" unfolding Let_def by simp
  from old_loader_hangs_on_second_setting [OF this] show ?thesis by (simp add: short_def NUL_def)
qed

end
