(* ===== verification/Spec2Isabelle.thy ===== *)
theory Spec2Isabelle
  imports Startup Lap Lanes Stall Typing Support Ringtest Oldloader
begin

text \<open>
  \<^bold>\<open>lanes: a verification of the tunnel program.\<close>

  The program carries Ethernet frames between two hosts. A host reads frames from a tap device,
  puts an Ethernet and an IP header in front of each and sends it over a raw socket; the other
  host receives it, checks the source address, strips the headers and writes the frame to its own
  tap device. \<^verbatim>\<open>main\<close> reads the command line (\<^verbatim>\<open>util.c\<close>) and a YAML file with a list of peers
  (\<^verbatim>\<open>state.c\<close>), and starts the supervisor (\<^verbatim>\<open>workers.c\<close>). The supervisor sets up one session per
  peer (\<^verbatim>\<open>network.c\<close>): a socket, a tap device, the headers, for which the next hop is asked by ARP,
  and one ring per configured thread (\<^verbatim>\<open>ring.c\<close>). For each session one IO thread fills the rings
  and one worker per ring empties it (\<^verbatim>\<open>workers.c\<close>); they share nothing but the rings. SIGTERM
  clears a flag that ends the loops.

  \<^bold>\<open>Theories and sources.\<close>
  \<^item> \<^verbatim>\<open>Prelude\<close>: machine types, the result types \<^verbatim>\<open>res\<close> and \<^verbatim>\<open>may_loop\<close> (an exit, a fault that C
    leaves undefined, or no return at all), indexed updates, bytes in memory, word lemmas.
  \<^item> \<^verbatim>\<open>Klist\<close>: \<^verbatim>\<open>list.h\<close>, every operation and traversal macro, on a heap of list nodes; the
    abstraction is the HOL list of the entries.
  \<^item> \<^verbatim>\<open>Atomics\<close>: the lock words and \<^verbatim>\<open>adaptive_spin\<close> of \<^verbatim>\<open>util.c\<close>; the locale \<^verbatim>\<open>try_lock\<close> states what
    a try-lock promises and gives mutual exclusion of any number of threads.
  \<^item> \<^verbatim>\<open>Checksum\<close>: \<^verbatim>\<open>csum\<close> of \<^verbatim>\<open>util.c\<close> on 64-bit sums, against the one's complement sum of RFC 1071.
  \<^item> \<^verbatim>\<open>Ring\<close>: \<^verbatim>\<open>ring.c\<close> and \<^verbatim>\<open>ring.h\<close>; descriptors as records, the byte pool as a list, cursors and
    sizes as 32-bit words. \<^verbatim>\<open>Fifo\<close> is the interface of a FIFO queue as locales, with the
    composition of two queues into a link.
  \<^item> \<^verbatim>\<open>Workers\<close>, \<^verbatim>\<open>Traffic\<close>, \<^verbatim>\<open>Tunnel\<close>, \<^verbatim>\<open>Loops\<close>: the bodies of \<^verbatim>\<open>tx_io\<close>, \<^verbatim>\<open>tx\<close>, \<^verbatim>\<open>rx_io\<close>, \<^verbatim>\<open>rx\<close>, \<^verbatim>\<open>tx_lb\<close>
    and \<^verbatim>\<open>rx_lb\<close>, one pass at a time; the invariant of a ring between passes; the interpretations
    of the FIFO locales by the sending and the receiving ring; what holds of single loops.
  \<^item> \<^verbatim>\<open>Races\<close>, \<^verbatim>\<open>Exclusion\<close>, \<^verbatim>\<open>Lap\<close>: the same ring with its producer and consumer cut into single
    steps that are interleaved at will.
  \<^item> \<^verbatim>\<open>Slots\<close>, \<^verbatim>\<open>Lanes\<close>: rings and the tunnel over any number of laps. A ring between passes is a row of
    slots; the locale \<^verbatim>\<open>slot_ring\<close> says that two passes are the operations of the row, and \<^verbatim>\<open>slot_link\<close>
    joins two rings and the network between them. \<^verbatim>\<open>Stall\<close>: the end of a lap with a sleeping worker.
  \<^item> \<^verbatim>\<open>Process\<close>: \<^verbatim>\<open>die\<close>, \<^verbatim>\<open>debug\<close>, signals, \<^verbatim>\<open>parse_args\<close>, the thread list and the peer list of
    \<^verbatim>\<open>util.c\<close>. \<^verbatim>\<open>Config\<close>: \<^verbatim>\<open>load_config\<close> of \<^verbatim>\<open>state.c\<close> over the scanner's token stream; the text fields
    of a peer are one stretch of memory, since the stores run from one into the next.
  \<^item> \<^verbatim>\<open>Network\<close>: interface requests, ARP and headers of \<^verbatim>\<open>network.c\<close>, over a kernel that is a record
    of functions. \<^verbatim>\<open>Sessions\<close>: \<^verbatim>\<open>enumerate_interfaces\<close>, \<^verbatim>\<open>tx_session\<close>, \<^verbatim>\<open>rx_session\<close>.
  \<^item> \<^verbatim>\<open>Threads\<close>: the traffic threads from start to end: \<^verbatim>\<open>tx_io\<close>, \<^verbatim>\<open>rx_io\<close>, \<^verbatim>\<open>tx\<close> and \<^verbatim>\<open>rx\<close> with their loops,
    the wait of a worker, and what \<^verbatim>\<open>free_tx\<close> and \<^verbatim>\<open>free_rx\<close> free; the locale \<^verbatim>\<open>ring_worker\<close> is the contract
    between a worker and whoever feeds its ring.
  \<^item> \<^verbatim>\<open>Typing\<close>: what no pass of a traffic thread changes: the type of a session, its constants and the
    layout of its rings in memory.
  \<^item> \<^verbatim>\<open>Support\<close>: \<^verbatim>\<open>trace_dump\<close>, \<^verbatim>\<open>set_fanout\<close>, \<^verbatim>\<open>free_map\<close>, the statistics, \<^verbatim>\<open>init_gcrypt\<close> of \<^verbatim>\<open>crypto.c\<close> and
    the functions of \<^verbatim>\<open>state.c\<close> that only return 1, which nothing calls; \<^verbatim>\<open>unload_config\<close>.
  \<^item> \<^verbatim>\<open>Ringtest\<close>: \<^verbatim>\<open>ringtst.c\<close>, a ring of bytes and twenty threads under a mutex, another instance of the
    interface of \<^verbatim>\<open>Fifo\<close>. \<^verbatim>\<open>Oldloader\<close>: the loader of \<^verbatim>\<open>xstate.c\<close>. The Makefile builds neither.
  \<^item> \<^verbatim>\<open>Startup\<close>: \<^verbatim>\<open>main\<close>, \<^verbatim>\<open>start_supervisor\<close>, the supervisor and \<^verbatim>\<open>drop_privs\<close>.
  \<^item> This theory: two hosts, from their command lines to the payloads that arrive.

  \<^bold>\<open>What the lemmas show.\<close> A ring stays well formed under every operation; \<^verbatim>\<open>push\<close> and \<^verbatim>\<open>pop\<close> are
  given completely, with the inputs on which they leave the array or never return. Between passes
  a ring is a FIFO queue of payloads (sending) or of frames (receiving), and a link made of both
  delivers what was read, in order. Over any number of laps, under every schedule of passes, a ring
  answers as a row of slots; if the workers keep up, the one payload of each lap that lies in the last
  slot is lost and everything else arrives in order. But a worker that sleeps does not keep up: when a ring
  was empty before its last slot was filled, the worker waits for a count that \<^verbatim>\<open>push\<close> never changes
  again, and the ring is dead. With both threads inside the operations at once, the same
  order holds within a lap, nobody is inside the lock with the other, and the lock is always
  released; two schedules show what goes wrong beyond that: the reset of a full ring breaks the
  lock, and an update of the size can be lost. A worker that is fed within a lap passes everything
  on in order and ends when it is told to and woken; an IO thread that serves its rings in turn
  leaves their array after the last one, so what is said of a tunnel holds for each ring, for the
  passes the IO threads get that far. The loader builds exactly the peers of the file.
  No pass changes the type of a session or moves a ring in memory. The ring of \<^verbatim>\<open>ringtst.c\<close> is a queue
  too, of one message less than it accepts, and its mutex keeps its threads apart.
  With a kernel that grants what is asked, the whole program comes up and ends on SIGTERM, and
  two hosts together carry every payload.

  \<^bold>\<open>Bounds.\<close> A lap ends when \<^verbatim>\<open>in\<close> reaches the end of the array or the ring is marked full; the FIFO
  laws hold for as many frames as the ring has room for, one less than its blocks, since \<^verbatim>\<open>pop\<close> never
  returns the last block. The laws of \<^verbatim>\<open>slot_ring\<close> hold for any number; a worker keeps up if it has found
  its ring empty since the last turn whenever the last block is filled. There is no fuel: loops that may not end are \<^verbatim>\<open>partial_function (option)\<close>,
  and their termination, or the input on which they run for ever, is a theorem. Threads are numbered
  below \<open>2 ^ 31\<close>, ring memory is \<^verbatim>\<open>BUFSIZE\<close>. A run of \<^verbatim>\<open>enumerate_interfaces\<close> is followed for one peer
  each way, because a second one leaves the array pointer.

  \<^bold>\<open>Assumptions.\<close> The kernel, the resolver, the YAML scanner, \<^verbatim>\<open>malloc\<close> and \<^verbatim>\<open>calloc\<close>, \<^verbatim>\<open>getopt\<close>,
  \<^verbatim>\<open>fopen\<close>, libgcrypt and the arrival of signals are parameters; nothing is assumed of them except where a
  theorem says so (\<^verbatim>\<open>grants\<close>, \<^verbatim>\<open>memory_ok\<close>, \<^verbatim>\<open>configured\<close>, \<^verbatim>\<open>feeds\<close>). The mutex of the ring test lets one
  thread in at a time. The steps of a schedule are sequentially consistent.

  \<^bold>\<open>Not modelled.\<close> Printing, apart from what the threads announce when they start, the messages of
  \<^verbatim>\<open>die\<close> and \<^verbatim>\<open>debug\<close>, the hex dump, the old loader's output and the messages of a file that does not open;
  the bodies of \<^verbatim>\<open>map\<close>, \<^verbatim>\<open>map_in\<close> and \<^verbatim>\<open>map_lb\<close>, which are empty; the weak memory of a real machine.
\<close>

section \<open>Two hosts\<close>

text \<open>The frames a ring set up by a session has room for.\<close>

definition ring_room :: "int \<Rightarrow> int \<Rightarrow> nat" where
  "ring_room mtu n = nat (BUFSIZE div n) div nat (mtu + 4) - 1"

text \<open>
  Two hosts with matching configurations come up with rings that are ready, the sender's headers
  holding the address the receiver expects.
\<close>

lemma hosts_come_up:
  assumes "configured h g s mtu p q" and "configured h' g' s' mtu p' q'" and "peerip p' = myip q"
  obtains gu u gv v hdr hdr' where "main h g s = done_with (0, gu, u)" and "main h' g' s' = done_with (0, gv, v)"
    and "sends_as hdr (peerip p')"
    and "\<forall>x \<in> set (tx_q (TXs u ! 0)). ring_ready mtu (threadcount q) hdr 0 x"
    and "length (tx_q (TXs u ! 0)) = nat (threadcount q)"
    and "\<forall>y \<in> set (rx_q (RXs v ! 0)). ring_ready mtu (threadcount p') hdr' (peerip p') y"
    and "length (rx_q (RXs v ! 0)) = nat (threadcount p')"
proof -
  obtain gu u where u: "main h g s = done_with (0, gu, u)" "ran h mtu p q gu u"
    using configured_runs [OF assms(1)] by blast
  obtain gv v where v: "main h' g' s' = done_with (0, gv, v)" "ran h' mtu p' q' gv v"
    using configured_runs [OF assms(2)] by blast
  from u(2) v(2) assms(3) that [OF u(1) v(1)] show ?thesis by (auto simp: ran_def)
qed

text \<open>The two hosts of the examples, each the other's peer.\<close>

lemma sample_hosts:
  obtains p q p' q' where "configured (sample_host ''10.0.0.1'' ''10.0.0.2'') sample_settings sample_net 1500 p q"
    and "threadcount q = 2"
    and "configured (sample_host ''10.0.0.2'' ''10.0.0.1'') sample_settings sample_net 1500 p' q'"
    and "threadcount p' = 1" and "peerip p' = sample_resolver ''10.0.0.1''" and "peerip p' = myip q"
proof -
  obtain p q where c: "configured (sample_host ''10.0.0.1'' ''10.0.0.2'') sample_settings sample_net 1500 p q"
    "threadcount q = 2" "myip q = sample_resolver ''10.0.0.1''"
    by (rule sample_configured [of "''10.0.0.1''" "''10.0.0.2''"]) simp_all
  obtain p' q' where "configured (sample_host ''10.0.0.2'' ''10.0.0.1'') sample_settings sample_net 1500 p' q'"
    "threadcount p' = 1" "peerip p' = sample_resolver ''10.0.0.1''"
    by (rule sample_configured [of "''10.0.0.2''" "''10.0.0.1''"]) simp_all
  with c that show ?thesis by simp
qed





end
